(* ===== verification/Prelude.thy ===== *)
theory Prelude
  imports Main "HOL-Library.Word" "HOL-Library.Monad_Syntax"
begin

text \<open>
  Shared ground of the hmalloc development: the machine types, the power-of-two
  alignment arithmetic on 64-bit words that every layer of the allocator relies on, a
  little-endian byte memory, and singly linked lists threaded through such a memory.
  Collections: \<open>hm_align\<close> holds the rewrite rules that turn masking into
  division on natural numbers, \<open>hm_mem\<close> the load/store rules.
\<close>

unbundle bit_operations_syntax

named_theorems hm_align \<open>masking as arithmetic on natural numbers\<close>
named_theorems hm_mem \<open>loads from an updated byte memory\<close>

type_synonym u8 = "8 word"
type_synonym u32 = "32 word"
type_synonym u64 = "64 word"
type_synonym addr = "64 word"
type_synonym memory = "addr \<Rightarrow> u8"

section \<open>Arithmetic without wrap-around\<close>

lemma unat_less_2_64: "unat (x :: u64) < 18446744073709551616"
  using unsigned_less [of x, where ?'a = nat] by simp

lemma unat_ucast_u32 [simp]: "unat (ucast (x :: u32) :: u64) = unat x"
proof -
  have "unat x < 2 ^ 64" using unsigned_less [of x, where ?'a = nat] by simp
  then show ?thesis by (simp add: unsigned_ucast_eq take_bit_nat_eq_self)
qed

lemma unat_add_nowrap:
  "unat a + unat b < 2 ^ 64 \<Longrightarrow> unat (a + b :: u64) = unat a + unat b"
  by (simp add: unat_plus_if')

lemma unat_diff_nowrap: "b \<le> a \<Longrightarrow> unat (a - b :: u64) = unat a - unat b"
  by (simp add: unat_sub_if' word_le_nat_alt)

lemma unat_add_less_iff:
  "(a + b :: u64) < a \<longleftrightarrow> 2 ^ 64 \<le> unat a + unat b"
  using unat_less_2_64 [of a] unat_less_2_64 [of b]
  unfolding word_less_nat_alt unat_plus_if' by auto

lemma unat_of_nat_u64: "n < 2 ^ 64 \<Longrightarrow> unat (of_nat n :: u64) = n"
  by (simp add: unsigned_of_nat take_bit_nat_eq_self)

section \<open>Masks, powers of two and alignment\<close>

lemma unat_and_mask [hm_align]: "unat (x AND mask n :: 'a::len word) = unat x mod 2 ^ n"
  by (simp add: unsigned_take_bit_eq flip: take_bit_eq_mask take_bit_eq_mod)

lemma and_not_mask_diff: "(x AND NOT (mask n) :: 'a::len word) = x - (x AND mask n)"
proof -
  have "(x AND mask n) + (x AND NOT (mask n)) = (x AND mask n) OR (x AND NOT (mask n))"
    by (rule disjunctive_add) (auto simp: bit_simps)
  also have "\<dots> = x" by (rule bit_eqI) (auto simp: bit_simps)
  finally show ?thesis by (metis add_diff_cancel_left')
qed

lemma unat_and_not_mask [hm_align]:
  "unat (x AND NOT (mask n) :: 'a::len word) = unat x - unat x mod 2 ^ n"
proof -
  have "x AND mask n \<le> x" by (simp add: word_and_le2)
  then show ?thesis
    by (simp add: and_not_mask_diff unat_sub_if' word_le_nat_alt unat_and_mask)
qed

lemma nat_pow2_iff: "(n::nat) \<noteq> 0 \<and> n AND (n - 1) = 0 \<longleftrightarrow> (\<exists>k. n = 2 ^ k)"
proof (induction n rule: less_induct)
  case (less n)
  show ?case
  proof (cases "even n")
    case True
    then obtain m where m: "n = 2 * m" by blast
    show ?thesis
    proof (cases "m = 0")
      case False
      then have "n - 1 = 1 + 2 * (m - 1)" using m by simp
      then have "n AND (n - 1) = 2 * (m AND (m - 1))"
        using m by (simp add: and_nat_rec [of "2 * m"])
      moreover have "(\<exists>k. n = 2 ^ k) \<longleftrightarrow> (\<exists>k. m = 2 ^ k)"
      proof
        assume "\<exists>k. n = 2 ^ k"
        then obtain k where "2 * m = 2 ^ k" using m by auto
        then show "\<exists>k. m = 2 ^ k" by (cases k) auto
      next
        assume "\<exists>k. m = 2 ^ k"
        then show "\<exists>k. n = 2 ^ k" using m by (auto intro: exI [of _ "Suc _"])
      qed
      ultimately show ?thesis using less.IH [of m] m False by auto
    qed (use m in auto)
  next
    case False
    then obtain m where m: "n = 2 * m + 1" by (auto elim: oddE)
    then have "n AND (n - 1) = 2 * m"
      by (simp add: and_nat_rec [of "Suc (2 * m)"])
    moreover have "(\<exists>k. n = 2 ^ k) \<longleftrightarrow> m = 0"
    proof
      assume "\<exists>k. n = 2 ^ k"
      then obtain k where "n = 2 ^ k" by blast
      then show "m = 0" using m False by (cases k) auto
    qed (auto simp: m intro: exI [of _ 0])
    ultimately show ?thesis using m by auto
  qed
qed

lemma unat_exp_u64: "k < 64 \<Longrightarrow> unat (2 ^ k :: u64) = 2 ^ k"
  by transfer simp

lemma word_pow2_iff:
  "(x :: u64) \<noteq> 0 \<and> x AND (x - 1) = 0 \<longleftrightarrow> (\<exists>k < 64. x = 2 ^ k)"
proof -
  have pred: "unat (x - 1) = unat x - 1" if "x \<noteq> 0"
    using that by (simp add: unat_diff_nowrap word_le_nat_alt unat_gt_0 Suc_le_eq)
  have "x AND (x - 1) = 0 \<longleftrightarrow> unat (x AND (x - 1)) = 0"
    by (simp only: unat_eq_zero)
  then have "x \<noteq> 0 \<and> x AND (x - 1) = 0 \<longleftrightarrow>
      unat x \<noteq> 0 \<and> unat x AND (unat x - 1) = 0"
    using pred by (cases "x = 0") (simp_all only: unsigned_and_eq unat_eq_zero simp_thms)
  also have "\<dots> \<longleftrightarrow> (\<exists>k. unat x = 2 ^ k)"
    by (rule nat_pow2_iff)
  also have "\<dots> \<longleftrightarrow> (\<exists>k < 64. x = 2 ^ k)"
  proof
    assume "\<exists>k. unat x = 2 ^ k"
    then obtain k where k: "unat x = 2 ^ k" by blast
    then have "(2::nat) ^ k < 2 ^ 64" using unsigned_less [of x, where ?'a = nat] by simp
    then have lt: "k < 64" by (rule power_less_imp_less_exp [rotated]) simp
    with k have "unat x = unat (2 ^ k :: u64)" by (simp add: unat_exp_u64)
    then have "x = 2 ^ k" by (rule unsigned_word_eqI)
    with lt show "\<exists>k < 64. x = 2 ^ k" by blast
  qed (auto simp: unat_exp_u64)
  finally show ?thesis .
qed

lemma exp_minus_1_mask: "(2 ^ k - 1 :: u64) = mask k"
  by (simp add: mask_eq_exp_minus_1)

lemma unat_mask_u64: "k < 64 \<Longrightarrow> unat (mask k :: u64) = 2 ^ k - 1"
proof -
  assume k: "k < 64"
  have "(1 :: u64) \<le> 2 ^ k" using k by (simp add: word_le_nat_alt unat_exp_u64)
  then show ?thesis
    using k by (simp add: unat_diff_nowrap unat_exp_u64 flip: exp_minus_1_mask)
qed

text \<open>Rounding up to a power of two, as \<open>(n + (a - 1)) & ~(a - 1)\<close>.\<close>

definition nat_round_up :: "nat \<Rightarrow> nat \<Rightarrow> nat" where
  "nat_round_up n a = (n + (a - 1)) div a * a"

lemma nat_round_up_ge: "0 < a \<Longrightarrow> n \<le> nat_round_up n a"
proof -
  assume a: "0 < a"
  have "(n + (a - 1)) mod a < a" using a by simp
  moreover have "nat_round_up n a + (n + (a - 1)) mod a = n + (a - 1)"
    by (simp add: nat_round_up_def)
  ultimately show ?thesis by linarith
qed

lemma nat_round_up_less: "0 < a \<Longrightarrow> nat_round_up n a < n + a"
  using div_times_less_eq_dividend [of "n + (a - 1)" a] unfolding nat_round_up_def by linarith

lemma nat_round_up_dvd: "a dvd nat_round_up n a"
  by (simp add: nat_round_up_def)

lemma nat_round_up_least:
  assumes "0 < a" "n \<le> m" "a dvd m"
  shows "nat_round_up n a \<le> m"
proof -
  from assms obtain q where q: "m = a * q" by blast
  have "(n + (a - 1)) div a \<le> q"
  proof (rule ccontr)
    assume "\<not> ?thesis"
    then have "Suc q \<le> (n + (a - 1)) div a" by simp
    then have "Suc q * a \<le> n + (a - 1)" using assms(1) by (simp add: less_eq_div_iff_mult_less_eq)
    then show False using assms(1,2) q by (simp add: algebra_simps)
  qed
  then have "(n + (a - 1)) div a * a \<le> q * a" by (rule mult_le_mono1)
  then show ?thesis unfolding nat_round_up_def q by (simp only: mult.commute)
qed

lemma nat_round_up_id: "0 < a \<Longrightarrow> a dvd n \<Longrightarrow> nat_round_up n a = n"
  by (rule antisym [OF nat_round_up_least nat_round_up_ge]) auto

lemma unat_align_up [hm_align]:
  assumes "k < 64" "unat n + (2 ^ k - 1) < 2 ^ 64"
  shows "unat ((n + (2 ^ k - 1)) AND NOT (2 ^ k - 1) :: u64) = nat_round_up (unat n) (2 ^ k)"
proof -
  have "unat (mask k :: u64) = 2 ^ k - 1"
    using assms(1) by (simp add: unat_mask_u64)
  then have "unat (n + mask k) = unat n + (2 ^ k - 1)"
    using assms(2) by (simp add: unat_add_nowrap)
  then show ?thesis
    by (simp add: exp_minus_1_mask unat_and_not_mask nat_round_up_def minus_mod_eq_div_mult)
qed

section \<open>A little-endian byte memory\<close>

definition load64 :: "memory \<Rightarrow> addr \<Rightarrow> u64" where
  "load64 m a =
     foldr (\<lambda>k w. push_bit (8 * unat k) (ucast (m (a + k))) OR w) [0, 1, 2, 3, 4, 5, 6, 7] 0"

definition store64 :: "addr \<Rightarrow> u64 \<Rightarrow> memory \<Rightarrow> memory" where
  "store64 a v m = (\<lambda>x. if x - a < 8 then ucast (drop_bit (8 * unat (x - a)) v) else m x)"

lemma load64_store64_same [simp, hm_mem]: "load64 (store64 a v m) a = v"
proof (rule bit_word_eqI)
  fix n assume "n < LENGTH(64)"
  then have n: "n < 64" by simp
  obtain q r where qr: "n = 8 * q + r" "q < 8" "r < 8"
    using that [of "n div 8" "n mod 8"] n by simp
  have "q = 0 \<or> q = 1 \<or> q = 2 \<or> q = 3 \<or> q = 4 \<or> q = 5 \<or> q = 6 \<or> q = 7"
    using qr(2) by linarith
  then show "bit (load64 (store64 a v m) a) n = bit v n"
    using qr(3) unfolding qr(1)
    by (elim disjE) (simp_all add: load64_def store64_def bit_simps)
qed

lemma load64_cong:
  assumes "\<And>k. k < 8 \<Longrightarrow> m (a + k) = m' (a + k)"
  shows "load64 m a = load64 m' a"
proof -
  have "m a = m' a" using assms [of 0] by simp
  then show ?thesis using assms by (simp add: load64_def)
qed

text \<open>Two eight-byte cells that do not overlap are independent.\<close>

definition apart :: "addr \<Rightarrow> addr \<Rightarrow> bool" where
  "apart a b \<longleftrightarrow> 8 \<le> b - a \<and> 8 \<le> a - b"

lemma load64_store64_apart [hm_mem]:
  assumes "apart a b"
  shows "load64 (store64 a v m) b = load64 m b"
proof (rule load64_cong)
  fix k :: u64 assume k: "k < 8"
  have "\<not> b + k - a < 8"
    using assms k unat_less_2_64 [of a] unat_less_2_64 [of b]
    unfolding apart_def word_le_nat_alt word_less_nat_alt unat_plus_if' unat_sub_if'
    by (auto split: if_splits)
  then show "store64 a v m (b + k) = m (b + k)" by (simp add: store64_def)
qed

lemma store64_other: "8 \<le> x - a \<Longrightarrow> store64 a v m x = m x"
  by (auto simp: store64_def)

section \<open>Sequences of operations\<close>

text \<open>A sequence of operations that may fail, the condition that each of them meets a
  precondition in the state it runs in, and the simulation of such a run by an abstract one.\<close>

fun run_ops :: "('o \<Rightarrow> 's \<Rightarrow> 's option) \<Rightarrow> 'o list \<Rightarrow> 's \<Rightarrow> 's option" where
  "run_ops step [] s = Some s"
| "run_ops step (op # ops) s = step op s \<bind> run_ops step ops"

fun guarded :: "('o \<Rightarrow> 's \<Rightarrow> bool) \<Rightarrow> ('o \<Rightarrow> 's \<Rightarrow> 's option) \<Rightarrow> 'o list \<Rightarrow> 's \<Rightarrow> bool" where
  "guarded G step [] s \<longleftrightarrow> True"
| "guarded G step (op # ops) s \<longleftrightarrow>
     G op s \<and> (case step op s of None \<Rightarrow> True | Some s' \<Rightarrow> guarded G step ops s')"

lemma run_simulates:
  assumes "I s" "guarded G step ops s"
    and "\<And>op s. I s \<Longrightarrow> G op s \<Longrightarrow> \<exists>s'. step op s = Some s' \<and> I s' \<and> absf s' = spec op (absf s)"
  shows "\<exists>s'. run_ops step ops s = Some s' \<and> I s' \<and> absf s' = fold spec ops (absf s)"
  using assms(1,2)
proof (induction ops arbitrary: s)
  case (Cons op ops)
  obtain s' where "step op s = Some s'" "I s'" "absf s' = spec op (absf s)"
    using assms(3) [of s op] Cons.prems by auto
  then show ?case using Cons.IH [of s'] Cons.prems by simp
qed simp

lemma run_ops_append: "run_ops step (xs @ ys) s = run_ops step xs s \<bind> run_ops step ys"
  by (induction xs arbitrary: s) (auto split: Option.bind_splits)

end
