(* ===== verification/Constants.thy ===== *)
theory Constants
  imports Prelude
begin

text \<open>
  The geometry of the allocator (src/src/constants.h): segment, page and alignment
  constants as the 64-bit values the code computes them to, with the facts the other
  theories use to reason about masking by them.
\<close>

definition SEGMENT_SHIFT :: nat where
  "SEGMENT_SHIFT = 22"

definition SEGMENT_SIZE :: u64 where
  "SEGMENT_SIZE = push_bit SEGMENT_SHIFT 1"

definition SEGMENT_MASK :: u64 where
  "SEGMENT_MASK = SEGMENT_SIZE - 1"

definition PAGE_SHIFT :: nat where
  "PAGE_SHIFT = 16"

definition PAGE_SIZE :: u64 where
  "PAGE_SIZE = push_bit PAGE_SHIFT 1"

definition PAGE_MASK :: u64 where
  "PAGE_MASK = PAGE_SIZE - 1"

definition PAGES_PER_SEGMENT :: u64 where
  "PAGES_PER_SEGMENT = SEGMENT_SIZE div PAGE_SIZE"

definition FIRST_USABLE_PAGE :: u64 where
  "FIRST_USABLE_PAGE = 1"

definition ALLOC_ALIGN :: u64 where
  "ALLOC_ALIGN = 16"

definition SMALL_SIZE_MAX :: u64 where
  "SMALL_SIZE_MAX = 16 * 1024"

lemma constants_value [simp]:
  "SEGMENT_SIZE = 4194304" "PAGE_SIZE = 65536" "PAGES_PER_SEGMENT = 64"
  "ALLOC_ALIGN = 16" "SMALL_SIZE_MAX = 16384" "FIRST_USABLE_PAGE = 1"
  "SEGMENT_MASK = 4194303" "PAGE_MASK = 65535" "SEGMENT_SHIFT = 22" "PAGE_SHIFT = 16"
  by (simp_all add: SEGMENT_SIZE_def SEGMENT_SHIFT_def PAGE_SIZE_def PAGE_SHIFT_def
      PAGES_PER_SEGMENT_def ALLOC_ALIGN_def SMALL_SIZE_MAX_def FIRST_USABLE_PAGE_def
      SEGMENT_MASK_def PAGE_MASK_def)

lemma segment_mask_eq: "(4194303 :: u64) = mask 22"
  by (simp add: mask_eq_exp_minus_1)

lemma page_mask_eq: "(65535 :: u64) = mask 16"
  by (simp add: mask_eq_exp_minus_1)

end
