(* ===== verification/Size_Class.thy ===== *)
theory Size_Class
  imports Constants
begin

text \<open>
  Size classes (src/src/size_class.h): the compile-time construction of the class table
  and of its reverse lookup, the O(1) mapping from a request to a class, and the facts that
  make the mapping right: the table is strictly increasing and 16-aligned, a request gets
  the least class that holds it, and the waste is below a quarter above the dense octave.
\<close>

section \<open>Building the table\<close>

definition LARGE_CLASS :: u32 where
  "LARGE_CLASS = 0xFFFFFFFF"

definition kMaxClasses :: nat where
  "kMaxClasses = 64"

definition kLookupEntries :: nat where
  "kLookupEntries = unat (SMALL_SIZE_MAX div ALLOC_ALIGN)"

record SizeClasses =
  sc_size :: "u32 list"
  sc_count :: u32
  sc_lookup :: "u8 list"

definition empty_classes :: SizeClasses where
  "empty_classes = \<lparr>sc_size = replicate kMaxClasses 0, sc_count = 0,
     sc_lookup = replicate kLookupEntries 0\<rparr>"

text \<open>The statement \<open>t.size[t.count++] = s\<close>.\<close>

definition add_class :: "u32 \<Rightarrow> SizeClasses \<Rightarrow> SizeClasses" where
  "add_class s t = t\<lparr>sc_size := (sc_size t)[unat (sc_count t) := s], sc_count := sc_count t + 1\<rparr>"

function dense_octave :: "u32 \<Rightarrow> SizeClasses \<Rightarrow> SizeClasses" where
  "dense_octave s t =
     (if s \<le> 64 then dense_octave (ucast (ucast s + ALLOC_ALIGN)) (add_class s t) else t)"
  by pat_completeness auto
termination
proof (relation "measure (\<lambda>(s, t). 80 - unat s)", goal_cases)
  case (2 s t)
  then have s: "unat s \<le> 64" by (simp add: word_le_nat_alt)
  then have "unat (ucast s + ALLOC_ALIGN) = unat s + 16"
    by (simp add: unat_add_nowrap unsigned_ucast_eq take_bit_nat_eq_self)
  then have "unat (ucast (ucast s + ALLOC_ALIGN) :: u32) = unat s + 16"
    using s by (simp add: unsigned_ucast_eq take_bit_nat_eq_self)
  with s show ?case by simp
qed simp

declare dense_octave.simps [simp del]

definition octave_step :: "u32 \<Rightarrow> u32 \<Rightarrow> u32 \<Rightarrow> SizeClasses \<Rightarrow> SizeClasses" where
  "octave_step base step i t =
     (let s = base + i * step in if ucast s \<le> SMALL_SIZE_MAX then add_class s t else t)"

text \<open>The guard \<open>k < 64\<close> is the definedness of the shift; the loop leaves at \<open>k = 14\<close>.\<close>

function octaves :: "nat \<Rightarrow> SizeClasses \<Rightarrow> SizeClasses" where
  "octaves k t =
     (if k < 64 \<and> push_bit k 1 < SMALL_SIZE_MAX then
        let base = push_bit k 1; step = drop_bit 2 base
        in octaves (Suc k) (fold (octave_step base step) [1, 2, 3, 4] t)
      else t)"
  by pat_completeness auto
termination
  by (relation "measure (\<lambda>(k, t). 64 - k)") auto

declare octaves.simps [simp del]

text \<open>\<open>while (cls + 1 < t.count && t.size[cls] < n) ++cls\<close>\<close>

function advance_class :: "u32 list \<Rightarrow> nat \<Rightarrow> u32 \<Rightarrow> nat \<Rightarrow> nat" where
  "advance_class sz cnt n cls =
     (if cls + 1 < cnt \<and> sz ! cls < n then advance_class sz cnt n (cls + 1) else cls)"
  by pat_completeness auto
termination
  by (relation "measure (\<lambda>(sz, cnt, n, cls). cnt - cls)") auto

declare advance_class.simps [simp del]

fun fill_lookup :: "nat list \<Rightarrow> nat \<Rightarrow> SizeClasses \<Rightarrow> SizeClasses" where
  "fill_lookup [] cls t = t"
| "fill_lookup (i # is) cls t =
     (let n = ucast ((of_nat i + 1) * ALLOC_ALIGN :: u64);
          cls' = advance_class (sc_size t) (unat (sc_count t)) n cls
      in fill_lookup is cls' (t\<lparr>sc_lookup := (sc_lookup t)[i := of_nat cls']\<rparr>))"

definition build_size_classes :: SizeClasses where
  "build_size_classes =
     (let t = dense_octave (ucast ALLOC_ALIGN) empty_classes;
          t = octaves 6 t
      in fill_lookup [0..<kLookupEntries] 0 t)"

definition kTable :: SizeClasses where
  "kTable = build_size_classes"

section \<open>The queries\<close>

definition num_size_classes :: u32 where
  "num_size_classes = sc_count kTable"

text \<open>Indexing past the array is undefined behaviour: \<open>None\<close>.\<close>

definition class_to_size :: "u32 \<Rightarrow> u32 option" where
  "class_to_size c =
     (if unat c < length (sc_size kTable) then Some (sc_size kTable ! unat c) else None)"

definition size_class :: "u64 \<Rightarrow> u32" where
  "size_class n =
     (if SMALL_SIZE_MAX < n then LARGE_CLASS
      else let n = (if n = 0 then 1 else n)
           in ucast (sc_lookup kTable ! unat ((n - 1) div ALLOC_ALIGN)))"

definition size_class_round :: "u64 \<Rightarrow> u64 option" where
  "size_class_round n = map_option ucast (class_to_size (size_class n))"

section \<open>The table the construction yields\<close>

definition class_sizes :: "u32 list" where
  "class_sizes = [16, 32, 48, 64, 80, 96, 112, 128, 160, 192, 224, 256, 320, 384, 448, 512,
     640, 768, 896, 1024, 1280, 1536, 1792, 2048, 2560, 3072, 3584, 4096,
     5120, 6144, 7168, 8192, 10240, 12288, 14336, 16384]"

text \<open>A table under construction: the classes so far, the rest of the array zero.\<close>

definition classes_so_far :: "u32 list \<Rightarrow> u8 list \<Rightarrow> SizeClasses" where
  "classes_so_far xs l = \<lparr>sc_size = xs @ replicate (kMaxClasses - length xs) 0,
     sc_count = of_nat (length xs), sc_lookup = l\<rparr>"

lemma add_class_so_far:
  assumes "length xs < kMaxClasses"
  shows "add_class s (classes_so_far xs l) = classes_so_far (xs @ [s]) l"
proof -
  obtain d where d: "kMaxClasses - length xs = Suc d"
    using assms by (metis Suc_diff_Suc)
  have "unat (of_nat (length xs) :: u32) = length xs"
    using assms by (simp add: unsigned_of_nat take_bit_nat_eq_self kMaxClasses_def)
  then show ?thesis
    using d by (simp add: add_class_def classes_so_far_def list_update_append
        Suc_diff_Suc [symmetric] del: Suc_diff_Suc)
qed

lemma dense_octave_table:
  "dense_octave (ucast ALLOC_ALIGN) empty_classes =
     classes_so_far [16, 32, 48, 64] (replicate kLookupEntries 0)"
proof -
  have e: "empty_classes = classes_so_far [] (replicate kLookupEntries 0)"
    by (simp add: empty_classes_def classes_so_far_def)
  show ?thesis
    unfolding e by (simp add: dense_octave.simps add_class_so_far kMaxClasses_def)
qed

lemma octaves_step:
  "k < 64 \<Longrightarrow> push_bit k 1 < SMALL_SIZE_MAX \<Longrightarrow>
     octaves k (classes_so_far xs l) =
     octaves (Suc k) (fold (octave_step (push_bit k 1) (drop_bit 2 (push_bit k 1))) [1, 2, 3, 4]
       (classes_so_far xs l))"
  by (subst octaves.simps) (simp add: Let_def)

lemma octaves_table:
  "octaves 6 (classes_so_far [16, 32, 48, 64] l) = classes_so_far class_sizes l"
  by (simp add: octaves_step octaves.simps [of 14] octave_step_def add_class_so_far
      kMaxClasses_def class_sizes_def)

section \<open>The reverse lookup is a linear search\<close>

text \<open>Reference: the number of classes that are too small for the request.\<close>

definition class_for :: "nat \<Rightarrow> nat" where
  "class_for n = length (takeWhile (\<lambda>s. unat s < n) class_sizes)"

lemma length_class_sizes: "length class_sizes = 36"
  by (simp add: class_sizes_def)

lemma class_for_less:
  assumes "n \<le> 16384"
  shows "class_for n < 36" "n \<le> unat (class_sizes ! class_for n)"
proof -
  have "\<not> (\<forall>s \<in> set class_sizes. unat s < n)"
    using assms by (simp add: class_sizes_def)
  then have "takeWhile (\<lambda>s. unat s < n) class_sizes \<noteq> class_sizes"
    by (simp only: takeWhile_eq_all_conv not_False_eq_True)
  then have less: "class_for n < length class_sizes"
    unfolding class_for_def
    by (metis length_takeWhile_le le_neq_implies_less takeWhile_eq_take take_all)
  then show "class_for n < 36" by (simp add: length_class_sizes)
  from nth_length_takeWhile [OF less [unfolded class_for_def]]
  show "n \<le> unat (class_sizes ! class_for n)" by (simp add: class_for_def)
qed

lemma class_for_least: "c < class_for n \<Longrightarrow> unat (class_sizes ! c) < n"
  unfolding class_for_def
  by (metis (mono_tags, lifting) nth_mem set_takeWhileD takeWhile_nth)

lemma advance_class_for:
  assumes "n \<le> 16384" "cls \<le> class_for n"
  shows "advance_class (class_sizes @ zs) 36 (of_nat n) cls = class_for n"
  using assms(2)
proof (induction "class_for n - cls" arbitrary: cls)
  case 0
  then have "cls = class_for n" by simp
  moreover have "of_nat n \<le> (class_sizes @ zs) ! class_for n"
    using class_for_less [OF assms(1)] assms(1)
    by (simp add: nth_append length_class_sizes word_le_nat_alt unsigned_of_nat take_bit_nat_eq_self)
  ultimately show ?case by (subst advance_class.simps) (auto dest: leD)
next
  case (Suc d)
  then have "cls < class_for n" by simp
  then have "(class_sizes @ zs) ! cls < of_nat n" "cls + 1 < 36"
    using class_for_less [OF assms(1)] assms(1) class_for_least [of cls n]
    by (simp_all add: nth_append length_class_sizes word_less_nat_alt unsigned_of_nat
        take_bit_nat_eq_self)
  with Suc show ?case by (subst advance_class.simps) simp
qed

lemma class_for_mono:
  assumes "m \<le> n"
  shows "class_for m \<le> class_for n"
proof (rule ccontr)
  assume "\<not> ?thesis"
  then have less: "class_for n < class_for m" by simp
  then have "unat (class_sizes ! class_for n) < n"
    using class_for_least [of "class_for n" m] assms by simp
  moreover have "class_for n < length class_sizes"
    using less length_takeWhile_le [of _ class_sizes] unfolding class_for_def by (rule less_le_trans)
  ultimately show False
    using nth_length_takeWhile [of "\<lambda>s. unat s < n" class_sizes] by (simp add: class_for_def)
qed

lemma fill_lookup_spec:
  assumes "a \<le> b" "b \<le> 1024" "cls \<le> class_for (16 * (a + 1))"
    "sc_size t = class_sizes @ zs" "sc_count t = 36" "length (sc_lookup t) = 1024"
  shows "\<exists>l. fill_lookup [a..<b] cls t = t\<lparr>sc_lookup := l\<rparr> \<and> length l = 1024 \<and>
    (\<forall>i < 1024. l ! i = (if a \<le> i \<and> i < b then of_nat (class_for (16 * (i + 1)))
                        else sc_lookup t ! i))"
  using assms
proof (induction "b - a" arbitrary: a cls t)
  case 0
  then show ?case by (intro exI [of _ "sc_lookup t"]) auto
next
  case (Suc d)
  define c where "c = class_for (16 * (a + 1))"
  define u where "u = t\<lparr>sc_lookup := (sc_lookup t)[a := of_nat c]\<rparr>"
  from Suc.hyps(2) have ab: "a < b" by simp
  have n: "ucast ((of_nat a + 1) * ALLOC_ALIGN :: u64) = (of_nat (16 * (a + 1)) :: u32)"
  proof (rule unsigned_word_eqI [where ?'a = nat])
    have "(of_nat a + 1) * ALLOC_ALIGN = (of_nat (16 * (a + 1)) :: u64)"
      by (simp add: algebra_simps)
    then show "unat (ucast ((of_nat a + 1) * ALLOC_ALIGN :: u64) :: u32) =
        unat (of_nat (16 * (a + 1)) :: u32)"
      using ab Suc.prems by (simp add: unsigned_ucast_eq unsigned_of_nat take_bit_nat_eq_self
          del: of_nat_mult of_nat_add of_nat_Suc)
  qed
  have "advance_class (sc_size t) (unat (sc_count t)) (of_nat (16 * (a + 1))) cls = c"
    using advance_class_for [of "16 * (a + 1)" cls zs] Suc.prems ab
    by (simp add: c_def del: of_nat_mult of_nat_add of_nat_Suc)
  then have step: "fill_lookup [a..<b] cls t = fill_lookup [Suc a..<b] c u"
    using ab n by (simp add: upt_conv_Cons u_def Let_def)
  have "c \<le> class_for (16 * (Suc a + 1))"
    unfolding c_def by (rule class_for_mono) simp
  moreover have "d = b - Suc a" "Suc a \<le> b" using Suc.hyps(2) by simp_all
  moreover have "sc_size u = class_sizes @ zs" "sc_count u = 36" "length (sc_lookup u) = 1024"
    using Suc.prems by (simp_all add: u_def)
  ultimately have "\<exists>l. fill_lookup [Suc a..<b] c u = u\<lparr>sc_lookup := l\<rparr> \<and> length l = 1024 \<and>
    (\<forall>i < 1024. l ! i = (if Suc a \<le> i \<and> i < b then of_nat (class_for (16 * (i + 1)))
       else sc_lookup u ! i))"
    using Suc.hyps(1) Suc.prems(2) by blast
  then obtain l where "fill_lookup [Suc a..<b] c u = u\<lparr>sc_lookup := l\<rparr>" "length l = 1024"
    "\<forall>i < 1024. l ! i = (if Suc a \<le> i \<and> i < b then of_nat (class_for (16 * (i + 1)))
       else sc_lookup u ! i)"
    by blast
  with step ab Suc.prems show ?case
    by (intro exI [of _ l]) (auto simp: u_def c_def nth_list_update le_Suc_eq not_less_eq_eq)
qed

lemma kTable_eq:
  obtains l where "kTable = classes_so_far class_sizes l" "length l = 1024"
    "\<forall>i < 1024. l ! i = of_nat (class_for (16 * (i + 1)))"
proof -
  let ?t = "classes_so_far class_sizes (replicate 1024 0)"
  have "kLookupEntries = 1024" by (simp add: kLookupEntries_def)
  then have k: "kTable = fill_lookup [0..<1024] 0 ?t"
    unfolding kTable_def build_size_classes_def Let_def dense_octave_table octaves_table
    by (simp only:)
  have "sc_size ?t = class_sizes @ replicate 28 0" "sc_count ?t = 36" "sc_lookup ?t = replicate 1024 0"
    by (simp_all add: classes_so_far_def length_class_sizes kMaxClasses_def)
  then obtain l where "kTable = ?t\<lparr>sc_lookup := l\<rparr>" "length l = 1024"
    "\<forall>i < 1024. l ! i = of_nat (class_for (16 * (i + 1)))"
    using fill_lookup_spec [of 0 1024 0 ?t] unfolding k by auto
  moreover have "?t\<lparr>sc_lookup := l\<rparr> = classes_so_far class_sizes l"
    by (simp add: classes_so_far_def)
  ultimately show ?thesis using that by metis
qed

lemma kTable_size: "sc_size kTable = class_sizes @ replicate 28 0"
  and kTable_count: "sc_count kTable = 36"
proof -
  obtain l where k: "kTable = classes_so_far class_sizes l" by (rule kTable_eq)
  show "sc_size kTable = class_sizes @ replicate 28 0" "sc_count kTable = 36"
    unfolding k by (simp_all add: classes_so_far_def length_class_sizes kMaxClasses_def)
qed

lemma kTable_lookup:
  assumes "i < 1024"
  shows "unat (sc_lookup kTable ! i) = class_for (16 * (i + 1))"
proof -
  obtain l where k: "kTable = classes_so_far class_sizes l"
    and l: "\<forall>i < 1024. l ! i = of_nat (class_for (16 * (i + 1)))" by (rule kTable_eq)
  have "sc_lookup kTable = l" unfolding k by (simp add: classes_so_far_def)
  with l assms class_for_less(1) [of "16 * (i + 1)"] show ?thesis
    by (simp add: unsigned_of_nat take_bit_nat_eq_self)
qed

section \<open>The shape of the table\<close>

lemma class_sizes_steps:
  "successively (\<lambda>a b. unat a < unat b \<and> (unat a < 64 \<longrightarrow> unat b = unat a + 16) \<and>
      (64 \<le> unat a \<longrightarrow> 4 * (unat b - unat a) \<le> unat a)) class_sizes"
  by (simp add: class_sizes_def)

lemma class_sizes_step:
  assumes "Suc i < 36"
  shows "unat (class_sizes ! i) < unat (class_sizes ! Suc i)"
    "unat (class_sizes ! i) < 64 \<Longrightarrow> unat (class_sizes ! Suc i) = unat (class_sizes ! i) + 16"
    "64 \<le> unat (class_sizes ! i) \<Longrightarrow>
       4 * (unat (class_sizes ! Suc i) - unat (class_sizes ! i)) \<le> unat (class_sizes ! i)"
  using class_sizes_steps assms by (simp_all add: successively_conv_nth length_class_sizes)

lemma class_sizes_set:
  "s \<in> set class_sizes \<Longrightarrow> 16 dvd unat s \<and> 16 \<le> unat s \<and> unat s \<le> 16384"
  by (auto simp: class_sizes_def)

lemma class_sizes_nth:
  "i < 36 \<Longrightarrow> 16 dvd unat (class_sizes ! i) \<and> 16 \<le> unat (class_sizes ! i) \<and>
     unat (class_sizes ! i) \<le> 16384"
  by (rule class_sizes_set) (simp add: length_class_sizes)

lemma class_sizes_mono:
  assumes "i < j" "j < 36"
  shows "unat (class_sizes ! i) < unat (class_sizes ! j)"
  using assms
proof (induction j)
  case (Suc j)
  then show ?case
    using class_sizes_step(1) [of j] by (cases "i = j") auto
qed simp

text \<open>Sizes are multiples of 16, so a request and its 16-rounding need the same class.\<close>

lemma class_for_round16:
  assumes "0 < n"
  shows "class_for (16 * ((n - 1) div 16 + 1)) = class_for n"
proof -
  have "unat s < 16 * ((n - 1) div 16 + 1) \<longleftrightarrow> unat s < n" if s: "s \<in> set class_sizes" for s
  proof -
    from class_sizes_set [OF s] obtain q where "unat s = 16 * q" by auto
    moreover have "16 * q < 16 * ((n - 1) div 16 + 1) \<longleftrightarrow> q \<le> (n - 1) div 16" by auto
    moreover have "q \<le> (n - 1) div 16 \<longleftrightarrow> 16 * q < n"
      using assms by (simp add: less_eq_div_iff_mult_less_eq) linarith
    ultimately show ?thesis by (simp only:)
  qed
  then show ?thesis
    unfolding class_for_def by (metis (mono_tags, lifting) takeWhile_cong)
qed

section \<open>Requests and classes\<close>

lemma size_class_index:
  assumes "n \<le> SMALL_SIZE_MAX"
  shows "size_class n = of_nat (class_for (max 1 (unat n)))" (is ?A)
    and "unat (size_class n) = class_for (max 1 (unat n))" (is ?B)
proof -
  define m where "m = (if n = 0 then 1 else n)"
  have m: "unat m = max 1 (unat n)" "0 < unat m" "unat m \<le> 16384"
    using assms by (auto simp: m_def word_le_nat_alt unat_gt_0 Suc_le_eq max_def)
  then have "unat ((m - 1) div ALLOC_ALIGN) = (unat m - 1) div 16"
    by (simp add: unat_div unat_diff_nowrap word_le_nat_alt)
  moreover have "(unat m - 1) div 16 < 1024" using m by auto
  ultimately have "unat (sc_lookup kTable ! unat ((m - 1) div ALLOC_ALIGN)) = class_for (unat m)"
    using kTable_lookup class_for_round16 [OF m(2)] by simp
  moreover have "size_class n = ucast (sc_lookup kTable ! unat ((m - 1) div ALLOC_ALIGN))"
    using assms by (simp add: size_class_def m_def not_less [symmetric])
  ultimately show ?B
    using class_for_less(1) [OF m(3)] m(1)
    by (simp add: unsigned_ucast_eq take_bit_nat_eq_self)
  then show ?A by (metis of_nat_unat ucast_id)
qed

lemma size_class_bound: "n \<le> SMALL_SIZE_MAX \<Longrightarrow> unat (size_class n) < 36"
  using class_for_less(1) [of "max 1 (unat n)"] size_class_index(2) [of n]
  by (simp add: word_le_nat_alt)

lemma num_size_classes_value [simp]: "num_size_classes = 36"
  by (simp add: num_size_classes_def kTable_count)

lemma class_to_size_eq: "unat c < 36 \<Longrightarrow> class_to_size c = Some (class_sizes ! unat c)"
  by (simp add: class_to_size_def kTable_size nth_append length_class_sizes)

lemma class_to_size_in: "unat c < 36 \<Longrightarrow> class_to_size c = Some s \<Longrightarrow> s \<in> set class_sizes"
  by (auto simp: class_to_size_eq length_class_sizes intro!: nth_mem)

lemma size_class_round_eq:
  assumes "n \<le> SMALL_SIZE_MAX"
  shows "size_class_round n = Some (ucast (class_sizes ! class_for (max 1 (unat n))))"
  using size_class_bound [OF assms] size_class_index(2) [OF assms]
  by (simp add: size_class_round_def class_to_size_eq)

lemma unat_class_size: "unat (ucast (x :: u32) :: u64) = unat x"
  using unsigned_less [of x, where ?'a = nat]
  by (simp add: unsigned_ucast_eq take_bit_nat_eq_self)

text \<open>C28: \<open>size_class\<close> is the O(1) form of a linear search: for every small request the table
  lookup returns the number of classes too small for it, and the class it names holds the
  request while every smaller class does not.\<close>

theorem size_class_least_fit:
  assumes "n \<le> SMALL_SIZE_MAX"
  shows "size_class n < num_size_classes \<and>
    (\<exists>s. class_to_size (size_class n) = Some s \<and> n \<le> ucast s) \<and>
    (\<forall>c s. c < size_class n \<longrightarrow> class_to_size c = Some s \<longrightarrow> ucast s < n)"
proof (intro conjI allI impI)
  have m: "max 1 (unat n) \<le> 16384" using assms by (simp add: word_le_nat_alt)
  note idx = size_class_index(2) [OF assms] and b = size_class_bound [OF assms]
  show "size_class n < num_size_classes" using b by (simp add: word_less_nat_alt)
  show "\<exists>s. class_to_size (size_class n) = Some s \<and> n \<le> ucast s"
    using class_for_less(2) [OF m] b idx
    by (simp add: class_to_size_eq word_le_nat_alt unat_class_size)
  fix c s assume c: "c < size_class n" and s: "class_to_size c = Some s"
  then have lt: "unat c < class_for (max 1 (unat n))" using idx by (simp add: word_less_nat_alt)
  then have "unat (class_sizes ! unat c) < max 1 (unat n)" by (rule class_for_least)
  moreover have "16 \<le> unat (class_sizes ! unat c)" "class_sizes ! unat c = s"
    using lt b idx s class_sizes_nth [of "unat c"] by (auto simp: class_to_size_eq)
  ultimately show "ucast s < n" by (auto simp: word_less_nat_alt unat_class_size max_def split: if_splits)
qed

theorem size_class_least_fit_witness:
  "(100 :: u64) \<le> SMALL_SIZE_MAX \<and>
    (\<exists>s. class_to_size (size_class 100) = Some s \<and> (100 :: u64) \<le> ucast s)"
  using size_class_least_fit [of 100] by simp

text \<open>C32: internal fragmentation is bounded: above the dense octave the rounded size exceeds the
  request by less than a quarter of the request, within it by less than one 16-byte step.\<close>

theorem size_class_round_waste:
  assumes "0 < n" "n \<le> SMALL_SIZE_MAX" "size_class_round n = Some r"
  shows "n \<le> r \<and> (64 < unat n \<longrightarrow> 4 * (unat r - unat n) < unat n) \<and>
    (unat n \<le> 64 \<longrightarrow> unat r - unat n < 16)"
proof -
  define c where "c = class_for (unat n)"
  have n: "unat n \<le> 16384" "max 1 (unat n) = unat n"
    using assms(1,2) by (simp_all add: word_le_nat_alt word_less_nat_alt)
  have r: "unat r = unat (class_sizes ! c)"
    using assms size_class_round_eq [OF assms(2)] n by (auto simp: c_def unat_class_size)
  have c: "c < 36" "unat n \<le> unat (class_sizes ! c)"
    using class_for_less [OF n(1)] by (simp_all add: c_def)
  show ?thesis
  proof (cases c)
    case 0
    then have "unat r = 16" using r by (simp add: class_sizes_def)
    then show ?thesis using c r assms(1) by (auto simp: word_le_nat_alt word_less_nat_alt)
  next
    case (Suc d)
    then have "unat (class_sizes ! d) < unat n" using class_for_least [of d "unat n"] by (simp add: c_def)
    then show ?thesis
      using class_sizes_step [of d] c r Suc
      by (cases "unat (class_sizes ! d) < 64") (auto simp: word_le_nat_alt)
  qed
qed

theorem size_class_round_waste_witness:
  "size_class_round 129 = Some 160 \<and> (129 :: u64) \<le> 160 \<and> 4 * (unat (160 :: u64) - unat (129 :: u64)) < unat (129 :: u64)"
proof -
  have r: "size_class_round 129 = Some 160"
    by (simp add: size_class_round_eq class_for_def class_sizes_def)
  show ?thesis using r size_class_round_waste [OF _ _ r] by simp
qed

lemma size_class_of_class:
  assumes c: "unat c < 36"
  shows "size_class (ucast (class_sizes ! unat c)) = c"
proof -
  define s where "s = class_sizes ! unat c"
  have s: "16 \<le> unat s" "unat s \<le> 16384" using class_sizes_nth [OF c] by (simp_all add: s_def)
  have "class_for (unat s) = unat c"
  proof (rule antisym)
    show "class_for (unat s) \<le> unat c"
      using class_for_least [of "unat c" "unat s"] by (force simp: s_def not_less [symmetric])
    show "unat c \<le> class_for (unat s)"
      using class_for_less [OF s(2)] class_sizes_mono [of "class_for (unat s)" "unat c"] c
      by (force simp: s_def not_less [symmetric])
  qed
  then show ?thesis
    using size_class_index(2) [of "ucast s"] s
    by (simp add: word_le_nat_alt unat_class_size max_def unsigned_word_eqI s_def)
qed

text \<open>C33: classes and sizes are inverse to each other: the size of every class maps back to that
  class, it is a multiple of the 16-byte granularity, and a page holds at least four blocks.\<close>

theorem class_to_size_roundtrip:
  assumes "c < num_size_classes"
  shows "\<exists>s. class_to_size c = Some s \<and> size_class (ucast s) = c \<and> 16 dvd unat s \<and>
    16 \<le> unat s \<and> 4 \<le> unat PAGE_SIZE div unat s"
proof -
  have c: "unat c < 36" using assms by (simp add: word_less_nat_alt)
  define s where "s = class_sizes ! unat c"
  have s: "16 dvd unat s" "16 \<le> unat s" "unat s \<le> 16384"
    using class_sizes_nth [OF c] by (simp_all add: s_def)
  then have "4 \<le> unat PAGE_SIZE div unat s" by (simp add: less_eq_div_iff_mult_less_eq)
  then show ?thesis using s c size_class_of_class [OF c] by (simp add: class_to_size_eq s_def)
qed

theorem class_to_size_roundtrip_witness:
  "(8 :: u32) < num_size_classes \<and> (\<exists>s. class_to_size 8 = Some s \<and> size_class (ucast s) = 8)"
  using class_to_size_roundtrip [of 8] by auto

text \<open>C34: the small limit splits the requests exactly: those above it, and no other, get the sentinel
  class, which is no index of the table, and cannot be rounded. A larger request never gets a
  smaller class, up to and across the limit.\<close>

theorem size_class_large:
  "(size_class n = LARGE_CLASS \<longleftrightarrow> SMALL_SIZE_MAX < n) \<and> (size_class n < num_size_classes \<longleftrightarrow> n \<le> SMALL_SIZE_MAX) \<and>
   (size_class_round n = None \<longleftrightarrow> SMALL_SIZE_MAX < n) \<and> (m \<le> n \<longrightarrow> size_class m \<le> size_class n)"
proof (cases "SMALL_SIZE_MAX < n")
  case True
  then have "size_class n = LARGE_CLASS" by (simp add: size_class_def)
  moreover have "size_class m \<le> LARGE_CLASS" using unsigned_less [of "size_class m", where ?'a = nat] by (simp add: LARGE_CLASS_def word_le_nat_alt)
  ultimately show ?thesis
    using True by (simp add: LARGE_CLASS_def size_class_round_def class_to_size_def kTable_size length_class_sizes not_le)
next
  case False
  then have n: "n \<le> SMALL_SIZE_MAX" by simp
  note b = size_class_bound [OF n]
  have "size_class n \<noteq> LARGE_CLASS" using b by (auto simp: LARGE_CLASS_def)
  moreover have "size_class n < num_size_classes" using b by (simp add: word_less_nat_alt)
  moreover have "size_class m \<le> size_class n" if "m \<le> n"
  proof -
    have m: "m \<le> SMALL_SIZE_MAX" using that n by (rule order_trans)
    have "max 1 (unat m) \<le> max 1 (unat n)" using that by (simp add: word_le_nat_alt)
    then have "class_for (max 1 (unat m)) \<le> class_for (max 1 (unat n))" by (rule class_for_mono)
    then show ?thesis using size_class_index(2) [OF n] size_class_index(2) [OF m] by (simp add: word_le_nat_alt)
  qed
  ultimately show ?thesis using False n size_class_round_eq [OF n] by simp
qed

theorem size_class_large_witness:
  "size_class 16385 = LARGE_CLASS \<and> size_class 16384 \<noteq> LARGE_CLASS \<and> size_class 100 \<le> size_class 200"
  using size_class_large [of 16385 0] size_class_large [of 16384 0] size_class_large [of 200 100] by simp

end
