(* ===== verification/OS_Layer.thy ===== *)
theory OS_Layer
  imports Constants
begin

text \<open>
  The OS memory layer (src/src/os.h, src/src/os.cpp): aligned regions by over-mapping and
  trimming, their release, the purge hint and the byte accounting. The operating system is
  a parameter: a record of functions for the calls the code makes, numbered by how many
  calls have been made so that the answers may differ from call to call. What the code
  relies on is the predicate \<open>kernel_ok\<close>. The process side keeps which bytes the
  allocator has mapped and what they hold.
\<close>

section \<open>The operating system\<close>

record kernel =
  k_pagesize :: int  \<comment> \<open>what \<open>sysconf(_SC_PAGESIZE)\<close> returns\<close>
  k_mmap :: "nat \<Rightarrow> (addr \<Rightarrow> bool) \<Rightarrow> u64 \<Rightarrow> addr option"  \<comment> \<open>\<open>None\<close> is \<open>MAP_FAILED\<close>\<close>
  k_munmap :: "nat \<Rightarrow> addr \<Rightarrow> u64 \<Rightarrow> bool"  \<comment> \<open>whether the call succeeds\<close>
  k_madvise :: "nat \<Rightarrow> addr \<Rightarrow> u64 \<Rightarrow> memory \<Rightarrow> bool \<times> memory"

record OsStats =
  bytes_mapped :: u64
  peak_mapped :: u64
  map_calls :: u64
  unmap_calls :: u64

record os_state =
  mapped :: "addr \<Rightarrow> bool"
  mem :: memory
  syscalls :: nat
  g_stats :: OsStats

definition in_region :: "addr \<Rightarrow> u64 \<Rightarrow> addr \<Rightarrow> bool" where
  "in_region p n x \<longleftrightarrow> x - p < n"

section \<open>The operations\<close>

definition cached_page_size :: "kernel \<Rightarrow> u64" where
  "cached_page_size K = (let v = k_pagesize K in if 0 < v then of_int v else 4096)"

definition os_page_size :: "kernel \<Rightarrow> u64" where
  "os_page_size K = cached_page_size K"

text \<open>The peak is raised by a compare-and-swap loop; a lone caller leaves the maximum.\<close>

definition account_map :: "u64 \<Rightarrow> os_state \<Rightarrow> os_state" where
  "account_map n s =
     (let st = g_stats s; now = bytes_mapped st + n; prev = peak_mapped st
      in s\<lparr>g_stats := st\<lparr>bytes_mapped := now, peak_mapped := (if prev < now then now else prev),
                         map_calls := map_calls st + 1\<rparr>\<rparr>)"

definition account_unmap :: "u64 \<Rightarrow> os_state \<Rightarrow> os_state" where
  "account_unmap n s =
     (let st = g_stats s
      in s\<lparr>g_stats := st\<lparr>bytes_mapped := bytes_mapped st - n, unmap_calls := unmap_calls st + 1\<rparr>\<rparr>)"

definition raw_mmap :: "kernel \<Rightarrow> u64 \<Rightarrow> os_state \<Rightarrow> addr \<times> os_state" where
  "raw_mmap K n s =
     (case k_mmap K (syscalls s) (mapped s) n of
        None \<Rightarrow> (0, s\<lparr>syscalls := Suc (syscalls s)\<rparr>)
      | Some p \<Rightarrow> (p, s\<lparr>syscalls := Suc (syscalls s),
                      mapped := (\<lambda>x. mapped s x \<or> in_region p n x),
                      mem := (\<lambda>x. if in_region p n x then 0 else mem s x)\<rparr>))"

definition raw_munmap :: "kernel \<Rightarrow> addr \<Rightarrow> u64 \<Rightarrow> os_state \<Rightarrow> os_state" where
  "raw_munmap K p n s =
     (if k_munmap K (syscalls s) p n
      then s\<lparr>syscalls := Suc (syscalls s), mapped := (\<lambda>x. mapped s x \<and> \<not> in_region p n x)\<rparr>
      else s\<lparr>syscalls := Suc (syscalls s)\<rparr>)"

definition is_pow2 :: "u64 \<Rightarrow> bool" where
  "is_pow2 x \<longleftrightarrow> x \<noteq> 0 \<and> x AND (x - 1) = 0"

definition os_alloc_aligned :: "kernel \<Rightarrow> u64 \<Rightarrow> u64 \<Rightarrow> os_state \<Rightarrow> addr \<times> os_state" where
  "os_alloc_aligned K sz alignment s =
     (let ps = cached_page_size K in
      if sz = 0 \<or> alignment = 0 then (0, s)
      else if \<not> is_pow2 alignment then (0, s)
      else if sz mod ps \<noteq> 0 \<or> alignment mod ps \<noteq> 0 then (0, s)
      else if alignment \<le> ps then
        (case raw_mmap K sz s of (p, s) \<Rightarrow> (p, if p \<noteq> 0 then account_map sz s else s))
      else
        let over = sz + alignment in
        if over < sz then (0, s)
        else case raw_mmap K over s of (base, s) \<Rightarrow>
          if base = 0 then (0, s)
          else
            let aligned = (base + (alignment - 1)) AND NOT (alignment - 1);
                head = aligned - base;
                tail = over - head - sz;
                s = (if head \<noteq> 0 then raw_munmap K base head s else s);
                s = (if tail \<noteq> 0 then raw_munmap K (aligned + sz) tail s else s);
                s = account_map over s;
                s = account_unmap (head + tail) s
            in (aligned, s))"

definition os_free :: "kernel \<Rightarrow> addr \<Rightarrow> u64 \<Rightarrow> os_state \<Rightarrow> os_state" where
  "os_free K ptr sz s =
     (if ptr = 0 \<or> sz = 0 then s else account_unmap sz (raw_munmap K ptr sz s))"

text \<open>Built where \<open>MADV_FREE\<close> or \<open>MADV_DONTNEED\<close> exists.\<close>

definition os_purge :: "kernel \<Rightarrow> addr \<Rightarrow> u64 \<Rightarrow> os_state \<Rightarrow> bool \<times> os_state" where
  "os_purge K ptr sz s =
     (if ptr = 0 \<or> sz = 0 then (False, s)
      else case k_madvise K (syscalls s) ptr sz (mem s) of
        (ok, m) \<Rightarrow> (ok, s\<lparr>syscalls := Suc (syscalls s), mem := m\<rparr>))"

definition os_stats :: "os_state \<Rightarrow> OsStats" where
  "os_stats s = \<lparr>bytes_mapped = bytes_mapped (g_stats s), peak_mapped = peak_mapped (g_stats s),
     map_calls = map_calls (g_stats s), unmap_calls = unmap_calls (g_stats s)\<rparr>"

section \<open>What the code relies on\<close>

text \<open>
  Documented behaviour of the platform: the page size is a power of two of at least 4 KiB
  and at most the 4 MiB of a segment; \<open>mmap\<close> returns a non-null page-aligned region that
  overlaps no mapping and does not wrap; \<open>munmap\<close> of mapped whole pages succeeds;
  \<open>madvise\<close> touches no byte outside its range.
\<close>

definition pagesize_ok :: "kernel \<Rightarrow> bool" where
  "pagesize_ok K \<longleftrightarrow> (\<exists>k. 12 \<le> k \<and> k \<le> 22 \<and> k_pagesize K = 2 ^ k)"

definition mmap_ok :: "kernel \<Rightarrow> bool" where
  "mmap_ok K \<longleftrightarrow> (\<forall>i m n p. k_mmap K i m n = Some p \<longrightarrow>
     p \<noteq> 0 \<and> p mod cached_page_size K = 0 \<and> unat p + unat n < 2 ^ 64 \<and>
     (\<forall>x. in_region p n x \<longrightarrow> \<not> m x))"

definition munmap_ok :: "kernel \<Rightarrow> bool" where
  "munmap_ok K \<longleftrightarrow> (\<forall>i p n. p mod cached_page_size K = 0 \<longrightarrow> n mod cached_page_size K = 0 \<longrightarrow>
     0 < n \<longrightarrow> k_munmap K i p n)"

definition madvise_ok :: "kernel \<Rightarrow> bool" where
  "madvise_ok K \<longleftrightarrow> (\<forall>i p n m x. \<not> in_region p n x \<longrightarrow> snd (k_madvise K i p n m) x = m x)"

definition kernel_ok :: "kernel \<Rightarrow> bool" where
  "kernel_ok K \<longleftrightarrow> pagesize_ok K \<and> mmap_ok K \<and> munmap_ok K \<and> madvise_ok K"

section \<open>Regions of the address space\<close>

lemma in_region_iff:
  assumes "unat p + unat n < 2 ^ 64"
  shows "in_region p n x \<longleftrightarrow> unat p \<le> unat x \<and> unat x < unat p + unat n"
proof (cases "p \<le> x")
  case True
  then show ?thesis
    by (auto simp: in_region_def word_less_nat_alt word_le_nat_alt unat_diff_nowrap)
next
  case False
  then have "\<not> unat p \<le> unat x" by (simp add: word_le_nat_alt)
  moreover have "unat (x - p) = 2 ^ 64 + unat x - unat p"
    using calculation unat_less_2_64 [of p] by (simp add: unat_sub_if')
  ultimately show ?thesis
    using assms unat_less_2_64 [of p] by (auto simp: in_region_def word_less_nat_alt)
qed

lemma in_region_split:
  assumes "unat p + (unat a + unat b) < 2 ^ 64"
  shows "in_region p (a + b) x \<longleftrightarrow> in_region p a x \<or> in_region (p + a) b x"
proof -
  have "unat (a + b) = unat a + unat b" "unat (p + a) = unat p + unat a"
    using assms by (simp_all add: unat_add_nowrap)
  then show ?thesis
    using assms in_region_iff [of p "a + b"] in_region_iff [of p a] in_region_iff [of "p + a" b]
    by auto
qed

lemma in_region_disjoint:
  assumes "unat p + (unat a + unat b) < 2 ^ 64" "in_region p a x" "in_region (p + a) b x"
  shows False
proof -
  have "unat (p + a) = unat p + unat a" using assms(1) by (simp add: unat_add_nowrap)
  then show False
    using assms in_region_iff [of p a x] in_region_iff [of "p + a" b x] by auto
qed

lemma card_region:
  assumes "unat p + unat n < 2 ^ 64"
  shows "card {x. in_region p n x} = unat n"
proof -
  have "{x. in_region p n x} = (\<lambda>k. p + of_nat k) ` {..< unat n}"
  proof (intro equalityI subsetI)
    fix x assume "x \<in> {x. in_region p n x}"
    then have "unat (x - p) < unat n" by (simp add: in_region_def word_less_nat_alt)
    moreover have "x = p + of_nat (unat (x - p))" by simp
    ultimately show "x \<in> (\<lambda>k. p + of_nat k) ` {..< unat n}" by blast
  next
    fix x assume "x \<in> (\<lambda>k. p + of_nat k) ` {..< unat n}"
    then obtain k where k: "k < unat n" "x = p + of_nat k" by blast
    then have "unat (of_nat k :: u64) = k"
      using unat_less_2_64 [of n] by (simp add: unat_of_nat_u64)
    then show "x \<in> {x. in_region p n x}"
      using k by (simp add: in_region_def word_less_nat_alt)
  qed
  moreover have "inj_on (\<lambda>k. p + of_nat k) {..< unat n}"
  proof (rule inj_onI)
    fix i j assume "i \<in> {..< unat n}" "j \<in> {..< unat n}" "p + of_nat i = p + of_nat j"
    then have "unat (of_nat i :: u64) = unat (of_nat j :: u64)" "i < unat n" "j < unat n" by auto
    then show "i = j" using unat_less_2_64 [of n] by (simp add: unat_of_nat_u64)
  qed
  ultimately show ?thesis by (simp add: card_image)
qed

section \<open>Page size and powers of two\<close>

lemma is_pow2_iff: "is_pow2 x \<longleftrightarrow> (\<exists>k < 64. x = 2 ^ k)"
  unfolding is_pow2_def by (rule word_pow2_iff)

lemma page_size_power:
  assumes "pagesize_ok K"
  obtains k where "12 \<le> k" "k \<le> 22" "cached_page_size K = 2 ^ k" "unat (cached_page_size K) = 2 ^ k"
proof -
  from assms obtain k where k: "12 \<le> k" "k \<le> 22" "k_pagesize K = 2 ^ k"
    by (auto simp: pagesize_ok_def)
  then have "cached_page_size K = 2 ^ k" by (simp add: cached_page_size_def)
  moreover have "unat (2 ^ k :: u64) = 2 ^ k" using k by (simp add: unat_exp_u64)
  ultimately show ?thesis using k that by simp
qed

lemma word_mod_eq_0_iff: "(a :: u64) mod b = 0 \<longleftrightarrow> unat b dvd unat a"
  by (metis dvd_eq_mod_eq_0 unat_eq_zero unat_mod)

text \<open>Among powers of two, the larger one is a multiple of the smaller.\<close>

lemma pow2_dvd: "(2 :: nat) ^ j \<le> 2 ^ k \<Longrightarrow> (2 :: nat) ^ j dvd 2 ^ k"
  by (rule le_imp_power_dvd) simp

section \<open>Over-mapping and trimming\<close>

text \<open>The address arithmetic of the general path: the aligned block lies inside the over-mapped
  one, what is cut off is whole pages, and the pieces add up.\<close>

lemma trim_arith:
  fixes base sz :: u64
  assumes k: "k < 64" and ov: "\<not> sz + 2 ^ k < sz" and b: "unat base + unat (sz + 2 ^ k) < 2 ^ 64"
  defines "al \<equiv> (base + (2 ^ k - 1)) AND NOT (2 ^ k - 1)"
  shows "unat (sz + 2 ^ k) = unat sz + 2 ^ k" "2 ^ k dvd unat al"
    "unat base \<le> unat al" "unat al < unat base + 2 ^ k"
    "unat (al - base) = unat al - unat base"
    "unat (sz + 2 ^ k - (al - base) - sz) = 2 ^ k - (unat al - unat base)"
proof -
  have p: "unat (2 ^ k :: u64) = 2 ^ k" using k by (rule unat_exp_u64)
  have "unat sz + 2 ^ k < 2 ^ 64" using ov p by (simp add: unat_add_less_iff)
  then show over: "unat (sz + 2 ^ k) = unat sz + 2 ^ k" by (simp add: unat_add_nowrap p)
  with b have "unat base + (2 ^ k - 1) < 2 ^ 64" by simp
  then have al: "unat al = nat_round_up (unat base) (2 ^ k)"
    unfolding al_def by (rule unat_align_up [OF k])
  show "2 ^ k dvd unat al" unfolding al by (rule nat_round_up_dvd)
  show ge: "unat base \<le> unat al" unfolding al by (rule nat_round_up_ge) simp
  show lt: "unat al < unat base + 2 ^ k" unfolding al by (rule nat_round_up_less) simp
  show head: "unat (al - base) = unat al - unat base"
    using ge by (simp add: unat_diff_nowrap word_le_nat_alt)
  have "sz + 2 ^ k - (al - base) - sz = 2 ^ k - (al - base)" by simp
  moreover have "al - base \<le> 2 ^ k" using lt ge head p by (simp add: word_le_nat_alt)
  ultimately show "unat (sz + 2 ^ k - (al - base) - sz) = 2 ^ k - (unat al - unat base)"
    by (simp only: unat_diff_nowrap head p)
qed

text \<open>What a successful allocation promises.\<close>

definition os_granted :: "u64 \<Rightarrow> u64 \<Rightarrow> os_state \<Rightarrow> addr \<Rightarrow> os_state \<Rightarrow> bool" where
  "os_granted sz al s p s' \<longleftrightarrow>
     p \<noteq> 0 \<and> unat al dvd unat p \<and> unat p + unat sz < 2 ^ 64 \<and>
     mapped s' = (\<lambda>x. mapped s x \<or> in_region p sz x) \<and>
     (\<forall>x. in_region p sz x \<longrightarrow> \<not> mapped s x \<and> mem s' x = 0) \<and>
     (\<forall>x. mapped s x \<longrightarrow> mem s' x = mem s x) \<and>
     bytes_mapped (g_stats s') = bytes_mapped (g_stats s) + sz \<and>
     peak_mapped (g_stats s) \<le> peak_mapped (g_stats s') \<and>
     map_calls (g_stats s') = map_calls (g_stats s) + 1"

definition os_refused :: "os_state \<Rightarrow> os_state \<Rightarrow> bool" where
  "os_refused s s' \<longleftrightarrow> mapped s' = mapped s \<and> mem s' = mem s \<and> g_stats s' = g_stats s"

text \<open>The arguments \<open>os_alloc_aligned\<close> accepts.\<close>

definition os_valid_request :: "kernel \<Rightarrow> u64 \<Rightarrow> u64 \<Rightarrow> bool" where
  "os_valid_request K sz al \<longleftrightarrow> sz \<noteq> 0 \<and> is_pow2 al \<and>
     unat (cached_page_size K) dvd unat sz \<and> unat (cached_page_size K) dvd unat al"

lemma os_alloc_invalid:
  "\<not> os_valid_request K sz al \<Longrightarrow> os_alloc_aligned K sz al s = (0, s)"
  by (auto simp: os_valid_request_def os_alloc_aligned_def word_mod_eq_0_iff Let_def)

lemma raw_mmap_cases:
  assumes "mmap_ok K" "raw_mmap K n s = (p, s')"
  obtains (failed) "p = 0" "os_refused s s'"
  | (ok) "p \<noteq> 0" "unat (cached_page_size K) dvd unat p" "unat p + unat n < 2 ^ 64"
      "\<And>x. in_region p n x \<Longrightarrow> \<not> mapped s x"
      "s' = s\<lparr>syscalls := Suc (syscalls s), mapped := (\<lambda>x. mapped s x \<or> in_region p n x),
               mem := (\<lambda>x. if in_region p n x then 0 else mem s x)\<rparr>"
proof (cases "k_mmap K (syscalls s) (mapped s) n")
  case None
  then show ?thesis using assms failed by (auto simp: raw_mmap_def os_refused_def)
next
  case (Some q)
  then have "q \<noteq> 0" "q mod cached_page_size K = 0" "unat q + unat n < 2 ^ 64"
    "\<And>x. in_region q n x \<Longrightarrow> \<not> mapped s x"
    using assms(1) unfolding mmap_ok_def by blast+
  moreover have "p = q" using Some assms(2) by (simp add: raw_mmap_def)
  ultimately show ?thesis
    using Some assms(2) ok by (auto simp: raw_mmap_def word_mod_eq_0_iff)
qed

lemma raw_munmap_ok:
  assumes "munmap_ok K" "unat (cached_page_size K) dvd unat p" "unat (cached_page_size K) dvd unat n"
    "n \<noteq> 0"
  shows "raw_munmap K p n s = s\<lparr>syscalls := Suc (syscalls s),
     mapped := (\<lambda>x. mapped s x \<and> \<not> in_region p n x)\<rparr>"
  using assms by (simp add: munmap_ok_def raw_munmap_def word_mod_eq_0_iff word_gt_0)

lemma os_alloc_fast_eq:
  assumes "os_valid_request K sz al" "al \<le> cached_page_size K"
  shows "os_alloc_aligned K sz al s =
    (case raw_mmap K sz s of (p, s) \<Rightarrow> (p, if p \<noteq> 0 then account_map sz s else s))"
proof -
  have "sz \<noteq> 0" "al \<noteq> 0" "is_pow2 al" "sz mod cached_page_size K = 0" "al mod cached_page_size K = 0"
    using assms(1) by (auto simp: os_valid_request_def is_pow2_def word_mod_eq_0_iff)
  with assms(2) show ?thesis unfolding os_alloc_aligned_def by (simp add: Let_def)
qed

text \<open>The trimming of the general path, from the over-mapped state on.\<close>

definition os_trim :: "kernel \<Rightarrow> u64 \<Rightarrow> u64 \<Rightarrow> addr \<Rightarrow> os_state \<Rightarrow> addr \<times> os_state" where
  "os_trim K sz al base s =
     (let aligned = (base + (al - 1)) AND NOT (al - 1);
          head = aligned - base;
          tail = sz + al - head - sz;
          s = (if head \<noteq> 0 then raw_munmap K base head s else s);
          s = (if tail \<noteq> 0 then raw_munmap K (aligned + sz) tail s else s)
      in (aligned, account_unmap (head + tail) (account_map (sz + al) s)))"

lemma os_alloc_general_eq:
  assumes "os_valid_request K sz al" "cached_page_size K < al"
  shows "os_alloc_aligned K sz al s =
    (if sz + al < sz then (0, s)
     else case raw_mmap K (sz + al) s of (base, s) \<Rightarrow>
       if base = 0 then (0, s) else os_trim K sz al base s)"
proof -
  have "sz \<noteq> 0" "al \<noteq> 0" "is_pow2 al" "sz mod cached_page_size K = 0" "al mod cached_page_size K = 0"
    "\<not> al \<le> cached_page_size K"
    using assms by (auto simp: os_valid_request_def is_pow2_def word_mod_eq_0_iff)
  then show ?thesis unfolding os_alloc_aligned_def os_trim_def Let_def by simp
qed

lemma os_alloc_fast:
  assumes "mmap_ok K" "os_valid_request K sz al" "al \<le> cached_page_size K"
    "is_pow2 (cached_page_size K)" "os_alloc_aligned K sz al s = (p, s')"
  shows "if p = 0 then os_refused s s' else os_granted sz al s p s'"
proof -
  obtain q u where m: "raw_mmap K sz s = (q, u)" by fastforce
  with assms have p: "p = q" and s': "s' = (if q \<noteq> 0 then account_map sz u else u)"
    by (auto simp: os_alloc_fast_eq)
  have al: "unat al dvd unat (cached_page_size K)"
    using assms(2-4) by (auto simp: os_valid_request_def is_pow2_iff word_le_nat_alt unat_exp_u64
        intro!: pow2_dvd)
  from assms(1) m show ?thesis
  proof (cases rule: raw_mmap_cases)
    case ok
    then have "unat al dvd unat q" using al by (meson dvd_trans)
    with ok show ?thesis by (auto simp: p s' os_granted_def account_map_def Let_def)
  qed (simp add: p s')
qed

lemma raw_munmap_if:
  fixes s :: os_state
  assumes "munmap_ok K" "unat (cached_page_size K) dvd unat p" "unat (cached_page_size K) dvd unat n"
  defines "s' \<equiv> (if n \<noteq> 0 then raw_munmap K p n s else s)"
  shows "mapped s' = (\<lambda>x. mapped s x \<and> \<not> in_region p n x)" "mem s' = mem s" "g_stats s' = g_stats s"
  using raw_munmap_ok [OF assms(1-3)] by (auto simp: s'_def in_region_def)

lemma os_trim_granted:
  assumes K: "munmap_ok K" and v: "os_valid_request K sz al" and ov: "\<not> sz + al < sz"
    and b: "base \<noteq> 0" "unat (cached_page_size K) dvd unat base" "unat base + unat (sz + al) < 2 ^ 64"
    and fresh: "\<And>x. in_region base (sz + al) x \<Longrightarrow> \<not> mapped s x"
    and u: "u = s\<lparr>syscalls := Suc (syscalls s), mapped := (\<lambda>x. mapped s x \<or> in_region base (sz + al) x),
               mem := (\<lambda>x. if in_region base (sz + al) x then 0 else mem s x)\<rparr>"
    and e: "os_trim K sz al base u = (p, s')"
  shows "os_granted sz al s p s'"
proof -
  obtain k where k: "k < 64" "al = 2 ^ k" using v by (auto simp: os_valid_request_def is_pow2_iff)
  define ad where "ad = (base + (al - 1)) AND NOT (al - 1)"
  define head where "head = ad - base"
  define tail where "tail = sz + al - head - sz"
  note t = trim_arith [OF k(1) ov [unfolded k(2)] b(3) [unfolded k(2)], folded k(2),
      folded ad_def, folded head_def, folded tail_def]
  have al: "unat al = 2 ^ k" using k by (simp add: unat_exp_u64)
  have ad: "ad = base + head" by (simp add: head_def)
  have sum: "sz + al = head + (sz + tail)" by (simp add: tail_def)
  have fits: "unat base + (unat head + (unat sz + unat tail)) < 2 ^ 64" using t b(3) by simp
  have pg: "unat (cached_page_size K) dvd unat ad" "unat (cached_page_size K) dvd unat sz"
    using v t(2) al by (auto simp: os_valid_request_def intro: dvd_trans)
  then have hd: "unat (cached_page_size K) dvd unat head" using t(5) b(2) by (simp add: dvd_diff_nat)
  then have tl: "unat (cached_page_size K) dvd unat tail"
    using t(5,6) v al by (simp add: os_valid_request_def dvd_diff_nat)
  have "unat (ad + sz) = unat ad + unat sz" using fits t by (simp add: unat_add_nowrap)
  then have adsz: "unat (cached_page_size K) dvd unat (ad + sz)" using pg by simp
  have reg: "in_region base (sz + al) x \<longleftrightarrow>
      in_region base head x \<or> in_region ad sz x \<or> in_region (ad + sz) tail x" for x
    unfolding sum ad using fits in_region_split [of base head "sz + tail"]
      in_region_split [of "base + head" sz tail]
    by (simp add: unat_add_nowrap)
  have apart: "\<not> in_region base head x" "\<not> in_region (ad + sz) tail x" if "in_region ad sz x" for x
    using that fits in_region_disjoint [of base head sz x] in_region_disjoint [of ad sz tail x]
    by (auto simp: ad unat_add_nowrap)
  have ad0: "ad \<noteq> 0" using t(3) b(1) by (auto simp: unat_eq_zero [symmetric] simp del: unat_eq_zero)
  define u1 where "u1 = (if head \<noteq> 0 then raw_munmap K base head u else u)"
  define u2 where "u2 = (if tail \<noteq> 0 then raw_munmap K (ad + sz) tail u1 else u1)"
  have "(p, s') = (ad, account_unmap (head + tail) (account_map (sz + al) u2))"
    using e unfolding os_trim_def Let_def u2_def u1_def tail_def head_def ad_def by (rule sym)
  then have p: "p = ad" and s': "s' = account_unmap (head + tail) (account_map (sz + al) u2)"
    by simp_all
  note m1 = raw_munmap_if [OF K b(2) hd, of u, folded u1_def]
  note m2 = raw_munmap_if [OF K adsz tl, of u1, folded u2_def]
  have m: "mapped u2 = (\<lambda>x. mapped s x \<or> in_region ad sz x)"
    unfolding m2 m1 using fresh apart by (auto simp: u reg fun_eq_iff)
  have mm: "mem u2 = (\<lambda>x. if in_region base (sz + al) x then 0 else mem s x)"
    "g_stats u2 = g_stats s"
    unfolding m2 m1 by (simp_all add: u)
  have "unat ad + unat sz < 2 ^ 64" using fits t by simp
  then show ?thesis
    unfolding os_granted_def p s' using ad0 t(2) al m mm fresh
    by (auto simp: account_map_def account_unmap_def Let_def reg tail_def)
qed

text \<open>The contract of \<open>os_alloc_aligned\<close>, on every path.\<close>

lemma os_alloc_contract:
  assumes K: "kernel_ok K" and e: "os_alloc_aligned K sz al s = (p, s')"
  shows "if p = 0 then os_refused s s' else os_valid_request K sz al \<and> os_granted sz al s p s'"
proof (cases "os_valid_request K sz al")
  case False
  then show ?thesis using e by (simp add: os_alloc_invalid os_refused_def)
next
  case v: True
  have ok: "pagesize_ok K" "mmap_ok K" "munmap_ok K" using K by (simp_all add: kernel_ok_def)
  show ?thesis
  proof (cases "al \<le> cached_page_size K")
    case True
    obtain k where "k \<le> 22" "cached_page_size K = 2 ^ k" by (rule page_size_power [OF ok(1)])
    then have "is_pow2 (cached_page_size K)" by (auto simp: is_pow2_iff intro!: exI [of _ k])
    from os_alloc_fast [OF ok(2) v True this e] v show ?thesis by simp
  next
    case False
    obtain base u where m: "raw_mmap K (sz + al) s = (base, u)" by fastforce
    have "cached_page_size K < al" using False by simp
    then have e': "(p, s') = (if sz + al < sz then (0, s) else
        if base = 0 then (0, u) else os_trim K sz al base u)"
      using e [symmetric] unfolding os_alloc_general_eq [OF v \<open>cached_page_size K < al\<close>] m prod.case by simp
    from ok(2) m show ?thesis
    proof (cases rule: raw_mmap_cases)
      case failed
      then show ?thesis using e' by (auto simp: os_refused_def split: if_splits)
    next
      case ok': ok
      have "os_granted sz al s p s'" if "\<not> sz + al < sz"
        by (rule os_trim_granted [OF ok(3) v that ok'(1-3) ok'(4) ok'(5)]) (use e' that ok'(1) in auto)
      then show ?thesis
        using e' v by (cases "sz + al < sz") (auto simp: os_refused_def os_granted_def)
    qed
  qed
qed

section \<open>Sources of regions\<close>

text \<open>
  The interface the upper layers use: a source hands out regions disjoint from everything it
  has out, zero-filled, and takes them back; what it charges follows. \<open>tracked\<close> says that a
  list of live regions accounts for all of it. The laws are discharged for
  \<open>os_alloc_aligned\<close> and \<open>os_free\<close> below.
\<close>

definition region_set :: "addr \<times> u64 \<Rightarrow> addr set" where
  "region_set r = {x. in_region (fst r) (snd r) x}"

definition regions_ok :: "(addr \<times> u64) list \<Rightarrow> bool" where
  "regions_ok live \<longleftrightarrow> distinct live \<and>
     (\<forall>r \<in> set live. fst r \<noteq> 0 \<and> snd r \<noteq> 0 \<and> unat (fst r) + unat (snd r) < 2 ^ 64) \<and>
     (\<forall>r \<in> set live. \<forall>q \<in> set live. r \<noteq> q \<longrightarrow> region_set r \<inter> region_set q = {})"

definition regions_bytes :: "(addr \<times> u64) list \<Rightarrow> nat" where
  "regions_bytes live = sum_list (map (\<lambda>r. unat (snd r)) live)"

lemma region_set_nonempty: "n \<noteq> 0 \<Longrightarrow> p \<in> region_set (p, n)"
  by (simp add: region_set_def in_region_def word_gt_0)

lemma zero_notin_region: "p \<noteq> 0 \<Longrightarrow> unat p + unat n < 2 ^ 64 \<Longrightarrow> 0 \<notin> region_set (p, n)"
  by (simp add: region_set_def in_region_iff unat_gt_0)

lemma card_region_set: "unat p + unat n < 2 ^ 64 \<Longrightarrow> card (region_set (p, n)) = unat n"
  by (simp add: region_set_def card_region)

lemma regions_ok_card:
  "regions_ok live \<Longrightarrow> card (\<Union> (region_set ` set live)) = regions_bytes live"
proof (induction live)
  case (Cons r live)
  then have ok: "regions_ok live" by (auto simp: regions_ok_def)
  have "region_set r \<inter> \<Union> (region_set ` set live) = {}"
    using Cons.prems by (fastforce simp: regions_ok_def)
  moreover have "card (region_set r) = unat (snd r)"
    using Cons.prems card_region_set [of "fst r" "snd r"] by (simp add: regions_ok_def)
  ultimately show ?case
    using Cons.IH [OF ok] by (simp add: card_Un_disjoint regions_bytes_def)
qed (simp add: regions_bytes_def)

text \<open>Live regions never hold address 0, so their sizes add up without wrapping.\<close>

lemma regions_bytes_less:
  assumes "regions_ok live"
  shows "regions_bytes live < 2 ^ 64"
proof -
  have "0 \<notin> \<Union> (region_set ` set live)"
    using assms zero_notin_region by (auto simp: regions_ok_def region_set_def)
  then have "card (\<Union> (region_set ` set live)) < card (UNIV :: addr set)"
    by (intro psubset_card_mono) auto
  then show ?thesis by (simp add: regions_ok_card [OF assms] card_word)
qed

locale region_source =
  fixes alloc :: "u64 \<Rightarrow> u64 \<Rightarrow> 's \<Rightarrow> addr \<times> 's"
    and release :: "addr \<Rightarrow> u64 \<Rightarrow> 's \<Rightarrow> 's"
    and owned :: "'s \<Rightarrow> addr set"
    and charged :: "'s \<Rightarrow> u64"
    and granule :: "addr \<Rightarrow> u64 \<Rightarrow> bool"
    and invar :: "'s \<Rightarrow> bool"
  assumes alloc_granted: "invar s \<Longrightarrow> alloc n a s = (p, s') \<Longrightarrow> p \<noteq> 0 \<Longrightarrow>
      invar s' \<and> n \<noteq> 0 \<and> granule p n \<and> unat p + unat n < 2 ^ 64 \<and>
      owned s' = owned s \<union> region_set (p, n) \<and> owned s \<inter> region_set (p, n) = {} \<and>
      charged s' = charged s + n"
    and alloc_refused: "invar s \<Longrightarrow> alloc n a s = (0, s') \<Longrightarrow>
      invar s' \<and> owned s' = owned s \<and> charged s' = charged s"
    and released: "invar s \<Longrightarrow> p \<noteq> 0 \<Longrightarrow> n \<noteq> 0 \<Longrightarrow> granule p n \<Longrightarrow>
      invar (release p n s) \<and> owned (release p n s) = owned s - region_set (p, n) \<and>
      charged (release p n s) = charged s - n"
begin

definition tracked :: "'s \<Rightarrow> (addr \<times> u64) list \<Rightarrow> bool" where
  "tracked s live \<longleftrightarrow> invar s \<and> regions_ok live \<and> (\<forall>r \<in> set live. granule (fst r) (snd r)) \<and>
     owned s = \<Union> (region_set ` set live) \<and> unat (charged s) = regions_bytes live"

lemma tracked_alloc:
  assumes t: "tracked s live" and a: "alloc n a s = (p, s')" "p \<noteq> 0"
  shows "tracked s' ((p, n) # live)"
proof -
  have s: "invar s" and own: "owned s = \<Union> (region_set ` set live)" and ok: "regions_ok live"
    using t by (simp_all add: tracked_def)
  note g = alloc_granted [OF s a]
  have dis: "region_set r \<inter> region_set (p, n) = {}" if "r \<in> set live" for r
    using g own that by blast
  then have "(p, n) \<notin> set live" using region_set_nonempty [of n p] g by blast
  then have ok': "regions_ok ((p, n) # live)"
    using ok g a(2) dis by (auto simp: regions_ok_def)
  have "regions_bytes ((p, n) # live) = unat (charged s) + unat n"
    using t by (simp add: tracked_def regions_bytes_def)
  moreover have "\<dots> < 2 ^ 64" using regions_bytes_less [OF ok'] calculation by simp
  ultimately have "unat (charged s') = regions_bytes ((p, n) # live)"
    using g by (simp add: unat_add_nowrap)
  with ok' g own t show ?thesis by (auto simp: tracked_def)
qed

lemma tracked_refused: "tracked s live \<Longrightarrow> alloc n a s = (0, s') \<Longrightarrow> tracked s' live"
  using alloc_refused by (auto simp: tracked_def)

lemma tracked_release:
  assumes t: "tracked s live" and r: "(p, n) \<in> set live"
  shows "tracked (release p n s) (remove1 (p, n) live)"
proof -
  have s: "invar s" and own: "owned s = \<Union> (region_set ` set live)" and ok: "regions_ok live"
    using t by (simp_all add: tracked_def)
  have pn: "p \<noteq> 0" "n \<noteq> 0" "granule p n" using t r by (force simp: tracked_def regions_ok_def)+
  note g = released [OF s pn]
  have set: "set (remove1 (p, n) live) = set live - {(p, n)}"
    using ok by (simp add: regions_ok_def set_remove1_eq)
  have ok': "regions_ok (remove1 (p, n) live)"
    using ok by (auto simp: regions_ok_def set)
  let ?rest = "\<Union> (region_set ` (set live - {(p, n)}))"
  have "\<forall>q \<in> set live - {(p, n)}. region_set q \<inter> region_set (p, n) = {}"
    using ok r unfolding regions_ok_def by blast
  then have "region_set (p, n) \<inter> ?rest = {}" by auto
  moreover have "\<Union> (region_set ` set live) = region_set (p, n) \<union> ?rest"
    using insert_Diff [OF r] by (metis UN_insert)
  ultimately have "owned (release p n s) = \<Union> (region_set ` set (remove1 (p, n) live))"
    using g own unfolding set by (simp add: Un_Diff Diff_triv inf_commute)
  moreover have "regions_bytes live = regions_bytes (remove1 (p, n) live) + unat n"
    using r unfolding regions_bytes_def by (simp add: sum_list_map_remove1 [OF r])
  then have "unat (charged (release p n s)) = regions_bytes (remove1 (p, n) live)"
    using g t by (simp add: tracked_def unat_diff_nowrap word_le_nat_alt)
  ultimately show ?thesis using g ok' t set by (auto simp: tracked_def)
qed

end

lemma os_free_contract:
  assumes "kernel_ok K" "p \<noteq> 0" "n \<noteq> 0" "unat (cached_page_size K) dvd unat p"
    "unat (cached_page_size K) dvd unat n"
  shows "mapped (os_free K p n s) = (\<lambda>x. mapped s x \<and> \<not> in_region p n x)"
    "mem (os_free K p n s) = mem s"
    "bytes_mapped (g_stats (os_free K p n s)) = bytes_mapped (g_stats s) - n"
    "peak_mapped (g_stats (os_free K p n s)) = peak_mapped (g_stats s)"
  using assms by (simp_all add: os_free_def kernel_ok_def raw_munmap_ok account_unmap_def Let_def)

definition page_granular :: "kernel \<Rightarrow> addr \<Rightarrow> u64 \<Rightarrow> bool" where
  "page_granular K p n \<longleftrightarrow>
     unat (cached_page_size K) dvd unat p \<and> unat (cached_page_size K) dvd unat n"

interpretation osl: region_source "os_alloc_aligned K" "os_free K" "\<lambda>s. {x. mapped s x}"
  "\<lambda>s. bytes_mapped (g_stats s)" "page_granular K" "\<lambda>_. kernel_ok K" for K
proof (unfold_locales, goal_cases)
  case (1 s n a p s')
  then have v: "os_valid_request K n a" and g: "os_granted n a s p s'"
    using os_alloc_contract [OF 1(1,2)] by simp_all
  have "unat a dvd unat p" using g by (simp add: os_granted_def)
  then have "page_granular K p n"
    using v by (auto simp: page_granular_def os_valid_request_def intro: dvd_trans)
  with 1 v g show ?case
    by (auto simp: os_valid_request_def os_granted_def region_set_def)
next
  case (2 s n a s')
  then show ?case using os_alloc_contract [OF 2(1,2)] by (simp add: os_refused_def)
next
  case (3 s p n)
  then show ?case
    by (auto simp: os_free_contract page_granular_def region_set_def)
qed

section \<open>Holding a set of regions\<close>

text \<open>The layers above only need to know which regions are held, not in which order they came.\<close>

definition os_holds :: "kernel \<Rightarrow> os_state \<Rightarrow> (addr \<times> u64) set \<Rightarrow> bool" where
  "os_holds K s R \<longleftrightarrow> (\<exists>live. osl.tracked K s live \<and> set live = R)"

lemma os_holds_kernel: "os_holds K s R \<Longrightarrow> kernel_ok K"
  unfolding os_holds_def osl.tracked_def by blast

lemma os_holds_region:
  assumes "os_holds K s R" "(p, n) \<in> R"
  shows "p \<noteq> 0" "n \<noteq> 0" "unat p + unat n < 2 ^ 64" "x \<in> region_set (p, n) \<Longrightarrow> mapped s x"
  using assms unfolding os_holds_def osl.tracked_def regions_ok_def by fastforce+

lemma os_holds_disjoint:
  assumes "os_holds K s R" "r \<in> R" "q \<in> R" "r \<noteq> q"
  shows "region_set r \<inter> region_set q = {}"
  using assms unfolding os_holds_def osl.tracked_def regions_ok_def by blast

lemma os_holds_base_neq:
  assumes "os_holds K s R" "(p, n) \<in> R" "(q, m) \<in> R" "(p, n) \<noteq> (q, m)"
  shows "p \<noteq> q"
proof
  assume "p = q"
  then have "p \<in> region_set (p, n) \<inter> region_set (q, m)"
    using region_set_nonempty os_holds_region(2) [OF assms(1)] assms(2,3) by blast
  then show False using os_holds_disjoint [OF assms] by blast
qed

lemma os_holds_finite: "os_holds K s R \<Longrightarrow> finite R"
  by (auto simp: os_holds_def)

lemma os_holds_alloc:
  assumes "os_holds K s R" "os_alloc_aligned K n a s = (p, s')" "p \<noteq> 0"
  shows "os_holds K s' (insert (p, n) R)" "unat a dvd unat p" "n \<noteq> 0"
    "\<And>r x. r \<in> R \<Longrightarrow> x \<in> region_set r \<Longrightarrow> x \<notin> region_set (p, n) \<and> mem s' x = mem s x"
    "\<And>x. x \<in> region_set (p, n) \<Longrightarrow> mem s' x = 0"
proof -
  obtain live where live: "osl.tracked K s live" "set live = R" using assms(1) by (auto simp: os_holds_def)
  show h: "os_holds K s' (insert (p, n) R)"
    using osl.tracked_alloc [OF live(1) assms(2,3)] live(2) unfolding os_holds_def by fastforce
  have g: "os_valid_request K n a" "os_granted n a s p s'"
    using os_alloc_contract [OF os_holds_kernel [OF assms(1)] assms(2)] assms(3) by simp_all
  show "unat a dvd unat p" "n \<noteq> 0" using g by (simp_all add: os_granted_def os_valid_request_def)
  show "mem s' x = 0" if "x \<in> region_set (p, n)" for x
    using g(2) that by (simp add: os_granted_def region_set_def)
  show "x \<notin> region_set (p, n) \<and> mem s' x = mem s x" if "r \<in> R" "x \<in> region_set r" for r x
  proof -
    have "mapped s x" using os_holds_region(4) [OF assms(1), of "fst r" "snd r"] that by simp
    then show ?thesis using g(2) by (auto simp: os_granted_def region_set_def)
  qed
qed

lemma os_holds_refused:
  assumes "os_holds K s R" "os_alloc_aligned K n a s = (0, s')"
  shows "os_holds K s' R" "mem s' = mem s"
proof -
  show "os_holds K s' R" using assms osl.tracked_refused unfolding os_holds_def by metis
  show "mem s' = mem s"
    using os_alloc_contract [OF os_holds_kernel [OF assms(1)] assms(2)] by (simp add: os_refused_def)
qed

lemma os_holds_free:
  assumes "os_holds K s R" "(p, n) \<in> R"
  shows "os_holds K (os_free K p n s) (R - {(p, n)})" "mem (os_free K p n s) = mem s"
proof -
  obtain live where live: "osl.tracked K s live" "set live = R" using assms(1) by (auto simp: os_holds_def)
  have "distinct live" using live(1) unfolding osl.tracked_def regions_ok_def by blast
  then have "set (remove1 (p, n) live) = R - {(p, n)}" using live(2) by simp
  then show "os_holds K (os_free K p n s) (R - {(p, n)})"
    using osl.tracked_release [OF live(1)] assms(2) live(2) unfolding os_holds_def by metis
  show "mem (os_free K p n s) = mem s"
    by (simp add: os_free_def account_unmap_def raw_munmap_def Let_def)
qed

lemma os_holds_unmap:
  assumes "os_holds K s R" "(p, n) \<in> R"
  shows "mapped (os_free K p n s) x \<longleftrightarrow> mapped s x \<and> x \<notin> region_set (p, n)"
    "bytes_mapped (g_stats (os_free K p n s)) = bytes_mapped (g_stats s) - n"
proof -
  obtain live where live: "osl.tracked K s live" "set live = R" using assms(1) by (auto simp: os_holds_def)
  then have "page_granular K p n" using assms(2) unfolding osl.tracked_def by fastforce
  then have g: "unat (cached_page_size K) dvd unat p" "unat (cached_page_size K) dvd unat n" by (simp_all add: page_granular_def)
  note c = os_free_contract [OF os_holds_kernel [OF assms(1)] os_holds_region(1,2) [OF assms] g, of s]
  show "mapped (os_free K p n s) x \<longleftrightarrow> mapped s x \<and> x \<notin> region_set (p, n)" unfolding c(1) by (simp add: region_set_def)
  show "bytes_mapped (g_stats (os_free K p n s)) = bytes_mapped (g_stats s) - n" by (rule c(3))
qed

lemma os_free_mapped: "mapped (os_free K p n s) x \<Longrightarrow> mapped s x"
  by (auto simp: os_free_def account_unmap_def raw_munmap_def Let_def split: if_splits)

lemma os_holds_mem: "os_holds K (s\<lparr>mem := m\<rparr>) R = os_holds K s R"
  unfolding os_holds_def osl.tracked_def by simp

section \<open>Runs of the layer\<close>

definition os_fresh :: "os_state \<Rightarrow> bool" where
  "os_fresh s \<longleftrightarrow> mapped s = (\<lambda>_. False) \<and>
     g_stats s = \<lparr>bytes_mapped = 0, peak_mapped = 0, map_calls = 0, unmap_calls = 0\<rparr>"

text \<open>Any sequence of calls, freeing only regions that are live, with the size they were asked for.\<close>

inductive os_run :: "kernel \<Rightarrow> os_state \<Rightarrow> (addr \<times> u64) list \<Rightarrow> bool" for K where
  start: "os_fresh s \<Longrightarrow> os_run K s []"
| alloc: "os_run K s live \<Longrightarrow> os_alloc_aligned K n a s = (p, s') \<Longrightarrow> p \<noteq> 0 \<Longrightarrow>
    os_run K s' ((p, n) # live)"
| refuse: "os_run K s live \<Longrightarrow> os_alloc_aligned K n a s = (0, s') \<Longrightarrow> os_run K s' live"
| free: "os_run K s live \<Longrightarrow> (p, n) \<in> set live \<Longrightarrow>
    os_run K (os_free K p n s) (remove1 (p, n) live)"
| free_null: "os_run K s live \<Longrightarrow> os_run K (os_free K 0 n s) live"
| purge: "os_run K s live \<Longrightarrow> os_purge K p n s = (b, s') \<Longrightarrow> os_run K s' live"

lemma os_run_tracked:
  assumes "os_run K s live" "kernel_ok K"
  shows "osl.tracked K s live"
  using assms
proof (induction rule: os_run.induct)
  case (start s)
  then show ?case
    unfolding osl.tracked_def by (simp add: os_fresh_def regions_ok_def regions_bytes_def)
next
  case (alloc s live n a p s')
  then show ?case using osl.tracked_alloc by metis
next
  case (refuse s live n a s')
  then show ?case using osl.tracked_refused by metis
next
  case (free s live p n)
  then show ?case using osl.tracked_release by metis
next
  case (free_null s live n)
  then show ?case by (simp only: os_free_def simp_thms if_True)
next
  case (purge s live p n b s')
  then have "mapped s' = mapped s" "g_stats s' = g_stats s"
    by (auto simp: os_purge_def split: if_splits prod.splits)
  with purge show ?case unfolding osl.tracked_def by simp
qed

lemma os_alloc_null_iff:
  assumes K: "kernel_ok K" and e: "os_alloc_aligned K sz al s = (p, s')"
  shows "p = 0 \<longleftrightarrow> \<not> os_valid_request K sz al \<or>
    (if al \<le> cached_page_size K then k_mmap K (syscalls s) (mapped s) sz = None
     else 2 ^ 64 \<le> unat sz + unat al \<or> k_mmap K (syscalls s) (mapped s) (sz + al) = None)"
proof (cases "os_valid_request K sz al")
  case False
  then show ?thesis using e by (simp add: os_alloc_invalid)
next
  case v: True
  have ok: "mmap_ok K" using K by (simp add: kernel_ok_def)
  have mm: "fst (raw_mmap K n s) = 0 \<longleftrightarrow> k_mmap K (syscalls s) (mapped s) n = None" for n
    using ok by (auto simp: raw_mmap_def mmap_ok_def split: option.split)
  show ?thesis
  proof (cases "al \<le> cached_page_size K")
    case True
    then have "p = fst (raw_mmap K sz s)"
      using e v by (simp add: os_alloc_fast_eq split: prod.splits)
    with True v mm [of sz] show ?thesis by simp
  next
    case False
    obtain base u where m: "raw_mmap K (sz + al) s = (base, u)" by fastforce
    have gt: "cached_page_size K < al" using False by simp
    have e': "(p, s') = (if sz + al < sz then (0, s) else
        if base = 0 then (0, u) else os_trim K sz al base u)"
      using e [symmetric] unfolding os_alloc_general_eq [OF v gt] m prod.case by simp
    have "p \<noteq> 0" if "\<not> sz + al < sz" "base \<noteq> 0"
    proof -
      from ok m have "os_granted sz al s p s'"
      proof (cases rule: raw_mmap_cases)
        case ok': ok
        have "munmap_ok K" using K by (simp add: kernel_ok_def)
        from os_trim_granted [OF this v that(1) ok'(1-3) ok'(4) ok'(5)] e' that show ?thesis by simp
      qed (use that in simp)
      then show ?thesis by (simp add: os_granted_def)
    qed
    with e' mm [of "sz + al"] m v False show ?thesis
      by (auto simp: unat_add_less_iff split: if_splits)
  qed
qed

section \<open>A sample kernel\<close>

text \<open>4 KiB pages, one terabyte apart per call and never segment-aligned; it refuses what does not
  fit or is taken. It shows that \<open>kernel_ok\<close> can hold and lets examples run.\<close>

definition sample_kernel :: kernel where
  "sample_kernel = \<lparr>k_pagesize = 4096,
     k_mmap = (\<lambda>i m n. let p = 0x10000000000 * of_nat (Suc i) + 4096 in
        if 4096 \<le> unat p \<and> unat p + unat n < 2 ^ 64 \<and> p mod 4096 = 0 \<and> (\<forall>x. in_region p n x \<longrightarrow> \<not> m x)
        then Some p else None),
     k_munmap = (\<lambda>i p n. True),
     k_madvise = (\<lambda>i p n m. (True, m))\<rparr>"

definition sample_os :: os_state where
  "sample_os = \<lparr>mapped = (\<lambda>_. False), mem = (\<lambda>_. 0xAA), syscalls = 0,
     g_stats = \<lparr>bytes_mapped = 0, peak_mapped = 0, map_calls = 0, unmap_calls = 0\<rparr>\<rparr>"

lemma sample_page_size: "cached_page_size sample_kernel = 4096"
  by (simp add: cached_page_size_def sample_kernel_def)

lemma sample_kernel_ok: "kernel_ok sample_kernel"
proof -
  have "pagesize_ok sample_kernel"
    unfolding pagesize_ok_def by (intro exI [of _ 12]) (simp add: sample_kernel_def)
  moreover have "mmap_ok sample_kernel"
    unfolding mmap_ok_def sample_page_size by (auto simp: sample_kernel_def Let_def split: if_splits)
  ultimately show ?thesis
    by (simp add: kernel_ok_def munmap_ok_def madvise_ok_def) (simp add: sample_kernel_def)
qed

lemma sample_os_fresh: "os_fresh sample_os"
  by (simp add: os_fresh_def sample_os_def)

lemma sample_segment_alloc:
  "fst (os_alloc_aligned sample_kernel SEGMENT_SIZE SEGMENT_SIZE sample_os) = 0x10000400000"
  by (simp add: os_alloc_aligned_def sample_page_size is_pow2_def raw_mmap_def)
    (simp add: sample_kernel_def sample_os_def Let_def)

section \<open>Properties of the layer\<close>

text \<open>C18: a successful \<open>os_alloc_aligned\<close> returns a non-null address with the requested
  alignment; it maps exactly the requested bytes (over-map slop is trimmed), none of which was
  mapped before, all zero; other mapped bytes keep their contents, and the accounting grows by
  exactly the size.\<close>

theorem os_alloc_aligned_correct:
  assumes "kernel_ok K" "os_alloc_aligned K sz al s = (p, s')" "p \<noteq> 0"
  shows "unat al dvd unat p \<and> unat p + unat sz < 2 ^ 64 \<and>
    (\<forall>x. mapped s' x \<longleftrightarrow> mapped s x \<or> in_region p sz x) \<and>
    (\<forall>x. in_region p sz x \<longrightarrow> \<not> mapped s x \<and> mem s' x = 0) \<and>
    (\<forall>x. mapped s x \<longrightarrow> mem s' x = mem s x) \<and>
    bytes_mapped (os_stats s') = bytes_mapped (os_stats s) + sz"
  using os_alloc_contract [OF assms(1,2)] assms(3)
  by (simp add: os_granted_def os_stats_def)

theorem os_alloc_aligned_correct_witness:
  "kernel_ok sample_kernel \<and>
   (\<exists>p s'. os_alloc_aligned sample_kernel SEGMENT_SIZE SEGMENT_SIZE sample_os = (p, s') \<and>
     p = 0x10000400000 \<and> mapped s' p \<and> unat SEGMENT_SIZE dvd unat p \<and>
     bytes_mapped (os_stats s') = SEGMENT_SIZE)"
proof -
  obtain p s' where e: "os_alloc_aligned sample_kernel SEGMENT_SIZE SEGMENT_SIZE sample_os = (p, s')"
    by fastforce
  then have p: "p = 0x10000400000" using sample_segment_alloc by simp
  from os_alloc_aligned_correct [OF sample_kernel_ok e] p
  have "mapped s' p" "bytes_mapped (os_stats s') = bytes_mapped (os_stats sample_os) + SEGMENT_SIZE"
    by (simp_all add: in_region_def)
  with e p show ?thesis by (simp add: sample_kernel_ok os_stats_def sample_os_def)
qed

text \<open>C35: null comes back exactly for a zero size, an alignment that is no power of two, a size or
  alignment that is no multiple of the page size, an over-map size that overflows, or a refusal
  of the kernel; then nothing is mapped, written or accounted.\<close>

theorem os_alloc_aligned_null:
  assumes "kernel_ok K" "os_alloc_aligned K sz al s = (p, s')"
  shows "(p = 0 \<longleftrightarrow> sz = 0 \<or> \<not> (\<exists>k < 64. al = 2 ^ k) \<or> sz mod os_page_size K \<noteq> 0 \<or>
      al mod os_page_size K \<noteq> 0 \<or>
      (if al \<le> os_page_size K then k_mmap K (syscalls s) (mapped s) sz = None
       else 2 ^ 64 \<le> unat sz + unat al \<or> k_mmap K (syscalls s) (mapped s) (sz + al) = None)) \<and>
    (p = 0 \<longrightarrow> mapped s' = mapped s \<and> mem s' = mem s \<and> os_stats s' = os_stats s)"
  using os_alloc_null_iff [OF assms] os_alloc_contract [OF assms]
  by (auto simp: os_valid_request_def is_pow2_iff word_mod_eq_0_iff os_page_size_def os_refused_def
      os_stats_def)

theorem os_alloc_aligned_null_witness:
  "fst (os_alloc_aligned sample_kernel 4096 3 sample_os) = 0 \<and>
   fst (os_alloc_aligned sample_kernel SEGMENT_SIZE SEGMENT_SIZE sample_os) \<noteq> 0"
proof -
  obtain p s' where e: "os_alloc_aligned sample_kernel 4096 3 sample_os = (p, s')" by fastforce
  have "(3 :: u64) mod os_page_size sample_kernel \<noteq> 0" by (simp add: os_page_size_def sample_page_size)
  then have "p = 0" using os_alloc_aligned_null [OF sample_kernel_ok e] by blast
  then show ?thesis using e sample_segment_alloc by simp
qed

text \<open>C19: over any sequence of calls that frees live regions with their size, the live regions are
  pairwise disjoint, exactly their bytes are mapped, and \<open>bytes_mapped\<close> is their total size; so
  once everything is freed nothing is mapped and the count is zero.\<close>

theorem os_accounting:
  assumes "kernel_ok K" "os_run K s live"
  shows "(\<forall>r \<in> set live. \<forall>q \<in> set live. r \<noteq> q \<longrightarrow> region_set r \<inter> region_set q = {}) \<and>
    {x. mapped s x} = \<Union> (region_set ` set live) \<and>
    unat (bytes_mapped (os_stats s)) = sum_list (map (\<lambda>r. unat (snd r)) live)"
  using os_run_tracked [OF assms(2,1)] unfolding osl.tracked_def
  by (simp add: regions_ok_def regions_bytes_def os_stats_def)

theorem os_accounting_witness:
  "\<exists>s p. kernel_ok sample_kernel \<and> os_run sample_kernel s [(p, SEGMENT_SIZE)] \<and> mapped s p \<and>
     unat (bytes_mapped (os_stats s)) = 4194304"
proof -
  obtain p s where e: "os_alloc_aligned sample_kernel SEGMENT_SIZE SEGMENT_SIZE sample_os = (p, s)"
    by fastforce
  then have p: "p = 0x10000400000" using sample_segment_alloc by simp
  then have r: "os_run sample_kernel s [(p, SEGMENT_SIZE)]"
    by (intro os_run.alloc [OF os_run.start [OF sample_os_fresh] e]) simp
  from os_accounting [OF sample_kernel_ok r]
  have "{x. mapped s x} = region_set (p, SEGMENT_SIZE)" "unat (bytes_mapped (os_stats s)) = 4194304"
    by simp_all
  moreover have "p \<in> region_set (p, SEGMENT_SIZE)" by (rule region_set_nonempty) simp
  ultimately have "mapped s p" by blast
  with r \<open>unat _ = _\<close> sample_kernel_ok show ?thesis by blast
qed

end
