(* ===== verification/Segment.thy ===== *)
theory Segment
  imports Constants
begin

text \<open>
  Segments, pages and pointer recovery (src/src/segment.h): the metadata structures and
  the constant-time way from a user pointer back to its region, page index and page.
  Pointers to metadata objects are values of small datatypes (a page pointer names its
  segment and index, as \<open>&s->pages[i]\<close> does); pointers into memory are 64-bit addresses.
\<close>

section \<open>Structures\<close>

datatype SegmentKind = Small | Large

text \<open>\<open>Page *\<close>: null, the shared sentinel \<open>g_empty_page\<close> of heap.cpp, or \<open>&s->pages[i]\<close>.\<close>

datatype page_ptr = NullPage | EmptyPage | PageAt addr nat

text \<open>\<open>Heap *\<close>: null, the \<open>ABANDONED_OWNER\<close> tag of central.cpp, or a heap.\<close>

datatype heap_ptr = NullHeap | AbandonedOwner | HeapAt addr

record Page =
  pg_free :: addr
  pg_used :: u32
  pg_capacity :: u32
  pg_reserved :: u32
  pg_block_size :: u32
  pg_size_class :: u32
  pg_in_use :: bool
  pg_owner :: heap_ptr
  pg_next :: page_ptr
  pg_prev :: page_ptr
  pg_area :: addr
  pg_thread_free :: addr

definition USABLE_PAGES_PER_SEGMENT :: u64 where
  "USABLE_PAGES_PER_SEGMENT = PAGES_PER_SEGMENT - FIRST_USABLE_PAGE"

text \<open>The array \<open>pages\<close> of a segment is kept in a store of its own, see Allocator\_State.\<close>

record Segment =
  sg_kind :: SegmentKind
  sg_page_count :: u32
  sg_mmap_size :: u64
  sg_next :: addr
  sg_free_list :: page_ptr
  sg_free_count :: u32
  sg_avail_prev :: addr
  sg_avail_next :: addr
  sg_in_avail :: bool

record LargeHeader =
  lh_kind :: SegmentKind
  lh_mmap_size :: u64
  lh_offset :: u64
  lh_req_size :: u64

text \<open>\<open>sizeof(LargeHeader)\<close>: the tag byte padded to eight bytes, then three \<open>size_t\<close>.\<close>

definition SIZEOF_LARGE_HEADER :: u64 where
  "SIZEOF_LARGE_HEADER = 8 + 3 * 8"

definition LARGE_OFFSET :: u64 where
  "LARGE_OFFSET = (SIZEOF_LARGE_HEADER + (ALLOC_ALIGN - 1)) AND NOT (ALLOC_ALIGN - 1)"

section \<open>Recovery from a pointer\<close>

definition region_base :: "addr \<Rightarrow> addr" where
  "region_base p = p AND NOT SEGMENT_MASK"

definition segment_of :: "addr \<Rightarrow> addr" where
  "segment_of p = region_base p"

definition page_index_of :: "addr \<Rightarrow> u64" where
  "page_index_of p = drop_bit PAGE_SHIFT (p AND SEGMENT_MASK)"

definition page_of :: "addr \<Rightarrow> addr \<Rightarrow> page_ptr" where
  "page_of s p = PageAt s (unat (page_index_of p))"

lemma usable_pages_value [simp]: "USABLE_PAGES_PER_SEGMENT = 63"
  by (simp add: USABLE_PAGES_PER_SEGMENT_def)

lemma large_offset_value [simp]: "LARGE_OFFSET = 32"
  by (simp add: LARGE_OFFSET_def SIZEOF_LARGE_HEADER_def)

definition segment_aligned :: "addr \<Rightarrow> bool" where
  "segment_aligned s \<longleftrightarrow> 2 ^ 22 dvd unat s"

lemma unat_region_base: "unat (region_base p) = unat p - unat p mod 2 ^ 22"
  by (simp add: region_base_def segment_mask_eq unat_and_not_mask)

lemma unat_page_index_of: "unat (page_index_of p) = unat p mod 2 ^ 22 div 2 ^ 16"
  by (simp add: page_index_of_def segment_mask_eq unat_div unat_and_mask drop_bit_eq_div)

lemma segment_aligned_region_base [simp]: "segment_aligned (region_base p)"
  unfolding segment_aligned_def unat_region_base by (rule dvd_minus_mod)

lemma region_base_offset:
  assumes "segment_aligned s" "k < 2 ^ 22"
  shows "unat s + k < 2 ^ 64" "region_base (s + of_nat k) = s"
    "unat (page_index_of (s + of_nat k)) = k div 2 ^ 16"
proof -
  obtain q where q: "unat s = 2 ^ 22 * q" using assms(1) by (auto simp: segment_aligned_def)
  have "q < 2 ^ 42" using unat_less_2_64 [of s] q by simp
  then have "2 ^ 22 * q + k < 2 ^ 64" using assms(2) by simp
  then show lt: "unat s + k < 2 ^ 64" by (simp add: q)
  then have u: "unat (s + of_nat k) = unat s + k"
    by (simp add: unat_add_nowrap unat_of_nat_u64)
  have "unat (region_base (s + of_nat k)) = unat s"
    unfolding unat_region_base u q using assms(2) by simp
  then show "region_base (s + of_nat k) = s" by (rule unsigned_word_eqI)
  show "unat (page_index_of (s + of_nat k)) = k div 2 ^ 16"
    unfolding unat_page_index_of u q using assms(2) by simp
qed

lemma region_base_add:
  "segment_aligned s \<Longrightarrow> d < SEGMENT_SIZE \<Longrightarrow> region_base (s + d) = s"
  using region_base_offset(2) [of s "unat d"] by (simp add: word_less_nat_alt)

lemma region_base_self: "segment_aligned s \<Longrightarrow> region_base s = s"
  using region_base_offset(2) [of s 0] by simp

text \<open>C36: from any pointer into page \<open>i\<close> of a segment the code recovers the segment, the page
  index and the page, with a mask and a shift.\<close>

theorem pointer_recovery:
  assumes "segment_aligned s" "i < PAGES_PER_SEGMENT" "off < PAGE_SIZE"
  shows "segment_of (s + i * PAGE_SIZE + off) = s \<and>
    page_index_of (s + i * PAGE_SIZE + off) = i \<and>
    page_of (segment_of (s + i * PAGE_SIZE + off)) (s + i * PAGE_SIZE + off) = PageAt s (unat i)"
proof -
  define k where "k = unat i * 2 ^ 16 + unat off"
  have b: "unat i < 64" "unat off < 65536" using assms(2,3) by (simp_all add: word_less_nat_alt)
  then have k: "k < 2 ^ 22" "k div 2 ^ 16 = unat i" by (simp_all add: k_def)
  have p: "s + i * PAGE_SIZE + off = s + of_nat k" by (simp add: k_def)
  have idx: "unat (page_index_of (s + of_nat k)) = unat i"
    using region_base_offset(3) [OF assms(1) k(1)] k(2) by simp
  then have "page_index_of (s + of_nat k) = i" by (rule unsigned_word_eqI)
  with idx region_base_offset(2) [OF assms(1) k(1)] show ?thesis
    unfolding p by (simp add: segment_of_def page_of_def)
qed

theorem pointer_recovery_witness:
  "segment_aligned 0x10000400000 \<and>
   segment_of (0x10000400000 + 5 * PAGE_SIZE + 160) = 0x10000400000 \<and>
   page_index_of (0x10000400000 + 5 * PAGE_SIZE + 160) = 5"
proof -
  have s: "segment_aligned 0x10000400000" by (simp add: segment_aligned_def)
  show ?thesis using s pointer_recovery [OF s, of 5 160] by simp
qed

text \<open>C37: masking partitions the address space: every pointer lies less than a segment above its
  aligned region base, which is its own base, and its page index and page offset reassemble it.\<close>

theorem pointer_decomposition:
  "segment_aligned (region_base p) \<and> region_base (region_base p) = region_base p \<and>
   region_base p \<le> p \<and> p - region_base p < SEGMENT_SIZE \<and> page_index_of p < PAGES_PER_SEGMENT \<and>
   p = region_base p + page_index_of p * PAGE_SIZE + (p AND PAGE_MASK)"
proof -
  have le: "unat p mod 2 ^ 22 \<le> unat p" by (rule mod_less_eq_dividend)
  have rb: "region_base p \<le> p" by (simp add: word_le_nat_alt unat_region_base)
  have d: "unat (p - region_base p) = unat p mod 2 ^ 22"
    using le by (simp add: unat_diff_nowrap [OF rb] unat_region_base)
  have off: "p - region_base p = of_nat (unat p mod 2 ^ 22)"
    unfolding d [symmetric] by simp
  have "unat p mod 2 ^ 22 = unat p mod 2 ^ 22 div 2 ^ 16 * 2 ^ 16 + unat p mod 2 ^ 16"
    using div_mult_mod_eq [of "unat p mod 2 ^ 22" "2 ^ 16"] by (simp add: mod_mod_cancel)
  also have "\<dots> = unat (page_index_of p) * 2 ^ 16 + unat (p AND PAGE_MASK)"
    by (simp add: unat_page_index_of page_mask_eq unat_and_mask)
  finally have "p - region_base p = page_index_of p * PAGE_SIZE + (p AND PAGE_MASK)"
    unfolding off by simp
  then have "p = region_base p + page_index_of p * PAGE_SIZE + (p AND PAGE_MASK)"
    by (simp add: algebra_simps)
  moreover have "unat (page_index_of p) < 64" by (simp add: unat_page_index_of)
  ultimately show ?thesis
    using rb d by (simp add: region_base_self word_less_nat_alt)
qed

end
