(* ===== verification/Region_Registry.thy ===== *)
theory Region_Registry
  imports OS_Layer Segment
begin

text \<open>
  The region registry (src/src/region_registry.h, src/src/region_registry.cpp): an
  open-addressing hash set with tombstones over the bases of all mapped regions, backed by
  the OS layer. The probe loops stop only at an empty slot, so they are partial functions:
  \<open>None\<close> is a loop that never ends or an index outside the table. The theory shows that the
  table refines a set, that the load-factor rule keeps an empty slot so that every loop
  ends, and what happens once growth has failed and the table is full. Every operation runs
  under the registry's mutex, so the operations are sequential.
\<close>

section \<open>State and operations\<close>

definition EMPTY :: u64 where
  "EMPTY = 0"

definition TOMB :: u64 where
  "TOMB = - 1"

definition SIZE_MAX :: u64 where
  "SIZE_MAX = - 1"

text \<open>\<open>slots\<close> is null (\<open>None\<close>) or the address of the table with its contents.\<close>

record Registry =
  rg_slots :: "(addr \<times> u64 list) option"
  rg_cap :: u64
  rg_size :: u64
  rg_tombs :: u64

definition init_registry :: Registry where
  "init_registry = \<lparr>rg_slots = None, rg_cap = 0, rg_size = 0, rg_tombs = 0\<rparr>"

definition slots_bytes :: "kernel \<Rightarrow> u64 \<Rightarrow> u64" where
  "slots_bytes K cap = (let ps = os_page_size K in (cap * 8 + ps - 1) AND NOT (ps - 1))"

definition alloc_slots :: "kernel \<Rightarrow> u64 \<Rightarrow> os_state \<Rightarrow> addr \<times> os_state" where
  "alloc_slots K cap s = os_alloc_aligned K (slots_bytes K cap) (os_page_size K) s"

definition index_of :: "u64 \<Rightarrow> u64 \<Rightarrow> u64" where
  "index_of cap_mask key =
     (let h = drop_bit SEGMENT_SHIFT key; h = h * 0x9e3779b97f4a7c15 in h AND cap_mask)"

definition slot_at :: "u64 list \<Rightarrow> u64 \<Rightarrow> u64 option" where
  "slot_at xs i = (if unat i < length xs then Some (xs ! unat i) else None)"

partial_function (option) probe_empty :: "u64 list \<Rightarrow> u64 \<Rightarrow> u64 \<Rightarrow> u64 option" where
  "probe_empty xs cap i = do {
     x \<leftarrow> slot_at xs i;
     if x \<noteq> EMPTY then probe_empty xs cap ((i + 1) AND (cap - 1)) else Some i }"

definition raw_insert :: "u64 list \<Rightarrow> u64 \<Rightarrow> u64 \<Rightarrow> u64 list option" where
  "raw_insert xs cap key = do {
     i \<leftarrow> probe_empty xs cap (index_of (cap - 1) key);
     Some (xs[unat i := key]) }"

text \<open>The loop of \<open>grow_locked\<close> over the old table.\<close>

fun rehash :: "u64 list \<Rightarrow> u64 \<Rightarrow> u64 list \<Rightarrow> u64 list option" where
  "rehash [] cap fresh = Some fresh"
| "rehash (x # old) cap fresh = do {
     fresh \<leftarrow> (if x \<noteq> EMPTY \<and> x \<noteq> TOMB then raw_insert fresh cap x else Some fresh);
     rehash old cap fresh }"

definition grow_locked :: "kernel \<Rightarrow> Registry \<Rightarrow> u64 \<Rightarrow> os_state \<Rightarrow> (Registry \<times> os_state) option" where
  "grow_locked K r new_cap s =
     (case alloc_slots K new_cap s of (fresh, s) \<Rightarrow>
        if fresh = 0 then Some (r, s)
        else do {
          tbl \<leftarrow> rehash (case rg_slots r of None \<Rightarrow> [] | Some (p, xs) \<Rightarrow> xs) new_cap
                  (replicate (unat new_cap) EMPTY);
          let s = (case rg_slots r of None \<Rightarrow> s
                   | Some (p, xs) \<Rightarrow> os_free K p (slots_bytes K (rg_cap r)) s);
          Some (r\<lparr>rg_slots := Some (fresh, tbl), rg_cap := new_cap, rg_tombs := 0\<rparr>, s) })"

text \<open>The insertion probe: \<open>Inl ()\<close> when the key is present, otherwise the empty slot and the
  first tombstone passed (\<open>SIZE_MAX\<close> if none).\<close>

partial_function (option) register_probe ::
  "u64 list \<Rightarrow> u64 \<Rightarrow> u64 \<Rightarrow> u64 \<Rightarrow> u64 \<Rightarrow> (unit + u64 \<times> u64) option" where
  "register_probe xs cap key i first_tomb = do {
     x \<leftarrow> slot_at xs i;
     if x = EMPTY then Some (Inr (i, first_tomb))
     else if x = key then Some (Inl ())
     else register_probe xs cap key ((i + 1) AND (cap - 1))
            (if x = TOMB \<and> first_tomb = SIZE_MAX then i else first_tomb) }"

text \<open>\<open>region_register\<close> first makes room, then inserts.\<close>

definition register_room :: "kernel \<Rightarrow> Registry \<Rightarrow> os_state \<Rightarrow> (Registry \<times> os_state) option" where
  "register_room K r s = do {
     (r, s) \<leftarrow> (if rg_slots r = None then grow_locked K r 1024 s else Some (r, s));
     if (rg_size r + rg_tombs r + 1) * 10 \<ge> rg_cap r * 7
     then grow_locked K r (if rg_size r * 2 \<ge> rg_cap r then rg_cap r * 2 else rg_cap r) s
     else Some (r, s) }"

definition register_insert :: "addr \<Rightarrow> Registry \<Rightarrow> Registry option" where
  "register_insert base r =
     (case rg_slots r of
        None \<Rightarrow> Some r
      | Some (p, xs) \<Rightarrow> do {
          res \<leftarrow> register_probe xs (rg_cap r) base (index_of (rg_cap r - 1) base) SIZE_MAX;
          case res of
            Inl _ \<Rightarrow> Some r
          | Inr (i, first_tomb) \<Rightarrow>
              Some (if first_tomb \<noteq> SIZE_MAX
                    then r\<lparr>rg_slots := Some (p, xs[unat first_tomb := base]),
                           rg_tombs := rg_tombs r - 1, rg_size := rg_size r + 1\<rparr>
                    else r\<lparr>rg_slots := Some (p, xs[unat i := base]), rg_size := rg_size r + 1\<rparr>) })"

definition region_register ::
  "kernel \<Rightarrow> addr \<Rightarrow> Registry \<Rightarrow> os_state \<Rightarrow> (Registry \<times> os_state) option" where
  "region_register K base r s = do {
     (r, s) \<leftarrow> register_room K r s;
     r \<leftarrow> register_insert base r;
     Some (r, s) }"

text \<open>The probe of \<open>region_unregister\<close> and \<open>region_owns\<close>: the slot of the key, or none.\<close>

partial_function (option) find_probe ::
  "u64 list \<Rightarrow> u64 \<Rightarrow> u64 \<Rightarrow> u64 \<Rightarrow> u64 option option" where
  "find_probe xs cap key i = do {
     x \<leftarrow> slot_at xs i;
     if x = EMPTY then Some None
     else if x = key then Some (Some i)
     else find_probe xs cap key ((i + 1) AND (cap - 1)) }"

definition region_unregister :: "addr \<Rightarrow> Registry \<Rightarrow> Registry option" where
  "region_unregister base r =
     (case rg_slots r of
        None \<Rightarrow> Some r
      | Some (p, xs) \<Rightarrow> do {
          res \<leftarrow> find_probe xs (rg_cap r) base (index_of (rg_cap r - 1) base);
          case res of
            None \<Rightarrow> Some r
          | Some i \<Rightarrow> Some (r\<lparr>rg_slots := Some (p, xs[unat i := TOMB]),
                            rg_size := rg_size r - 1, rg_tombs := rg_tombs r + 1\<rparr>) })"

definition region_owns :: "addr \<Rightarrow> Registry \<Rightarrow> bool option" where
  "region_owns base r =
     (case rg_slots r of
        None \<Rightarrow> Some False
      | Some (p, xs) \<Rightarrow> do {
          res \<leftarrow> find_probe xs (rg_cap r) base (index_of (rg_cap r - 1) base);
          Some (res \<noteq> None) })"

lemma sentinels [simp]: "TOMB \<noteq> EMPTY" "EMPTY \<noteq> TOMB"
  by (simp_all add: TOMB_def EMPTY_def)

section \<open>Probing a cyclic table\<close>

text \<open>A probe from index \<open>i\<close> visits the slots \<open>(i + j) mod 2 ^ k\<close>; \<open>m\<close> is the first step that
  stops it.\<close>

definition visit :: "nat \<Rightarrow> u64 list \<Rightarrow> nat \<Rightarrow> nat \<Rightarrow> u64" where
  "visit k xs i j = xs ! ((i + j) mod 2 ^ k)"

lemma next_index:
  assumes "k < 64"
  shows "unat ((i + 1) AND (2 ^ k - 1) :: u64) = (unat i + 1) mod 2 ^ k"
proof -
  have "unat (i + 1) mod 2 ^ k = (unat i + 1) mod 2 ^ k"
  proof (cases "unat i + 1 < 2 ^ 64")
    case True
    then show ?thesis by (simp add: unat_add_nowrap)
  next
    case False
    then have "unat i + 1 = 2 ^ 64" using unat_less_2_64 [of i] by simp
    moreover from this have "unat (i + 1) = 0" by (simp add: unat_plus_if')
    moreover have "(2 :: nat) ^ 64 mod 2 ^ k = 0"
      using assms by (simp add: le_imp_power_dvd mod_eq_0_iff_dvd del: power_numeral)
    ultimately show ?thesis by simp
  qed
  then show ?thesis by (simp add: exp_minus_1_mask unat_and_mask)
qed

lemma visit_next:
  "k < 64 \<Longrightarrow> visit k xs (unat ((i + 1) AND (2 ^ k - 1) :: u64)) j = visit k xs (unat i) (Suc j)"
  by (simp add: visit_def next_index mod_add_left_eq)

lemma index_of_less: "k < 64 \<Longrightarrow> unat (index_of (2 ^ k - 1) key) < 2 ^ k"
  by (simp add: index_of_def Let_def exp_minus_1_mask unat_and_mask)

lemma slot_at_visit:
  assumes "length xs = 2 ^ k" "unat i < 2 ^ k"
  shows "slot_at xs i = Some (visit k xs (unat i) 0)"
  using assms by (simp add: slot_at_def visit_def)

lemma next_index_less: "k < 64 \<Longrightarrow> unat ((i + 1) AND (2 ^ k - 1) :: u64) < 2 ^ k"
  by (simp add: next_index)

lemma find_probe_spec:
  assumes "k < 64" "length xs = 2 ^ k" "unat i < 2 ^ k" "key \<noteq> EMPTY"
    "\<forall>j < m. visit k xs (unat i) j \<noteq> EMPTY \<and> visit k xs (unat i) j \<noteq> key"
    "visit k xs (unat i) m = EMPTY \<or> visit k xs (unat i) m = key"
  shows "find_probe xs (2 ^ k) key i =
    Some (if visit k xs (unat i) m = EMPTY then None else Some (of_nat ((unat i + m) mod 2 ^ k)))"
  using assms(3,5,6)
proof (induction m arbitrary: i)
  case 0
  then show ?case using assms(2,4)
    by (subst find_probe.simps) (auto simp: slot_at_visit)
next
  case (Suc m)
  let ?i = "(i + 1) AND (2 ^ k - 1) :: u64"
  have "visit k xs (unat i) 0 \<noteq> EMPTY \<and> visit k xs (unat i) 0 \<noteq> key" using Suc.prems(2) by blast
  then have "find_probe xs (2 ^ k) key i = find_probe xs (2 ^ k) key ?i"
    using Suc.prems(1) assms(2) by (subst find_probe.simps) (simp add: slot_at_visit)
  moreover have "(unat ?i + m) mod 2 ^ k = (unat i + Suc m) mod 2 ^ k"
    using assms(1) by (simp add: next_index mod_add_left_eq)
  ultimately show ?case
    using Suc.IH [of ?i] Suc.prems assms(1)
    by (auto simp: visit_next [OF assms(1)] next_index_less)
qed

lemma register_probe_spec:
  assumes "k < 64" "length xs = 2 ^ k" "unat i < 2 ^ k" "key \<noteq> EMPTY"
    "\<forall>j < m. visit k xs (unat i) j \<noteq> EMPTY \<and> visit k xs (unat i) j \<noteq> key"
    "visit k xs (unat i) m = EMPTY \<or> visit k xs (unat i) m = key"
  shows "if visit k xs (unat i) m = key then register_probe xs (2 ^ k) key i ft = Some (Inl ())
    else \<exists>ft'. register_probe xs (2 ^ k) key i ft = Some (Inr (of_nat ((unat i + m) mod 2 ^ k), ft')) \<and>
      (ft' = ft \<or> (\<exists>j < m. unat ft' = (unat i + j) mod 2 ^ k \<and> visit k xs (unat i) j = TOMB))"
  using assms(3,5,6)
proof (induction m arbitrary: i ft)
  case 0
  then show ?case using assms(2,4)
    by (subst (1 2) register_probe.simps) (auto simp: slot_at_visit)
next
  case (Suc m)
  let ?i = "(i + 1) AND (2 ^ k - 1) :: u64"
  let ?x = "visit k xs (unat i) 0"
  let ?ft = "if ?x = TOMB \<and> ft = SIZE_MAX then i else ft"
  have "?x \<noteq> EMPTY \<and> ?x \<noteq> key" using Suc.prems(2) by blast
  then have step: "register_probe xs (2 ^ k) key i ft = register_probe xs (2 ^ k) key ?i ?ft"
    using Suc.prems(1) assms(2) by (subst register_probe.simps) (simp add: slot_at_visit)
  have pos: "(unat ?i + j) mod 2 ^ k = (unat i + Suc j) mod 2 ^ k" for j
    using assms(1) by (simp add: next_index mod_add_left_eq)
  have i0: "unat i = (unat i + 0) mod 2 ^ k" using Suc.prems(1) by simp
  note IH = Suc.IH [of ?i ?ft, unfolded visit_next [OF assms(1)] pos, folded step]
  have "\<forall>j < m. visit k xs (unat i) (Suc j) \<noteq> EMPTY \<and> visit k xs (unat i) (Suc j) \<noteq> key"
    using Suc.prems(2) by blast
  from IH [OF next_index_less [OF assms(1)] this Suc.prems(3)] show ?case
    using i0 by (fastforce split: if_splits)
qed

lemma probe_empty_spec:
  assumes "k < 64" "length xs = 2 ^ k" "unat i < 2 ^ k"
    "\<forall>j < m. visit k xs (unat i) j \<noteq> EMPTY" "visit k xs (unat i) m = EMPTY"
  shows "probe_empty xs (2 ^ k) i = Some (of_nat ((unat i + m) mod 2 ^ k))"
  using assms(3-5)
proof (induction m arbitrary: i)
  case 0
  then show ?case using assms(2) by (subst probe_empty.simps) (simp add: slot_at_visit)
next
  case (Suc m)
  let ?i = "(i + 1) AND (2 ^ k - 1) :: u64"
  have "probe_empty xs (2 ^ k) i = probe_empty xs (2 ^ k) ?i"
    using Suc.prems assms(2) by (subst probe_empty.simps) (simp add: slot_at_visit)
  moreover have "(unat ?i + m) mod 2 ^ k = (unat i + Suc m) mod 2 ^ k"
    using assms(1) by (simp add: next_index mod_add_left_eq)
  ultimately show ?case
    using Suc.IH [of ?i] Suc.prems assms(1)
    by (auto simp: visit_next [OF assms(1)] next_index_less)
qed

text \<open>A probe reaches every slot: some step meets any element of the table.\<close>

lemma visit_reaches:
  assumes "length xs = 2 ^ k" "x \<in> set xs"
  shows "\<exists>j. visit k xs i j = x"
proof -
  obtain p where p: "p < 2 ^ k" "xs ! p = x" using assms by (metis in_set_conv_nth)
  have "i mod 2 ^ k + (2 ^ k - i mod 2 ^ k) = 2 ^ k"
    by (rule le_add_diff_inverse) (simp add: less_imp_le)
  then have "i mod 2 ^ k + (2 ^ k - i mod 2 ^ k + p) = 2 ^ k + p"
    by (simp only: add.assoc [symmetric])
  then have "(i + (2 ^ k - i mod 2 ^ k + p)) mod 2 ^ k = p"
    using p(1) mod_add_left_eq [of i "2 ^ k" "2 ^ k - i mod 2 ^ k + p"] by simp
  with p(2) show ?thesis unfolding visit_def by metis
qed

lemma first_stop:
  assumes "length xs = 2 ^ k" "x \<in> set xs" "P x"
  obtains m where "P (visit k xs i m)" "\<forall>j < m. \<not> P (visit k xs i j)"
proof -
  obtain j where "P (visit k xs i j)" using visit_reaches [OF assms(1,2)] assms(3) by metis
  then show ?thesis
    using that [of "LEAST j. P (visit k xs i j)"] by (metis (lifting) LeastI not_less_Least)
qed

text \<open>With no empty slot and the key absent the probe never returns.\<close>

lemma find_probe_diverges:
  assumes "EMPTY \<notin> set xs" "key \<notin> set xs"
  shows "find_probe xs cap key i = None"
proof (rule ccontr)
  assume "find_probe xs cap key i \<noteq> None"
  then obtain r where r: "find_probe xs cap key i = Some r" by blast
  have "EMPTY \<notin> set xs \<longrightarrow> key \<notin> set xs \<longrightarrow> False"
  proof (rule find_probe.raw_induct [where P = "\<lambda>xs cap key i r. EMPTY \<notin> set xs \<longrightarrow> key \<notin> set xs \<longrightarrow> False", OF _ r])
    fix f :: "u64 list \<Rightarrow> u64 \<Rightarrow> u64 \<Rightarrow> u64 \<Rightarrow> u64 option option" and xs cap key i r
    assume IH: "\<And>xs cap key i r. f xs cap key i = Some r \<Longrightarrow> EMPTY \<notin> set xs \<longrightarrow> key \<notin> set xs \<longrightarrow> False"
      and e: "do { x \<leftarrow> slot_at xs i; if x = EMPTY then Some None else if x = key then Some (Some i)
         else f xs cap key ((i + 1) AND (cap - 1)) } = Some r"
    show "EMPTY \<notin> set xs \<longrightarrow> key \<notin> set xs \<longrightarrow> False"
      using e IH by (auto simp: slot_at_def bind_eq_Some_conv dest!: nth_mem split: if_splits)
  qed
  with assms show False by blast
qed

lemma register_probe_diverges:
  assumes "EMPTY \<notin> set xs" "key \<notin> set xs"
  shows "register_probe xs cap key i ft = None"
proof (rule ccontr)
  assume "register_probe xs cap key i ft \<noteq> None"
  then obtain r where r: "register_probe xs cap key i ft = Some r" by blast
  have "EMPTY \<notin> set xs \<longrightarrow> key \<notin> set xs \<longrightarrow> False"
  proof (rule register_probe.raw_induct [where P = "\<lambda>xs cap key i ft r. EMPTY \<notin> set xs \<longrightarrow> key \<notin> set xs \<longrightarrow> False", OF _ r])
    fix f :: "u64 list \<Rightarrow> u64 \<Rightarrow> u64 \<Rightarrow> u64 \<Rightarrow> u64 \<Rightarrow> (unit + u64 \<times> u64) option" and xs cap key i ft r
    assume IH: "\<And>xs cap key i ft r. f xs cap key i ft = Some r \<Longrightarrow> EMPTY \<notin> set xs \<longrightarrow> key \<notin> set xs \<longrightarrow> False"
      and e: "do { x \<leftarrow> slot_at xs i; if x = EMPTY then Some (Inr (i, ft)) else if x = key then Some (Inl ())
         else f xs cap key ((i + 1) AND (cap - 1)) (if x = TOMB \<and> ft = SIZE_MAX then i else ft) } = Some r"
    show "EMPTY \<notin> set xs \<longrightarrow> key \<notin> set xs \<longrightarrow> False"
      using e IH by (auto simp: slot_at_def bind_eq_Some_conv dest!: nth_mem split: if_splits)
  qed
  with assms show False by blast
qed

section \<open>Well-formed tables\<close>

definition live :: "u64 \<Rightarrow> bool" where
  "live x \<longleftrightarrow> x \<noteq> EMPTY \<and> x \<noteq> TOMB"

text \<open>The start of a key's probe, and that a slot is reached without passing an empty one.\<close>

abbreviation home :: "nat \<Rightarrow> u64 \<Rightarrow> nat" where
  "home k key \<equiv> unat (index_of (2 ^ k - 1) key)"

definition reaches :: "nat \<Rightarrow> u64 list \<Rightarrow> u64 \<Rightarrow> nat \<Rightarrow> bool" where
  "reaches k xs key i \<longleftrightarrow>
     (\<exists>d. (home k key + d) mod 2 ^ k = i \<and> (\<forall>j < d. visit k xs (home k key) j \<noteq> EMPTY))"

definition table_ok :: "nat \<Rightarrow> u64 list \<Rightarrow> bool" where
  "table_ok k xs \<longleftrightarrow> length xs = 2 ^ k \<and>
     (\<forall>i < 2 ^ k. live (xs ! i) \<longrightarrow> reaches k xs (xs ! i) i) \<and>
     (\<forall>i < 2 ^ k. \<forall>j < 2 ^ k. live (xs ! i) \<longrightarrow> xs ! i = xs ! j \<longrightarrow> i = j)"

definition keys :: "u64 list \<Rightarrow> u64 set" where
  "keys xs = {x \<in> set xs. live x}"

lemma table_ok_inj:
  "table_ok k xs \<Longrightarrow> i < 2 ^ k \<Longrightarrow> j < 2 ^ k \<Longrightarrow> live (xs ! i) \<Longrightarrow> xs ! i = xs ! j \<Longrightarrow> i = j"
  unfolding table_ok_def by blast

text \<open>The occupied slots; the keys are their contents, each once.\<close>

definition live_slots :: "u64 list \<Rightarrow> nat set" where
  "live_slots xs = {i. i < length xs \<and> live (xs ! i)}"

definition tomb_slots :: "u64 list \<Rightarrow> nat set" where
  "tomb_slots xs = {i. i < length xs \<and> xs ! i = TOMB}"

lemma keys_slots: "keys xs = (!) xs ` live_slots xs"
  by (auto simp: keys_def live_slots_def in_set_conv_nth)

lemma finite_slots [simp]: "finite (live_slots xs)" "finite (tomb_slots xs)"
  by (simp_all add: live_slots_def tomb_slots_def)

lemma live_slots_inj: "table_ok k xs \<Longrightarrow> inj_on ((!) xs) (live_slots xs)"
  by (rule inj_onI) (auto simp: live_slots_def table_ok_def)

lemma card_keys: "table_ok k xs \<Longrightarrow> card (keys xs) = card (live_slots xs)"
  by (simp add: keys_slots card_image live_slots_inj)

lemma keys_update:
  assumes "length xs = 2 ^ k" "p < 2 ^ k" "\<not> live (xs ! p)" "live v"
  shows "keys (xs[p := v]) = insert v (keys xs)" "live_slots (xs[p := v]) = insert p (live_slots xs)"
proof -
  show *: "live_slots (xs[p := v]) = insert p (live_slots xs)"
    using assms by (auto simp: live_slots_def nth_list_update)
  have "p \<notin> live_slots xs" using assms by (simp add: live_slots_def)
  then have "(\<lambda>i. xs[p := v] ! i) ` live_slots xs = (!) xs ` live_slots xs"
    by (intro image_cong refl) (metis nth_list_update_neq)
  then show "keys (xs[p := v]) = insert v (keys xs)" using assms * by (simp add: keys_slots)
qed

lemma reaches_update:
  assumes "length xs = 2 ^ k" "reaches k xs key i" "v \<noteq> EMPTY"
  shows "reaches k (xs[p := v]) key i"
proof -
  have "visit k (xs[p := v]) h j \<noteq> EMPTY" if "visit k xs h j \<noteq> EMPTY" for h j
    using that assms(1,3) by (cases "p = (h + j) mod 2 ^ k") (auto simp: visit_def)
  with assms(2) show ?thesis unfolding reaches_def by blast
qed

lemma table_insert:
  assumes ok: "table_ok k xs" and p: "p < 2 ^ k" "\<not> live (xs ! p)"
    and key: "live key" "key \<notin> set xs" "reaches k xs key p"
  shows "table_ok k (xs[p := key])" "keys (xs[p := key]) = insert key (keys xs)"
proof -
  have len: "length xs = 2 ^ k" using ok by (simp add: table_ok_def)
  have nk: "key \<noteq> EMPTY" using key(1) by (simp add: live_def)
  have ne: "xs ! i \<noteq> key" if "i < 2 ^ k" for i using key(2) len that by (metis nth_mem)
  show "table_ok k (xs[p := key])"
    unfolding table_ok_def
  proof (intro conjI allI impI)
    show "length (xs[p := key]) = 2 ^ k" by (simp add: len)
    fix i assume i: "i < 2 ^ k" "live (xs[p := key] ! i)"
    show "reaches k (xs[p := key]) (xs[p := key] ! i) i"
    proof (cases "i = p")
      case True
      then show ?thesis using reaches_update [OF len key(3) nk] p(1) len by simp
    next
      case False
      then have "reaches k xs (xs ! i) i" using ok i by (simp add: table_ok_def)
      then show ?thesis using reaches_update [OF len _ nk] False by simp
    qed
    fix j assume j: "j < 2 ^ k" "xs[p := key] ! i = xs[p := key] ! j"
    show "i = j"
    proof (cases "i = p \<or> j = p")
      case True
      then show ?thesis using j ne [OF i(1)] ne [OF j(1)] len p(1) by (auto simp: nth_list_update split: if_splits)
    next
      case False
      then show ?thesis using j i table_ok_inj [OF ok i(1) j(1)] by simp
    qed
  qed
  show "keys (xs[p := key]) = insert key (keys xs)"
    using keys_update [OF len p(1), of key] p(2) key(1) by simp
qed

lemma table_delete:
  assumes ok: "table_ok k xs" and p: "p < 2 ^ k" "live (xs ! p)"
  shows "table_ok k (xs[p := TOMB])" "keys (xs[p := TOMB]) = keys xs - {xs ! p}"
proof -
  have len: "length xs = 2 ^ k" using ok by (simp add: table_ok_def)
  have t: "TOMB \<noteq> EMPTY" "\<not> live TOMB" by (simp_all add: TOMB_def EMPTY_def live_def)
  show "table_ok k (xs[p := TOMB])"
    unfolding table_ok_def
  proof (intro conjI allI impI)
    show "length (xs[p := TOMB]) = 2 ^ k" by (simp add: len)
    fix i assume i: "i < 2 ^ k" "live (xs[p := TOMB] ! i)"
    then have ip: "i \<noteq> p" using t len by auto
    then show "reaches k (xs[p := TOMB]) (xs[p := TOMB] ! i) i"
      using ok i reaches_update [OF len _ t(1)] by (simp add: table_ok_def)
    fix j assume j: "j < 2 ^ k" "xs[p := TOMB] ! i = xs[p := TOMB] ! j"
    show "i = j"
    proof (cases "j = p")
      case True
      then show ?thesis using i ip j t len by simp
    next
      case False
      then show ?thesis using i ip j table_ok_inj [OF ok i(1) j(1)] by simp
    qed
  qed
  have "live_slots (xs[p := TOMB]) = live_slots xs - {p}"
    using t(2) len p(1) by (auto simp: live_slots_def nth_list_update)
  moreover have "(\<lambda>i. xs[p := TOMB] ! i) ` (live_slots xs - {p}) = (!) xs ` (live_slots xs - {p})"
    by (rule image_cong) auto
  moreover have "(!) xs ` (live_slots xs - {p}) = (!) xs ` live_slots xs - {xs ! p}"
  proof -
    have "p \<in> live_slots xs" using p len by (simp add: live_slots_def)
    then show ?thesis using inj_on_image_set_diff [OF live_slots_inj [OF ok], of "live_slots xs" "{p}"] by simp
  qed
  ultimately show "keys (xs[p := TOMB]) = keys xs - {xs ! p}" by (simp add: keys_slots)
qed

section \<open>The probes on a well-formed table\<close>

lemma key_index: "k < 64 \<Longrightarrow> unat (of_nat (n mod 2 ^ k) :: u64) = n mod 2 ^ k"
proof -
  assume "k < 64"
  then have "(2 :: nat) ^ k \<le> 2 ^ 64" by (intro power_increasing) auto
  moreover have "n mod 2 ^ k < 2 ^ k" by simp
  ultimately have "n mod 2 ^ k < 2 ^ 64" by (rule less_le_trans [rotated])
  then show ?thesis by (rule unat_of_nat_u64)
qed

text \<open>Where a probe for a key stops: at the key if it is present, else at an empty slot.\<close>

lemma stop_absent:
  assumes "length xs = 2 ^ k" "EMPTY \<in> set xs" "key \<notin> set xs"
  obtains m where "visit k xs h m = EMPTY"
    "\<forall>j < m. visit k xs h j \<noteq> EMPTY \<and> visit k xs h j \<noteq> key"
proof -
  obtain m where m: "visit k xs h m = EMPTY \<or> visit k xs h m = key"
    "\<forall>j < m. \<not> (visit k xs h j = EMPTY \<or> visit k xs h j = key)"
    using first_stop [OF assms(1,2), of "\<lambda>x. x = EMPTY \<or> x = key"] by blast
  have "visit k xs h m \<in> set xs" by (simp add: visit_def assms(1))
  then have "visit k xs h m = EMPTY" using m(1) assms(3) by metis
  with m(2) that show ?thesis by blast
qed

lemma stop_present:
  assumes "table_ok k xs" "live key" "key \<in> set xs"
  obtains m where "visit k xs (home k key) m = key"
    "\<forall>j < m. visit k xs (home k key) j \<noteq> EMPTY \<and> visit k xs (home k key) j \<noteq> key"
proof -
  let ?h = "home k key"
  have len: "length xs = 2 ^ k" using assms(1) by (simp add: table_ok_def)
  obtain p where p: "p < 2 ^ k" "xs ! p = key" using assms(3) len by (metis in_set_conv_nth)
  then have "reaches k xs key p" using assms(1,2) unfolding table_ok_def by blast
  then obtain d where d: "(?h + d) mod 2 ^ k = p" "\<forall>j < d. visit k xs ?h j \<noteq> EMPTY"
    by (auto simp: reaches_def)
  have dk: "visit k xs ?h d = key" using d p by (simp add: visit_def)
  obtain m where m: "visit k xs ?h m = EMPTY \<or> visit k xs ?h m = key"
    "\<forall>j < m. \<not> (visit k xs ?h j = EMPTY \<or> visit k xs ?h j = key)"
    using first_stop [OF len assms(3), of "\<lambda>x. x = EMPTY \<or> x = key"] by blast
  have "m \<le> d" using m(2) dk by (metis not_le)
  then have "visit k xs ?h m = key" using m(1) d(2) dk by (cases "m = d") auto
  with m(2) that show ?thesis by blast
qed

lemma find_absent:
  assumes "k < 64" "table_ok k xs" "EMPTY \<in> set xs" "live key" "key \<notin> set xs"
  shows "find_probe xs (2 ^ k) key (index_of (2 ^ k - 1) key) = Some None"
proof -
  have len: "length xs = 2 ^ k" using assms(2) by (simp add: table_ok_def)
  obtain m where "visit k xs (home k key) m = EMPTY"
    "\<forall>j < m. visit k xs (home k key) j \<noteq> EMPTY \<and> visit k xs (home k key) j \<noteq> key"
    using stop_absent [OF len assms(3,5)] by blast
  with find_probe_spec [OF assms(1) len index_of_less [OF assms(1)], of key m] assms(4)
  show ?thesis by (auto simp: live_def)
qed

lemma find_present:
  assumes "k < 64" "table_ok k xs" "live key" "key \<in> set xs"
  obtains i where "find_probe xs (2 ^ k) key (index_of (2 ^ k - 1) key) = Some (Some i)"
    "unat i < 2 ^ k" "xs ! unat i = key"
proof -
  let ?h = "home k key"
  have len: "length xs = 2 ^ k" and ne: "key \<noteq> EMPTY"
    using assms(2,3) by (simp_all add: table_ok_def live_def)
  obtain m where m: "visit k xs ?h m = key"
    "\<forall>j < m. visit k xs ?h j \<noteq> EMPTY \<and> visit k xs ?h j \<noteq> key"
    using stop_present [OF assms(2-4)] by blast
  have "find_probe xs (2 ^ k) key (index_of (2 ^ k - 1) key) =
      Some (Some (of_nat ((?h + m) mod 2 ^ k)))"
    using find_probe_spec [OF assms(1) len index_of_less [OF assms(1)] ne m(2)] m(1) ne by auto
  moreover have "unat (of_nat ((?h + m) mod 2 ^ k) :: u64) = (?h + m) mod 2 ^ k"
    by (rule key_index [OF assms(1)])
  ultimately show ?thesis using that m(1) by (simp add: visit_def)
qed

lemma register_present:
  assumes "k < 64" "table_ok k xs" "live key" "key \<in> set xs"
  shows "register_probe xs (2 ^ k) key (index_of (2 ^ k - 1) key) ft = Some (Inl ())"
proof -
  have len: "length xs = 2 ^ k" and ne: "key \<noteq> EMPTY"
    using assms(2,3) by (simp_all add: table_ok_def live_def)
  obtain m where m: "visit k xs (home k key) m = key"
    "\<forall>j < m. visit k xs (home k key) j \<noteq> EMPTY \<and> visit k xs (home k key) j \<noteq> key"
    using stop_present [OF assms(2-4)] by blast
  with register_probe_spec [OF assms(1) len index_of_less [OF assms(1)] ne m(2), of ft]
  show ?thesis by auto
qed

text \<open>For an absent key the insertion probe names a free slot that the key's probe reaches.\<close>

lemma register_absent:
  assumes k: "k < 64" "table_ok k xs" "EMPTY \<in> set xs" "live key" "key \<notin> set xs"
  obtains i ft where
    "register_probe xs (2 ^ k) key (index_of (2 ^ k - 1) key) SIZE_MAX = Some (Inr (i, ft))"
    "unat i < 2 ^ k" "xs ! unat i = EMPTY" "reaches k xs key (unat i)"
    "ft = SIZE_MAX \<or> unat ft < 2 ^ k \<and> xs ! unat ft = TOMB \<and> reaches k xs key (unat ft)"
proof -
  let ?h = "home k key"
  have len: "length xs = 2 ^ k" and nk: "key \<noteq> EMPTY"
    using assms(2,4) by (simp_all add: table_ok_def live_def)
  obtain m where e: "visit k xs ?h m = EMPTY"
    and m: "\<forall>j < m. visit k xs ?h j \<noteq> EMPTY \<and> visit k xs ?h j \<noteq> key"
    using stop_absent [OF len assms(3,5)] by blast
  obtain ft where ft: "register_probe xs (2 ^ k) key (index_of (2 ^ k - 1) key) SIZE_MAX =
      Some (Inr (of_nat ((?h + m) mod 2 ^ k), ft))"
    "ft = SIZE_MAX \<or> (\<exists>j < m. unat ft = (?h + j) mod 2 ^ k \<and> visit k xs ?h j = TOMB)"
    using register_probe_spec [OF assms(1) len index_of_less [OF assms(1)] nk m, of SIZE_MAX] e nk
    by auto
  have r: "reaches k xs key ((?h + j) mod 2 ^ k)" if "j \<le> m" for j
    unfolding reaches_def using that m by (intro exI [of _ j]) auto
  have i: "unat (of_nat ((?h + m) mod 2 ^ k) :: u64) = (?h + m) mod 2 ^ k"
    by (rule key_index [OF assms(1)])
  show ?thesis
  proof (rule that [OF ft(1)])
    show "ft = SIZE_MAX \<or> unat ft < 2 ^ k \<and> xs ! unat ft = TOMB \<and> reaches k xs key (unat ft)"
      using ft(2) r by (auto simp: visit_def)
  qed (use i e r [of m] in \<open>simp_all add: visit_def\<close>)
qed

section \<open>Rehashing\<close>

lemma raw_insert_ok:
  assumes k: "k < 64" "table_ok k xs" "EMPTY \<in> set xs" "live key" "key \<notin> set xs"
  obtains p where "raw_insert xs (2 ^ k) key = Some (xs[p := key])" "p < 2 ^ k" "xs ! p = EMPTY"
    "table_ok k (xs[p := key])" "keys (xs[p := key]) = insert key (keys xs)"
proof -
  let ?h = "home k key"
  have len: "length xs = 2 ^ k" using assms(2) by (simp add: table_ok_def)
  obtain m where e: "visit k xs ?h m = EMPTY"
    and m: "\<forall>j < m. visit k xs ?h j \<noteq> EMPTY \<and> visit k xs ?h j \<noteq> key"
    using stop_absent [OF len assms(3,5)] by blast
  define p where "p = (?h + m) mod 2 ^ k"
  have p: "p < 2 ^ k" "xs ! p = EMPTY" using e by (simp_all add: p_def visit_def)
  have "probe_empty xs (2 ^ k) (index_of (2 ^ k - 1) key) = Some (of_nat p)"
    using probe_empty_spec [OF assms(1) len index_of_less [OF assms(1)] _ e] m by (simp add: p_def)
  then have ins: "raw_insert xs (2 ^ k) key = Some (xs[p := key])"
    by (simp add: raw_insert_def p_def key_index [OF assms(1)])
  have r: "reaches k xs key p" unfolding reaches_def p_def using m by blast
  have nl: "\<not> live (xs ! p)" using p by (simp add: live_def)
  show ?thesis
    using that [OF ins p] table_insert [OF assms(2) p(1) nl assms(4,5) r] by simp
qed

text \<open>Counting slots: a table with fewer occupied slots and tombstones than slots has an empty one.\<close>

lemma has_empty:
  assumes "card (live_slots xs) + card (tomb_slots xs) < length xs"
  shows "EMPTY \<in> set xs"
proof (rule ccontr)
  assume "EMPTY \<notin> set xs"
  then have "xs ! i \<noteq> EMPTY" if "i < length xs" for i using that by (metis nth_mem)
  then have "{..<length xs} \<subseteq> live_slots xs \<union> tomb_slots xs"
    by (auto simp: live_slots_def tomb_slots_def live_def)
  then have "length xs \<le> card (live_slots xs \<union> tomb_slots xs)"
    by (metis card_lessThan card_mono finite_UnI finite_slots(1) finite_slots(2))
  also have "\<dots> \<le> card (live_slots xs) + card (tomb_slots xs)" by (rule card_Un_le)
  finally show False using assms by simp
qed

lemma slots_le: "card (live_slots xs) + card (tomb_slots xs) \<le> length xs"
proof -
  have "live_slots xs \<inter> tomb_slots xs = {}"
    by (auto simp: live_slots_def tomb_slots_def live_def)
  then have "card (live_slots xs) + card (tomb_slots xs) = card (live_slots xs \<union> tomb_slots xs)"
    by (simp add: card_Un_disjoint)
  also have "\<dots> \<le> card {..<length xs}"
    by (rule card_mono) (auto simp: live_slots_def tomb_slots_def)
  finally show ?thesis by simp
qed

lemma no_tombs: "TOMB \<notin> set xs \<longleftrightarrow> tomb_slots xs = {}"
  by (auto simp: tomb_slots_def in_set_conv_nth)

lemma rehash_ok:
  assumes "k < 64" "table_ok k fresh" "TOMB \<notin> set fresh" "distinct (filter live old)"
    "set (filter live old) \<inter> keys fresh = {}"
    "card (live_slots fresh) + length (filter live old) < 2 ^ k"
  shows "\<exists>xs. rehash old (2 ^ k) fresh = Some xs \<and> table_ok k xs \<and> TOMB \<notin> set xs \<and>
    keys xs = keys fresh \<union> set (filter live old)"
  using assms(2-)
proof (induction old arbitrary: fresh)
  case (Cons x old)
  show ?case
  proof (cases "live x")
    case True
    have len: "length fresh = 2 ^ k" using Cons.prems(1) by (simp add: table_ok_def)
    have "tomb_slots fresh = {}" using Cons.prems(2) by (simp add: no_tombs)
    then have e: "EMPTY \<in> set fresh" using Cons.prems(5) len by (intro has_empty) simp
    have nx: "x \<notin> set fresh" using Cons.prems(4) True by (auto simp: keys_def)
    obtain p where p: "raw_insert fresh (2 ^ k) x = Some (fresh[p := x])" "p < 2 ^ k"
      "fresh ! p = EMPTY" "table_ok k (fresh[p := x])" "keys (fresh[p := x]) = insert x (keys fresh)"
      by (rule raw_insert_ok [OF assms(1) Cons.prems(1) e True nx])
    have "card (live_slots (fresh[p := x])) = Suc (card (live_slots fresh))"
      using card_keys [OF p(4)] card_keys [OF Cons.prems(1)] p(5) nx
      by (simp add: keys_def)
    moreover have "TOMB \<notin> set (fresh[p := x])"
      using Cons.prems(2) True set_update_subset_insert [of fresh p x] by (auto simp: live_def)
    ultimately have "\<exists>xs. rehash old (2 ^ k) (fresh[p := x]) = Some xs \<and> table_ok k xs \<and>
        TOMB \<notin> set xs \<and> keys xs = keys (fresh[p := x]) \<union> set (filter live old)"
      using Cons.prems(3-5) True p(5) by (intro Cons.IH p(4)) auto
    then show ?thesis using True p(1,5) by (auto simp: live_def)
  next
    case False
    then show ?thesis using Cons.IH [OF Cons.prems(1,2)] Cons.prems(3-5) by (auto simp: live_def)
  qed
qed simp

lemma fresh_table:
  "table_ok k (replicate (2 ^ k) EMPTY)" "TOMB \<notin> set (replicate n EMPTY)"
  "keys (replicate (2 ^ k) EMPTY) = {}" "live_slots (replicate (2 ^ k) EMPTY) = {}"
  by (auto simp: table_ok_def keys_def live_slots_def live_def)

lemma table_live_list:
  assumes "table_ok k xs"
  shows "distinct (filter live xs)" "set (filter live xs) = keys xs"
    "length (filter live xs) = card (live_slots xs)"
proof -
  show "set (filter live xs) = keys xs" by (simp add: keys_def)
  show l: "length (filter live xs) = card (live_slots xs)"
    by (simp add: length_filter_conv_card live_slots_def)
  then show "distinct (filter live xs)"
    by (intro card_distinct) (simp add: \<open>set _ = _\<close> [unfolded keys_def] card_keys [OF assms, unfolded keys_def])
qed

lemma rehash_table:
  assumes "k < 64" "table_ok j xs" "card (live_slots xs) < 2 ^ k"
  obtains ys where "rehash xs (2 ^ k) (replicate (2 ^ k) EMPTY) = Some ys" "table_ok k ys"
    "tomb_slots ys = {}" "keys ys = keys xs" "card (live_slots ys) = card (live_slots xs)"
proof -
  have "\<exists>ys. rehash xs (2 ^ k) (replicate (2 ^ k) EMPTY) = Some ys \<and> table_ok k ys \<and>
      TOMB \<notin> set ys \<and> keys ys = keys (replicate (2 ^ k) EMPTY) \<union> set (filter live xs)"
    using assms(3) table_live_list [OF assms(2)]
    by (intro rehash_ok [OF assms(1)]) (simp_all add: fresh_table)
  then obtain ys where ys: "rehash xs (2 ^ k) (replicate (2 ^ k) EMPTY) = Some ys" "table_ok k ys"
      "TOMB \<notin> set ys" "keys ys = keys xs"
    using table_live_list(2) [OF assms(2)] by (auto simp: fresh_table(3))
  then show ?thesis using that card_keys [OF ys(2)] card_keys [OF assms(2)] by (simp add: no_tombs)
qed

section \<open>The invariant and what the operations do\<close>

definition reg_inv :: "Registry \<Rightarrow> bool" where
  "reg_inv r \<longleftrightarrow> (case rg_slots r of
       None \<Rightarrow> rg_cap r = 0 \<and> rg_size r = 0 \<and> rg_tombs r = 0
     | Some (p, xs) \<Rightarrow> p \<noteq> 0 \<and> (\<exists>k. 10 \<le> k \<and> k \<le> 60 \<and> rg_cap r = 2 ^ k \<and> table_ok k xs \<and>
         unat (rg_size r) = card (live_slots xs) \<and> unat (rg_tombs r) = card (tomb_slots xs)))"

definition reg_keys :: "Registry \<Rightarrow> addr set" where
  "reg_keys r = (case rg_slots r of None \<Rightarrow> {} | Some (p, xs) \<Rightarrow> keys xs)"

text \<open>An empty slot is left; the load stays below 0.7; two empty slots are left.\<close>

definition roomy :: "Registry \<Rightarrow> bool" where
  "roomy r \<longleftrightarrow> rg_slots r = None \<or> unat (rg_size r) + unat (rg_tombs r) < unat (rg_cap r)"

definition load_ok :: "Registry \<Rightarrow> bool" where
  "load_ok r \<longleftrightarrow> rg_slots r = None \<or>
     (unat (rg_size r) + unat (rg_tombs r)) * 10 < unat (rg_cap r) * 7"

definition slack :: "Registry \<Rightarrow> bool" where
  "slack r \<longleftrightarrow> rg_slots r = None \<or> unat (rg_size r) + unat (rg_tombs r) + 1 < unat (rg_cap r)"

lemma slack_roomy: "slack r \<Longrightarrow> roomy r"
  by (auto simp: slack_def roomy_def)

lemma load_ok_slack:
  assumes "reg_inv r" "load_ok r"
  shows "slack r"
proof (cases "rg_slots r")
  case (Some px)
  then obtain k where "10 \<le> k" "k \<le> 60" "rg_cap r = 2 ^ k" using assms(1) by (auto simp: reg_inv_def split: prod.splits)
  then have "unat (rg_cap r) \<ge> 2 ^ 10" using power_increasing [of 10 k "2 :: nat"] by (simp add: unat_exp_u64)
  then show ?thesis using assms(2) Some by (simp add: load_ok_def slack_def)
qed (simp add: slack_def)

lemma load_ok_roomy: "load_ok r \<Longrightarrow> roomy r"
  by (auto simp: load_ok_def roomy_def)

lemma reg_inv_init [simp]: "reg_inv init_registry" "reg_keys init_registry = {}" "load_ok init_registry"
  by (simp_all add: reg_inv_def init_registry_def reg_keys_def load_ok_def)

lemma reg_inv_table:
  assumes "reg_inv r" "rg_slots r = Some (p, xs)"
  obtains k where "10 \<le> k" "k \<le> 60" "k < 64" "rg_cap r = 2 ^ k" "unat (rg_cap r) = 2 ^ k" "table_ok k xs"
    "unat (rg_size r) = card (live_slots xs)" "unat (rg_tombs r) = card (tomb_slots xs)" "p \<noteq> 0"
    "roomy r \<Longrightarrow> EMPTY \<in> set xs"
proof -
  obtain k where k: "10 \<le> k" "k \<le> 60" "rg_cap r = 2 ^ k" "table_ok k xs"
    "unat (rg_size r) = card (live_slots xs)" "unat (rg_tombs r) = card (tomb_slots xs)" "p \<noteq> 0"
    using assms by (auto simp: reg_inv_def)
  have c: "unat (rg_cap r) = 2 ^ k" using k(2,3) by (simp add: unat_exp_u64)
  have "EMPTY \<in> set xs" if "roomy r"
    using that assms(2) c k(4-6) by (intro has_empty) (simp add: roomy_def table_ok_def)
  with that k c show ?thesis by simp
qed

lemma owns_spec:
  assumes "reg_inv r" "roomy r" "live b"
  shows "region_owns b r = Some (b \<in> reg_keys r)"
proof (cases "rg_slots r")
  case None
  then show ?thesis by (simp add: region_owns_def reg_keys_def)
next
  case (Some px)
  obtain p xs where px: "rg_slots r = Some (p, xs)" using Some by (cases px) simp
  obtain k where k: "k < 64" "rg_cap r = 2 ^ k" "table_ok k xs" "EMPTY \<in> set xs"
    by (rule reg_inv_table [OF assms(1) px]) (use assms(2) in blast)
  have b: "b \<in> keys xs \<longleftrightarrow> b \<in> set xs" using assms(3) by (simp add: keys_def)
  show ?thesis
  proof (cases "b \<in> set xs")
    case True
    obtain i where "find_probe xs (2 ^ k) b (index_of (2 ^ k - 1) b) = Some (Some i)"
      by (rule find_present [OF k(1,3) assms(3) True])
    then show ?thesis using px k(2) b True by (simp add: region_owns_def reg_keys_def)
  next
    case False
    then show ?thesis using px k(2) b find_absent [OF k(1,3,4) assms(3) False]
      by (simp add: region_owns_def reg_keys_def)
  qed
qed

lemma tomb_update:
  assumes "p < length xs"
  shows "live (xs ! p) \<Longrightarrow> card (tomb_slots (xs[p := TOMB])) = Suc (card (tomb_slots xs))"
    "xs ! p = EMPTY \<Longrightarrow> v \<noteq> TOMB \<Longrightarrow> tomb_slots (xs[p := v]) = tomb_slots xs"
    "xs ! p = TOMB \<Longrightarrow> v \<noteq> TOMB \<Longrightarrow> card (tomb_slots xs) = Suc (card (tomb_slots (xs[p := v])))"
proof -
  have "tomb_slots (xs[p := TOMB]) = insert p (tomb_slots xs)"
    using assms by (auto simp: tomb_slots_def nth_list_update)
  then show "live (xs ! p) \<Longrightarrow> card (tomb_slots (xs[p := TOMB])) = Suc (card (tomb_slots xs))"
    by (simp add: tomb_slots_def live_def)
  have v: "tomb_slots (xs[p := v]) = tomb_slots xs - {p}" if "v \<noteq> TOMB"
    using assms that by (auto simp: tomb_slots_def nth_list_update)
  then show "xs ! p = EMPTY \<Longrightarrow> v \<noteq> TOMB \<Longrightarrow> tomb_slots (xs[p := v]) = tomb_slots xs"
    by (auto simp: tomb_slots_def)
  show "card (tomb_slots xs) = Suc (card (tomb_slots (xs[p := v])))" if "xs ! p = TOMB" "v \<noteq> TOMB"
  proof -
    have "p \<in> tomb_slots xs" using that(1) assms by (simp add: tomb_slots_def)
    then show ?thesis unfolding v [OF that(2)] by (metis card_Suc_Diff1 finite_slots(2))
  qed
qed

lemma live_delete:
  assumes "table_ok k xs" "p < 2 ^ k" "live (xs ! p)"
  shows "card (live_slots xs) = Suc (card (live_slots (xs[p := TOMB])))"
proof -
  have len: "length xs = 2 ^ k" using assms(1) by (simp add: table_ok_def)
  have "live_slots (xs[p := TOMB]) = live_slots xs - {p}"
    using assms(2) len by (auto simp: live_slots_def nth_list_update live_def)
  moreover have "p \<in> live_slots xs" using assms len by (simp add: live_slots_def)
  ultimately show ?thesis by (metis card_Suc_Diff1 finite_slots(1))
qed

lemma unregister_spec:
  assumes "reg_inv r" "roomy r" "live b"
  obtains r' where "region_unregister b r = Some r'" "reg_inv r'" "reg_keys r' = reg_keys r - {b}"
    "rg_cap r' = rg_cap r" "unat (rg_size r') + unat (rg_tombs r') = unat (rg_size r) + unat (rg_tombs r)"
    "rg_slots r' = None \<longleftrightarrow> rg_slots r = None"
proof (cases "rg_slots r")
  case None
  then show ?thesis using that [of r] assms(1) by (simp add: region_unregister_def reg_keys_def)
next
  case (Some px)
  obtain p xs where px: "rg_slots r = Some (p, xs)" using Some by (cases px) simp
  obtain k where k: "10 \<le> k" "k \<le> 60" "k < 64" "rg_cap r = 2 ^ k" "table_ok k xs" "EMPTY \<in> set xs"
    "unat (rg_size r) = card (live_slots xs)" "unat (rg_tombs r) = card (tomb_slots xs)" "p \<noteq> 0"
    by (rule reg_inv_table [OF assms(1) px]) (use assms(2) in blast)
  have len: "length xs = 2 ^ k" using k(5) by (simp add: table_ok_def)
  show ?thesis
  proof (cases "b \<in> set xs")
    case False
    then show ?thesis using that [of r] assms px k find_absent [OF k(3,5,6) assms(3) False]
      by (simp add: region_unregister_def reg_keys_def keys_def)
  next
    case True
    obtain i where i: "find_probe xs (2 ^ k) b (index_of (2 ^ k - 1) b) = Some (Some i)"
      "unat i < 2 ^ k" "xs ! unat i = b" by (rule find_present [OF k(3,5) assms(3) True])
    have lv: "live (xs ! unat i)" using i(3) assms(3) by simp
    let ?r = "r\<lparr>rg_slots := Some (p, xs[unat i := TOMB]), rg_size := rg_size r - 1,
      rg_tombs := rg_tombs r + 1\<rparr>"
    have l: "card (live_slots xs) = Suc (card (live_slots (xs[unat i := TOMB])))"
      by (rule live_delete [OF k(5) i(2) lv])
    have t: "card (tomb_slots (xs[unat i := TOMB])) = Suc (card (tomb_slots xs))"
      using tomb_update(1) [of "unat i" xs] i(2) lv len by simp
    have "(2 :: nat) ^ k \<le> 2 ^ 60" using k(2) by (rule power_increasing) simp
    then have "card (tomb_slots xs) < 2 ^ 63" using slots_le [of xs] len by simp
    then have s: "unat (rg_size r - 1) = card (live_slots (xs[unat i := TOMB]))"
      "unat (rg_tombs r + 1) = card (tomb_slots (xs[unat i := TOMB]))"
      using l t k(7,8) by (simp_all add: unat_add_nowrap unat_diff_nowrap word_le_nat_alt)
    have "reg_inv ?r"
      using k(1,2,4,9) s table_delete(1) [OF k(5) i(2) lv] by (auto simp: reg_inv_def)
    moreover have "reg_keys ?r = reg_keys r - {b}"
      using px table_delete(2) [OF k(5) i(2) lv] i(3) by (simp add: reg_keys_def)
    moreover have "region_unregister b r = Some ?r" using px k(4) i(1) by (simp add: region_unregister_def)
    ultimately show ?thesis using that [of ?r] s l t k(7,8) px by simp
  qed
qed

text \<open>Insertion into a table with room.\<close>

lemma slot_fill:
  assumes inv: "reg_inv r" "rg_slots r = Some (p, xs)" "rg_cap r = 2 ^ k" "k \<le> 60" "10 \<le> k" "table_ok k xs"
    and q: "q < 2 ^ k" "\<not> live (xs ! q)" and b: "live b" "b \<notin> set xs" "reaches k xs b q"
    and t: "unat t = card (tomb_slots (xs[q := b]))"
  defines "r' \<equiv> r\<lparr>rg_slots := Some (p, xs[q := b]), rg_tombs := t, rg_size := rg_size r + 1\<rparr>"
  shows "reg_inv r'" "reg_keys r' = insert b (reg_keys r)" "unat (rg_size r') = Suc (unat (rg_size r))"
proof -
  note ins = table_insert [OF inv(6) q b]
  have len: "length xs = 2 ^ k" using inv(6) by (simp add: table_ok_def)
  have "2 ^ k \<le> (2 :: nat) ^ 60" using inv(4) by (rule power_increasing) simp
  then have "card (live_slots xs) < 2 ^ 63" using slots_le [of xs] len by simp
  moreover have sz: "unat (rg_size r) = card (live_slots xs)" "p \<noteq> 0"
    using inv(1,2) by (auto simp: reg_inv_def)
  ultimately show s: "unat (rg_size r') = Suc (unat (rg_size r))"
    by (simp add: r'_def unat_add_nowrap)
  have "card (live_slots (xs[q := b])) = Suc (card (live_slots xs))"
    using card_keys [OF ins(1)] card_keys [OF inv(6)] b(2) ins(2) by (simp add: keys_def)
  then show "reg_inv r'" using s sz inv(3-5) ins(1) t by (auto simp: reg_inv_def r'_def)
  show "reg_keys r' = insert b (reg_keys r)" using inv(2) ins(2) by (simp add: reg_keys_def r'_def)
qed

lemma insert_spec:
  assumes "reg_inv r" "roomy r" "rg_slots r \<noteq> None" "live b"
  obtains r' where "register_insert b r = Some r'" "reg_inv r'" "reg_keys r' = insert b (reg_keys r)"
    "rg_cap r' = rg_cap r" "rg_slots r' \<noteq> None"
    "unat (rg_size r') + unat (rg_tombs r') \<le> Suc (unat (rg_size r) + unat (rg_tombs r))"
    "rg_tombs r = 0 \<Longrightarrow> rg_tombs r' = 0"
    "b \<notin> reg_keys r \<Longrightarrow> unat (rg_size r') = Suc (unat (rg_size r))"
proof -
  obtain p xs where px: "rg_slots r = Some (p, xs)" using assms(3) by auto
  obtain k where k: "10 \<le> k" "k \<le> 60" "k < 64" "rg_cap r = 2 ^ k" "table_ok k xs" "EMPTY \<in> set xs"
    "unat (rg_tombs r) = card (tomb_slots xs)"
    by (rule reg_inv_table [OF assms(1) px]) (use assms(2) in blast)
  have len: "length xs = 2 ^ k" using k(5) by (simp add: table_ok_def)
  show ?thesis
  proof (cases "b \<in> set xs")
    case True
    then show ?thesis using that [of r] assms px k(4) register_present [OF k(3,5) assms(4) True, of SIZE_MAX]
      by (simp add: register_insert_def reg_keys_def keys_def insert_absorb)
  next
    case False
    obtain i ft where
      i: "register_probe xs (2 ^ k) b (index_of (2 ^ k - 1) b) SIZE_MAX = Some (Inr (i, ft))"
        "unat i < 2 ^ k" "xs ! unat i = EMPTY" "reaches k xs b (unat i)"
      and ft: "ft = SIZE_MAX \<or> unat ft < 2 ^ k \<and> xs ! unat ft = TOMB \<and> reaches k xs b (unat ft)"
      by (rule register_absent [OF k(3,5,6) assms(4) False])
    have nb: "b \<noteq> TOMB" using assms(4) by (simp add: live_def)
    note fill = slot_fill [OF assms(1) px k(4,2,1,5) _ _ assms(4) False]
    show ?thesis
    proof (cases "ft = SIZE_MAX")
      case True
      have "tomb_slots (xs[unat i := b]) = tomb_slots xs"
        using tomb_update(2) [of "unat i" xs b] i(2,3) nb len by simp
      then have t: "unat (rg_tombs r) = card (tomb_slots (xs[unat i := b]))" using k(7) by simp
      note f = fill [OF i(2) _ i(4) t]
      show ?thesis
        using that [of "r\<lparr>rg_slots := Some (p, xs[unat i := b]), rg_size := rg_size r + 1\<rparr>"]
          True px k(4) i(1,3) f by (simp add: register_insert_def live_def)
    next
      case False
      then have q: "unat ft < 2 ^ k" "xs ! unat ft = TOMB" "reaches k xs b (unat ft)" using ft by auto
      have c: "card (tomb_slots xs) = Suc (card (tomb_slots (xs[unat ft := b])))"
        using tomb_update(3) [of "unat ft" xs b] q nb len by simp
      then have t: "unat (rg_tombs r - 1) = card (tomb_slots (xs[unat ft := b]))"
        using k(7) by (simp add: unat_diff_nowrap word_le_nat_alt)
      note f = fill [OF q(1) _ q(3) t]
      have "rg_tombs r \<noteq> 0" using c k(7) by auto
      then show ?thesis
        using that [of "r\<lparr>rg_slots := Some (p, xs[unat ft := b]), rg_tombs := rg_tombs r - 1,
            rg_size := rg_size r + 1\<rparr>"]
          False px k(4,7) i(1) q(2) f t c by (simp add: register_insert_def live_def)
    qed
  qed
qed

text \<open>A table of \<open>2 ^ 61\<close> slots has a byte size that wraps to zero, so it is never granted.\<close>

lemma alloc_slots_zero: "n * 8 = 0 \<Longrightarrow> fst (alloc_slots K n s) = 0"
  by (simp add: alloc_slots_def os_alloc_aligned_def slots_bytes_def Let_def)

lemma alloc_slots_bound:
  assumes "fst (alloc_slots K (2 ^ k) s) \<noteq> 0" "k \<le> 61"
  shows "k \<le> 60"
proof (rule ccontr)
  assume "\<not> k \<le> 60"
  then have "k = 61" using assms(2) by simp
  then have "(2 :: u64) ^ k * 8 = 0" by simp
  then show False using alloc_slots_zero assms(1) by simp
qed

lemma grow_refused: "fst (alloc_slots K n s) = 0 \<Longrightarrow> grow_locked K r n s = Some (r, snd (alloc_slots K n s))"
  by (simp add: grow_locked_def split_beta)

lemma grow_granted:
  assumes "reg_inv r" "10 \<le> k" "k \<le> 61" "unat (rg_size r) < 2 ^ k"
    "fst (alloc_slots K (2 ^ k) s) \<noteq> 0"
  obtains r' s' where "grow_locked K r (2 ^ k) s = Some (r', s')" "reg_inv r'" "rg_slots r' \<noteq> None"
    "reg_keys r' = reg_keys r" "rg_cap r' = 2 ^ k" "rg_size r' = rg_size r" "rg_tombs r' = 0"
proof -
  have k: "k \<le> 60" "k < 64" using alloc_slots_bound [OF assms(5,3)] by simp_all
  obtain p s1 where a: "alloc_slots K (2 ^ k) s = (p, s1)" "p \<noteq> 0" using assms(5) by (cases "alloc_slots K (2 ^ k) s") simp
  let ?old = "case rg_slots r of None \<Rightarrow> [] | Some (p, xs) \<Rightarrow> xs"
  have "\<exists>ys. rehash ?old (2 ^ k) (replicate (2 ^ k) EMPTY) = Some ys \<and> table_ok k ys \<and>
      tomb_slots ys = {} \<and> keys ys = reg_keys r \<and> card (live_slots ys) = unat (rg_size r)"
  proof (cases "rg_slots r")
    case None
    have "tomb_slots (replicate (2 ^ k) EMPTY) = {}" by (auto simp: tomb_slots_def)
    then show ?thesis using None assms(1) by (simp add: fresh_table reg_keys_def reg_inv_def)
  next
    case (Some px)
    obtain p xs where px: "rg_slots r = Some (p, xs)" using Some by (cases px) simp
    obtain j where "table_ok j xs" "unat (rg_size r) = card (live_slots xs)"
      by (rule reg_inv_table [OF assms(1) px])
    then obtain ys where "rehash xs (2 ^ k) (replicate (2 ^ k) EMPTY) = Some ys" "table_ok k ys"
        "tomb_slots ys = {}" "keys ys = keys xs" "card (live_slots ys) = unat (rg_size r)"
      using assms(4) rehash_table [OF k(2), of j xs] by metis
    then show ?thesis using px by (simp add: reg_keys_def)
  qed
  then obtain ys where ys: "rehash ?old (2 ^ k) (replicate (2 ^ k) EMPTY) = Some ys" "table_ok k ys"
      "tomb_slots ys = {}" "keys ys = reg_keys r" "card (live_slots ys) = unat (rg_size r)" by blast
  let ?r = "r\<lparr>rg_slots := Some (p, ys), rg_cap := 2 ^ k, rg_tombs := 0\<rparr>"
  have "\<exists>s'. grow_locked K r (2 ^ k) s = Some (?r, s')"
    using a ys(1) k by (simp add: grow_locked_def unat_exp_u64 Let_def)
  moreover have "reg_inv ?r" using ys k assms(2) a(2) by (auto simp: reg_inv_def)
  ultimately show ?thesis using that ys(4) by (auto simp: reg_keys_def)
qed

text \<open>The growth \<open>region_register\<close> asks for, and that the OS grants it.\<close>

definition register_grows :: "Registry \<Rightarrow> u64 option" where
  "register_grows r =
     (if rg_slots r = None then Some 1024
      else if (rg_size r + rg_tombs r + 1) * 10 \<ge> rg_cap r * 7
      then Some (if rg_size r * 2 \<ge> rg_cap r then rg_cap r * 2 else rg_cap r) else None)"

definition slots_granted :: "kernel \<Rightarrow> Registry \<Rightarrow> os_state \<Rightarrow> bool" where
  "slots_granted K r s \<longleftrightarrow> (\<forall>n. register_grows r = Some n \<longrightarrow> fst (alloc_slots K n s) \<noteq> 0)"

text \<open>The load test of the code in natural numbers.\<close>

lemma load_test:
  assumes "reg_inv r" "rg_slots r = Some (p, xs)"
  shows "(rg_size r + rg_tombs r + 1) * 10 \<ge> rg_cap r * 7 \<longleftrightarrow>
      unat (rg_cap r) * 7 \<le> (unat (rg_size r) + unat (rg_tombs r) + 1) * 10"
    "rg_size r * 2 \<ge> rg_cap r \<longleftrightarrow> unat (rg_cap r) \<le> unat (rg_size r) * 2"
proof -
  obtain k where k: "k \<le> 60" "unat (rg_cap r) = 2 ^ k" "table_ok k xs"
    "unat (rg_size r) = card (live_slots xs)" "unat (rg_tombs r) = card (tomb_slots xs)"
    by (rule reg_inv_table [OF assms])
  have "2 ^ k \<le> (2 :: nat) ^ 60" using k(1) by (rule power_increasing) simp
  then have b: "unat (rg_cap r) \<le> 2 ^ 60" "unat (rg_size r) + unat (rg_tombs r) \<le> 2 ^ 60"
    using k slots_le [of xs] by (simp_all add: table_ok_def)
  have m: "unat (x * y) = unat x * unat y" if "unat x * unat y < 2 ^ 64" for x y :: u64
    using that by (simp add: unat_word_ariths)
  have "unat (rg_size r + rg_tombs r + 1) = unat (rg_size r) + unat (rg_tombs r) + 1"
    using b by (simp add: unat_add_nowrap)
  then show "(rg_size r + rg_tombs r + 1) * 10 \<ge> rg_cap r * 7 \<longleftrightarrow>
      unat (rg_cap r) * 7 \<le> (unat (rg_size r) + unat (rg_tombs r) + 1) * 10"
    using b m [of "rg_cap r" 7] m [of "rg_size r + rg_tombs r + 1" 10] by (simp add: word_le_nat_alt)
  show "rg_size r * 2 \<ge> rg_cap r \<longleftrightarrow> unat (rg_cap r) \<le> unat (rg_size r) * 2"
    using b m [of "rg_size r" 2] by (simp add: word_le_nat_alt)
qed

lemma room_granted:
  assumes "reg_inv r" "roomy r" "slots_granted K r s"
  obtains r' s' where "register_room K r s = Some (r', s')" "reg_inv r'" "rg_slots r' \<noteq> None"
    "reg_keys r' = reg_keys r"
    "(unat (rg_size r') + unat (rg_tombs r') + 1) * 10 < unat (rg_cap r') * 7"
    "unat (rg_size r') + unat (rg_tombs r') \<le> unat (rg_size r) + unat (rg_tombs r)"
proof (cases "rg_slots r")
  case None
  then have z: "rg_size r = 0" "rg_tombs r = 0" using assms(1) by (simp_all add: reg_inv_def)
  obtain r' s' where g: "grow_locked K r (2 ^ 10) s = Some (r', s')" "reg_inv r'" "rg_slots r' \<noteq> None"
    "reg_keys r' = reg_keys r" "rg_cap r' = 2 ^ 10" "rg_size r' = rg_size r" "rg_tombs r' = 0"
    by (rule grow_granted [OF assms(1), of 10])
      (use z assms(3) None in \<open>simp_all add: slots_granted_def register_grows_def\<close>)
  then have "register_room K r s = Some (r', s')" using None z by (simp add: register_room_def)
  then show ?thesis using that g z by simp
next
  case (Some px)
  obtain p xs where px: "rg_slots r = Some (p, xs)" using Some by (cases px) simp
  note test = load_test [OF assms(1) px]
  obtain k where k: "10 \<le> k" "k \<le> 60" "rg_cap r = 2 ^ k" "unat (rg_cap r) = 2 ^ k"
    by (rule reg_inv_table [OF assms(1) px])
  have room: "unat (rg_size r) < 2 ^ k" using assms(2) px k(4) by (simp add: roomy_def)
  have pos: "10 \<le> (2 :: nat) ^ k" using power_increasing [OF k(1), of "2 :: nat"] by simp
  show ?thesis
  proof (cases "(rg_size r + rg_tombs r + 1) * 10 \<ge> rg_cap r * 7")
    case False
    then show ?thesis using that [of r s] assms(1) px test(1) by (simp add: register_room_def)
  next
    case True
    define j where "j = (if rg_size r * 2 \<ge> rg_cap r then Suc k else k)"
    have n: "(if rg_size r * 2 \<ge> rg_cap r then rg_cap r * 2 else rg_cap r) = 2 ^ j"
      using k(3) by (simp add: j_def)
    then have al: "fst (alloc_slots K (2 ^ j) s) \<noteq> 0"
      using assms(3) True px unfolding slots_granted_def register_grows_def by simp
    obtain r' s' where g: "grow_locked K r (2 ^ j) s = Some (r', s')" "reg_inv r'" "rg_slots r' \<noteq> None"
      "reg_keys r' = reg_keys r" "rg_cap r' = 2 ^ j" "rg_size r' = rg_size r" "rg_tombs r' = 0"
      by (rule grow_granted [OF assms(1) _ _ _ al]) (use k room in \<open>simp_all add: j_def\<close>)
    have "j < 64" using k(2) by (simp add: j_def)
    then have "(unat (rg_size r) + 1) * 10 < 2 ^ j * 7"
      using room test(2) k(4) pos unfolding j_def by (cases "rg_size r * 2 \<ge> rg_cap r") simp_all
    moreover have "register_room K r s = Some (r', s')"
      using px True n g(1) unfolding register_room_def by simp
    ultimately show ?thesis using that g \<open>j < 64\<close> by (simp add: unat_exp_u64)
  qed
qed

lemma room_refused:
  assumes "reg_inv r" "\<not> slots_granted K r s"
  shows "\<exists>s'. register_room K r s = Some (r, s')"
proof (cases "rg_slots r")
  case None
  then have "grow_locked K r 1024 s = Some (r, snd (alloc_slots K 1024 s))"
    using assms(2) by (intro grow_refused) (simp add: slots_granted_def register_grows_def)
  then show ?thesis
    using None assms(1) grow_refused [OF alloc_slots_zero [of 0]]
    by (simp add: register_room_def reg_inv_def)
next
  case (Some px)
  then obtain n where "register_grows r = Some n" "fst (alloc_slots K n s) = 0"
    using assms(2) by (auto simp: slots_granted_def)
  then show ?thesis using Some grow_refused [of K n s r]
    by (auto simp: register_room_def register_grows_def split: if_splits)
qed

lemma register_granted:
  assumes "reg_inv r" "roomy r" "slots_granted K r s" "live b"
  obtains r' s' where "region_register K b r s = Some (r', s')" "reg_inv r'" "load_ok r'"
    "reg_keys r' = insert b (reg_keys r)" "rg_slots r' \<noteq> None"
    "unat (rg_size r') + unat (rg_tombs r') \<le> Suc (unat (rg_size r) + unat (rg_tombs r))"
proof -
  obtain r1 s1 where 1: "register_room K r s = Some (r1, s1)" "reg_inv r1" "rg_slots r1 \<noteq> None"
    "reg_keys r1 = reg_keys r"
    "(unat (rg_size r1) + unat (rg_tombs r1) + 1) * 10 < unat (rg_cap r1) * 7"
    "unat (rg_size r1) + unat (rg_tombs r1) \<le> unat (rg_size r) + unat (rg_tombs r)"
    by (rule room_granted [OF assms(1-3)])
  have "roomy r1" using 1(5) by (simp add: roomy_def)
  then obtain r' where 2: "register_insert b r1 = Some r'" "reg_inv r'" "reg_keys r' = insert b (reg_keys r1)"
    "rg_cap r' = rg_cap r1" "rg_slots r' \<noteq> None"
    "unat (rg_size r') + unat (rg_tombs r') \<le> Suc (unat (rg_size r1) + unat (rg_tombs r1))"
    by (metis insert_spec [OF 1(2) _ 1(3) assms(4)])
  have "load_ok r'" using 1(5) 2(4,6) by (simp add: load_ok_def)
  with that 1 2 show ?thesis by (simp add: region_register_def)
qed

lemma register_refused:
  assumes "reg_inv r" "\<not> slots_granted K r s"
  obtains s' where "region_register K b r s = map_option (\<lambda>r. (r, s')) (register_insert b r)"
proof -
  obtain s' where "register_room K r s = Some (r, s')" using room_refused [OF assms] by blast
  then have "region_register K b r s = map_option (\<lambda>r. (r, s')) (register_insert b r)"
    by (cases "register_insert b r") (simp_all add: region_register_def)
  then show ?thesis by (rule that)
qed

text \<open>The first registration leaves room for another.\<close>

lemma register_first:
  assumes "reg_inv r" "rg_slots r = None" "live b" "region_register K b r s = Some (r', s')"
  shows "slack r'"
proof (cases "slots_granted K r s")
  case True
  have "roomy r" using assms(2) by (simp add: roomy_def)
  then obtain r1 s1 where "region_register K b r s = Some (r1, s1)" "reg_inv r1" "load_ok r1"
    by (rule register_granted [OF assms(1) _ True assms(3)])
  then show ?thesis using load_ok_slack assms(4) by simp
next
  case False
  then obtain s1 where "register_room K r s = Some (r, s1)" using room_refused [OF assms(1)] by blast
  moreover have "register_insert b r = Some r" using assms(2) by (simp add: register_insert_def)
  ultimately show ?thesis using assms(2,4) by (simp add: region_register_def slack_def)
qed

lemma register_returns:
  assumes "reg_inv r" "roomy r" "live b"
  obtains r' s' where "region_register K b r s = Some (r', s')" "reg_inv r'"
    "reg_keys r \<subseteq> reg_keys r'" "reg_keys r' \<subseteq> insert b (reg_keys r)"
    "rg_slots r' = None \<or> reg_keys r' = insert b (reg_keys r)" "slots_granted K r s \<longrightarrow> load_ok r' \<and> rg_slots r' \<noteq> None"
    "slack r \<longrightarrow> roomy r'"
proof (cases "slots_granted K r s")
  case True
  obtain r' s' where "region_register K b r s = Some (r', s')" "reg_inv r'" "load_ok r'"
    "reg_keys r' = insert b (reg_keys r)" "rg_slots r' \<noteq> None"
    by (rule register_granted [OF assms(1,2) True assms(3)])
  then show thesis using that load_ok_roomy by blast
next
  case False
  obtain s' where e: "region_register K b r s = map_option (\<lambda>r. (r, s')) (register_insert b r)"
    by (rule register_refused [OF assms(1) False])
  show thesis
  proof (cases "rg_slots r = None")
    case True
    then have "register_insert b r = Some r" by (simp add: register_insert_def)
    then show thesis using that [of r s'] e True False assms(1,2) by auto
  next
    case n: False
    obtain r' where r': "register_insert b r = Some r'" "reg_inv r'" "reg_keys r' = insert b (reg_keys r)"
      "rg_cap r' = rg_cap r" "unat (rg_size r') + unat (rg_tombs r') \<le> Suc (unat (rg_size r) + unat (rg_tombs r))"
      by (rule insert_spec [OF assms(1,2) n assms(3)])
    have "slack r \<longrightarrow> roomy r'" using r'(4,5) n by (auto simp: slack_def roomy_def)
    then show thesis using that [of r' s'] e False r'(1-3) by auto
  qed
qed

lemma unregister_roomy:
  assumes "reg_inv r" "roomy r" "live b"
  obtains r' where "region_unregister b r = Some r'" "reg_inv r'" "reg_keys r' = reg_keys r - {b}"
    "roomy r'" "slack r \<longrightarrow> slack r'" "rg_slots r' = None \<longleftrightarrow> rg_slots r = None"
proof -
  obtain r' where "region_unregister b r = Some r'" "reg_inv r'" "reg_keys r' = reg_keys r - {b}"
    "rg_cap r' = rg_cap r" "unat (rg_size r') + unat (rg_tombs r') = unat (rg_size r) + unat (rg_tombs r)"
    "rg_slots r' = None \<longleftrightarrow> rg_slots r = None"
    by (rule unregister_spec [OF assms])
  then show thesis using that assms(2) by (simp add: roomy_def slack_def)
qed

text \<open>Fresh table memory reads as empty slots: the OS hands it out zero-filled.\<close>

lemma alloc_slots_reads_empty:
  assumes K: "kernel_ok K" and a: "alloc_slots K cap s = (p, s')" "p \<noteq> 0"
    and i: "unat i * 8 + 8 \<le> unat (slots_bytes K cap)"
  shows "load64 (mem s') (p + i * 8) = EMPTY"
proof -
  let ?n = "slots_bytes K cap"
  have z: "\<And>x. in_region p ?n x \<Longrightarrow> mem s' x = 0"
    using os_alloc_contract [OF K a(1) [unfolded alloc_slots_def]] a(2) by (simp add: os_granted_def)
  have i8: "unat (i * 8) = unat i * 8"
    using i unat_less_2_64 [of ?n] by (simp add: unat_word_ariths)
  have "in_region p ?n (p + i * 8 + k)" if "k < 8" for k
  proof -
    have "unat (i * 8 + k) = unat i * 8 + unat k"
      using i i8 that unat_less_2_64 [of ?n] by (simp add: unat_add_nowrap word_less_nat_alt)
    then show ?thesis using i that by (simp add: in_region_def word_less_nat_alt add.assoc)
  qed
  then have "load64 (mem s') (p + i * 8) = load64 (\<lambda>_. 0) (p + i * 8)"
    by (intro load64_cong) (simp add: z)
  then show ?thesis by (simp add: load64_def EMPTY_def)
qed

section \<open>The table's own memory\<close>

text \<open>The registry's table is one region of the OS; growing it swaps that region for another and
  leaves every other region alone.\<close>

definition reg_region :: "kernel \<Rightarrow> Registry \<Rightarrow> (addr \<times> u64) set" where
  "reg_region K r = (case rg_slots r of None \<Rightarrow> {} | Some (p, xs) \<Rightarrow> {(p, slots_bytes K (rg_cap r))})"

definition same_on :: "(addr \<times> u64) set \<Rightarrow> memory \<Rightarrow> memory \<Rightarrow> bool" where
  "same_on R m m' \<longleftrightarrow> (\<forall>q \<in> R. \<forall>x \<in> region_set q. m' x = m x)"

lemma same_on_refl [simp]: "same_on R m m"
  by (simp add: same_on_def)

lemma same_on_trans: "same_on R m m1 \<Longrightarrow> same_on R m1 m2 \<Longrightarrow> same_on R m m2"
  by (simp add: same_on_def)

lemma grow_tracks:
  assumes h: "os_holds K s (R \<union> reg_region K r)" "R \<inter> reg_region K r = {}"
    and e: "grow_locked K r n s = Some (r', s')"
  shows "os_holds K s' (R \<union> reg_region K r') \<and> R \<inter> reg_region K r' = {} \<and> same_on R (mem s) (mem s')"
proof -
  obtain a s1 where a: "alloc_slots K n s = (a, s1)" by fastforce
  then have al: "os_alloc_aligned K (slots_bytes K n) (os_page_size K) s = (a, s1)" by (simp add: alloc_slots_def)
  show ?thesis
  proof (cases "a = 0")
    case True
    then have "r' = r" "s' = s1" using e a by (simp_all add: grow_locked_def)
    then show ?thesis using os_holds_refused [OF h(1)] al True h(2) by (simp add: same_on_def)
  next
    case False
    note g = os_holds_alloc [OF h(1) al False]
    have m: "same_on R (mem s) (mem s1)" unfolding same_on_def using g(4) by blast
    have new: "(a, slots_bytes K n) \<notin> R \<union> reg_region K r"
      using g(4) region_set_nonempty [OF g(3), of a] by blast
    obtain tbl where r': "r' = r\<lparr>rg_slots := Some (a, tbl), rg_cap := n, rg_tombs := 0\<rparr>"
      and s': "s' = (case rg_slots r of None \<Rightarrow> s1 | Some (p, xs) \<Rightarrow> os_free K p (slots_bytes K (rg_cap r)) s1)"
      using e a False by (auto simp: grow_locked_def Let_def bind_eq_Some_conv)
    have rr: "reg_region K r' = {(a, slots_bytes K n)}" by (simp add: reg_region_def r')
    show ?thesis
    proof (cases "rg_slots r")
      case None
      then show ?thesis using g(1) m rr new s' by (auto simp: reg_region_def insert_commute)
    next
      case (Some px)
      then obtain p xs where px: "rg_slots r = Some (p, xs)" by (cases px) simp
      then have old: "reg_region K r = {(p, slots_bytes K (rg_cap r))}" by (simp add: reg_region_def)
      have "insert (a, slots_bytes K n) (R \<union> reg_region K r) - reg_region K r = R \<union> reg_region K r'"
        using h(2) new rr by auto
      then show ?thesis
        using os_holds_free [OF g(1), of p "slots_bytes K (rg_cap r)"] s' px old m new rr by simp
    qed
  qed
qed

lemma insert_region: "register_insert b r = Some r' \<Longrightarrow> reg_region K r' = reg_region K r"
proof -
  assume e: "register_insert b r = Some r'"
  show ?thesis
  proof (cases "rg_slots r")
    case None
    then show ?thesis using e by (simp add: register_insert_def)
  next
    case (Some px)
    obtain p xs where px: "rg_slots r = Some (p, xs)" using Some by (cases px) simp
    then obtain res where "register_probe xs (rg_cap r) b (index_of (rg_cap r - 1) b) SIZE_MAX = Some res"
      using e by (auto simp: register_insert_def bind_eq_Some_conv)
    then show ?thesis using e px
      by (cases res) (auto simp: register_insert_def reg_region_def split: prod.splits if_splits)
  qed
qed

lemma unregister_region: "region_unregister b r = Some r' \<Longrightarrow> reg_region K r' = reg_region K r"
  by (auto simp: region_unregister_def reg_region_def bind_eq_Some_conv split: option.splits)

lemma register_tracks:
  assumes h: "os_holds K s (R \<union> reg_region K r)" "R \<inter> reg_region K r = {}"
    and e: "region_register K b r s = Some (r', s')"
  shows "os_holds K s' (R \<union> reg_region K r') \<and> R \<inter> reg_region K r' = {} \<and> same_on R (mem s) (mem s')"
proof -
  obtain r1 s1 where 1: "register_room K r s = Some (r1, s1)" "register_insert b r1 = Some r'" "s1 = s'"
    using e by (auto simp: region_register_def bind_eq_Some_conv)
  obtain r0 s0 where 0: "(if rg_slots r = None then grow_locked K r 1024 s else Some (r, s)) = Some (r0, s0)"
    and 2: "(if (rg_size r0 + rg_tombs r0 + 1) * 10 \<ge> rg_cap r0 * 7
      then grow_locked K r0 (if rg_size r0 * 2 \<ge> rg_cap r0 then rg_cap r0 * 2 else rg_cap r0) s0
      else Some (r0, s0)) = Some (r1, s1)"
    using 1(1) unfolding register_room_def by (auto simp: bind_eq_Some_conv simp del: if_split)
  have h0: "os_holds K s0 (R \<union> reg_region K r0) \<and> R \<inter> reg_region K r0 = {} \<and> same_on R (mem s) (mem s0)"
    using 0 grow_tracks [OF h] h by (auto split: if_splits)
  have "os_holds K s1 (R \<union> reg_region K r1) \<and> R \<inter> reg_region K r1 = {} \<and> same_on R (mem s0) (mem s1)"
    using 2 grow_tracks [of K s0 R r0 _ r1 s1] h0 by (auto split: if_splits)
  then show ?thesis using h0 insert_region [OF 1(2)] 1(3) same_on_trans by metis
qed

section \<open>Ownership as a set\<close>

text \<open>
  The contract the override layer relies on: a registry is a set of region bases. The
  operations return (no probe loop runs forever) whenever table memory is granted where it
  is asked for. Runs of operations then compute the set the sequence describes.
\<close>

datatype reg_op = Register addr | Unregister addr

fun reg_spec :: "reg_op \<Rightarrow> addr set \<Rightarrow> addr set" where
  "reg_spec (Register b) R = insert b R"
| "reg_spec (Unregister b) R = R - {b}"

fun reg_step :: "(addr \<Rightarrow> 's \<Rightarrow> 's option) \<Rightarrow> (addr \<Rightarrow> 's \<Rightarrow> 's option) \<Rightarrow> reg_op \<Rightarrow> 's \<Rightarrow> 's option" where
  "reg_step register unregister (Register b) s = register b s"
| "reg_step register unregister (Unregister b) s = unregister b s"

fun reg_allowed :: "('s \<Rightarrow> bool) \<Rightarrow> reg_op \<Rightarrow> 's \<Rightarrow> bool" where
  "reg_allowed supplied (Register b) s \<longleftrightarrow> live b \<and> supplied s"
| "reg_allowed supplied (Unregister b) s \<longleftrightarrow> live b"

locale ownership =
  fixes register :: "addr \<Rightarrow> 's \<Rightarrow> 's option"
    and unregister :: "addr \<Rightarrow> 's \<Rightarrow> 's option"
    and owns :: "addr \<Rightarrow> 's \<Rightarrow> bool option"
    and invar :: "'s \<Rightarrow> bool"
    and members :: "'s \<Rightarrow> addr set"
    and supplied :: "'s \<Rightarrow> bool"
  assumes register_ok: "invar s \<Longrightarrow> supplied s \<Longrightarrow> live b \<Longrightarrow>
      \<exists>s'. register b s = Some s' \<and> invar s' \<and> members s' = insert b (members s)"
    and unregister_ok: "invar s \<Longrightarrow> live b \<Longrightarrow>
      \<exists>s'. unregister b s = Some s' \<and> invar s' \<and> members s' = members s - {b}"
    and owns_ok: "invar s \<Longrightarrow> live b \<Longrightarrow> owns b s = Some (b \<in> members s)"
begin

abbreviation step :: "reg_op \<Rightarrow> 's \<Rightarrow> 's option" where
  "step \<equiv> reg_step register unregister"

abbreviation allowed :: "reg_op \<Rightarrow> 's \<Rightarrow> bool" where
  "allowed \<equiv> reg_allowed supplied"

lemma step_ok:
  "invar s \<Longrightarrow> allowed op s \<Longrightarrow> \<exists>s'. step op s = Some s' \<and> invar s' \<and> members s' = reg_spec op (members s)"
  by (cases op) (auto simp: register_ok unregister_ok)

lemma run_refines:
  assumes "invar s" "guarded allowed step ops s"
  shows "\<exists>s'. run_ops step ops s = Some s' \<and> invar s' \<and> members s' = fold reg_spec ops (members s)"
  by (rule run_simulates [of invar s allowed step ops members reg_spec, OF assms step_ok])

lemma run_owns:
  assumes "invar s" "guarded allowed step ops s" "live b"
  shows "\<exists>s'. run_ops step ops s = Some s' \<and> owns b s' = Some (b \<in> fold reg_spec ops (members s))"
  using run_refines [OF assms(1,2)] owns_ok [OF _ assms(3)] by metis

lemma register_then_owns:
  assumes "invar s" "supplied s" "live b" "live c"
  shows "\<exists>s'. register b s = Some s' \<and> owns c s' = Some (c = b \<or> c \<in> members s)"
  using register_ok [OF assms(1-3)] owns_ok [OF _ assms(4)] by auto

lemma unregister_then_owns:
  assumes "invar s" "live b" "live c"
  shows "\<exists>s'. unregister b s = Some s' \<and> owns c s' = Some (c \<noteq> b \<and> c \<in> members s)"
  using unregister_ok [OF assms(1,2)] owns_ok [OF _ assms(3)] by auto

end

text \<open>The code's operations on the registry together with the OS state.\<close>

definition reg_register :: "kernel \<Rightarrow> addr \<Rightarrow> Registry \<times> os_state \<Rightarrow> (Registry \<times> os_state) option" where
  "reg_register K b = (\<lambda>(r, s). region_register K b r s)"

definition reg_unregister :: "addr \<Rightarrow> Registry \<times> os_state \<Rightarrow> (Registry \<times> os_state) option" where
  "reg_unregister b = (\<lambda>(r, s). map_option (\<lambda>r. (r, s)) (region_unregister b r))"

definition reg_owns :: "addr \<Rightarrow> Registry \<times> os_state \<Rightarrow> bool option" where
  "reg_owns b = (\<lambda>(r, s). region_owns b r)"

definition reg_supplied :: "kernel \<Rightarrow> Registry \<times> os_state \<Rightarrow> bool" where
  "reg_supplied K = (\<lambda>(r, s). slots_granted K r s)"

definition reg_ready :: "Registry \<times> os_state \<Rightarrow> bool" where
  "reg_ready = (\<lambda>(r, s). reg_inv r \<and> load_ok r)"

lemma reg_ops [simp]:
  "reg_register K b (r, s) = region_register K b r s"
  "reg_unregister b (r, s) = map_option (\<lambda>r. (r, s)) (region_unregister b r)"
  "reg_owns b (r, s) = region_owns b r" "reg_supplied K (r, s) = slots_granted K r s"
  by (simp_all add: reg_register_def reg_unregister_def reg_owns_def reg_supplied_def)

interpretation reg: ownership "reg_register K" reg_unregister reg_owns reg_ready
  "reg_keys \<circ> fst" "reg_supplied K" for K
proof (unfold_locales, goal_cases)
  case (1 s b)
  obtain r u where s: "s = (r, u)" by fastforce
  have inv: "reg_inv r" "load_ok r" "slots_granted K r u"
    using 1(1,2) s by (simp_all add: reg_ready_def reg_supplied_def)
  obtain r' s' where "region_register K b r u = Some (r', s')" "reg_inv r'" "load_ok r'"
    "reg_keys r' = insert b (reg_keys r)"
    by (rule register_granted [OF inv(1) load_ok_roomy [OF inv(2)] inv(3) 1(3)])
  with s show ?case by (simp add: reg_ready_def reg_register_def)
next
  case (2 s b)
  obtain r u where s: "s = (r, u)" by fastforce
  have inv: "reg_inv r" "load_ok r" using 2(1) s by (simp_all add: reg_ready_def)
  obtain r' where u: "region_unregister b r = Some r'" "reg_inv r'" "reg_keys r' = reg_keys r - {b}"
    "rg_cap r' = rg_cap r" "unat (rg_size r') + unat (rg_tombs r') = unat (rg_size r) + unat (rg_tombs r)"
    "rg_slots r' = None \<longleftrightarrow> rg_slots r = None"
    by (rule unregister_spec [OF inv(1) load_ok_roomy [OF inv(2)] 2(2)])
  have "load_ok r'" using inv(2) u(4-6) by (simp add: load_ok_def)
  with u s show ?case by (simp add: reg_unregister_def reg_ready_def)
next
  case (3 s b)
  then show ?case using owns_spec [OF _ load_ok_roomy, of "fst s" b]
    by (auto simp: reg_ready_def reg_owns_def split_beta)
qed

section \<open>Running out of table memory\<close>

text \<open>When growth is refused the code keeps the old table and goes on inserting.\<close>

lemma alloc_slots_calls:
  assumes "alloc_slots K n s = (p, s')"
  shows "syscalls s \<le> syscalls s'" "p \<noteq> 0 \<Longrightarrow> syscalls s < syscalls s'"
    "(\<forall>m. k_mmap K (syscalls s) m (slots_bytes K n) = None) \<Longrightarrow> p = 0"
  using assms
  by (auto simp: alloc_slots_def os_alloc_aligned_def os_page_size_def Let_def raw_mmap_def account_map_def
      split: if_splits option.splits)

lemma register_no_grant:
  assumes "reg_inv r" "\<forall>i m n. syscalls s \<le> i \<longrightarrow> k_mmap K i m n = None"
    "rg_slots r \<noteq> None"
  obtains s' where "region_register K b r s = map_option (\<lambda>r. (r, s')) (register_insert b r)"
    "syscalls s \<le> syscalls s'"
proof -
  have a: "fst (alloc_slots K n s) = 0" "syscalls s \<le> syscalls (snd (alloc_slots K n s))" for n
    using alloc_slots_calls [of K n s] assms(2) by (cases "alloc_slots K n s"; simp)+
  define s' where "s' = (case register_grows r of None \<Rightarrow> s | Some n \<Rightarrow> snd (alloc_slots K n s))"
  have "register_room K r s = Some (r, s')"
    using assms(3) grow_refused [OF a(1)]
    by (auto simp: register_room_def register_grows_def s'_def)
  moreover have "syscalls s \<le> syscalls s'" using a(2) by (auto simp: s'_def split: option.splits)
  ultimately show ?thesis
    using that [of s'] by (cases "register_insert b r") (simp_all add: region_register_def)
qed

abbreviation register_all :: "kernel \<Rightarrow> addr list \<Rightarrow> Registry \<times> os_state \<Rightarrow> (Registry \<times> os_state) option" where
  "register_all K \<equiv> run_ops (reg_register K)"

lemma fill_table:
  assumes "reg_inv r" "rg_slots r \<noteq> None" "rg_tombs r = 0"
    "unat (rg_size r) + length bs \<le> unat (rg_cap r)"
    "distinct bs" "set bs \<inter> reg_keys r = {}" "\<forall>b \<in> set bs. live b"
    "\<forall>i m n. syscalls s \<le> i \<longrightarrow> k_mmap K i m n = None"
  shows "\<exists>r' s'. register_all K bs (r, s) = Some (r', s') \<and> reg_inv r' \<and> rg_slots r' \<noteq> None \<and>
    rg_cap r' = rg_cap r \<and> unat (rg_size r') = unat (rg_size r) + length bs \<and>
    reg_keys r' = reg_keys r \<union> set bs \<and> syscalls s \<le> syscalls s'"
  using assms
proof (induction bs arbitrary: r s)
  case (Cons b bs)
  have lb: "live b" "b \<notin> reg_keys r" and "roomy r" using Cons.prems by (simp_all add: roomy_def)
  obtain s1 where s1: "region_register K b r s = map_option (\<lambda>r. (r, s1)) (register_insert b r)"
    "syscalls s \<le> syscalls s1" by (rule register_no_grant [OF Cons.prems(1,8,2)])
  obtain r1 where r1: "register_insert b r = Some r1" "reg_inv r1" "reg_keys r1 = insert b (reg_keys r)"
    "rg_cap r1 = rg_cap r" "rg_slots r1 \<noteq> None" "rg_tombs r1 = 0" "unat (rg_size r1) = Suc (unat (rg_size r))"
    using insert_spec [OF Cons.prems(1) \<open>roomy r\<close> Cons.prems(2) lb(1)] lb(2) Cons.prems(3) by metis
  have "\<exists>r' s'. register_all K bs (r1, s1) = Some (r', s') \<and> reg_inv r' \<and> rg_slots r' \<noteq> None \<and>
      rg_cap r' = rg_cap r1 \<and> unat (rg_size r') = unat (rg_size r1) + length bs \<and>
      reg_keys r' = reg_keys r1 \<union> set bs \<and> syscalls s1 \<le> syscalls s'"
    using r1 s1 Cons.prems by (intro Cons.IH) auto
  with r1 s1 show ?case by (fastforce simp: reg_register_def)
qed simp

lemma full_no_empty:
  assumes "reg_inv r" "rg_slots r = Some (p, xs)" "unat (rg_size r) = unat (rg_cap r)"
  shows "EMPTY \<notin> set xs"
proof
  assume "EMPTY \<in> set xs"
  then obtain i where i: "i < length xs" "xs ! i = EMPTY" by (metis in_set_conv_nth)
  obtain k where k: "table_ok k xs" "unat (rg_cap r) = 2 ^ k" "unat (rg_size r) = card (live_slots xs)"
    by (rule reg_inv_table [OF assms(1,2)])
  have "live_slots xs \<subseteq> {..<length xs} - {i}" using i by (auto simp: live_slots_def live_def)
  then have "card (live_slots xs) \<le> card ({..<length xs} - {i})" by (rule card_mono [rotated]) simp
  also have "\<dots> < length xs" using i(1) by simp
  finally show False using assms(3) k by (simp add: table_ok_def)
qed

lemma full_diverges:
  assumes "reg_inv r" "rg_slots r \<noteq> None" "unat (rg_size r) = unat (rg_cap r)" "b \<notin> reg_keys r" "live b"
  shows "region_owns b r = None" "region_unregister b r = None" "register_insert b r = None"
proof -
  obtain p xs where px: "rg_slots r = Some (p, xs)" using assms(2) by auto
  have e: "EMPTY \<notin> set xs" "b \<notin> set xs"
    using full_no_empty [OF assms(1) px assms(3)] assms(4,5) px by (simp_all add: reg_keys_def keys_def)
  show "region_owns b r = None" "region_unregister b r = None" "register_insert b r = None"
    using px find_probe_diverges [OF e] register_probe_diverges [OF e]
    by (simp_all add: region_owns_def region_unregister_def register_insert_def)
qed

lemma full_run:
  assumes "fst (alloc_slots K 1024 s) \<noteq> 0" "\<forall>i m n. syscalls s < i \<longrightarrow> k_mmap K i m n = None"
    "length bs = 1024" "distinct bs" "\<forall>b \<in> set bs. live b"
  shows "\<exists>r s'. register_all K bs (init_registry, s) = Some (r, s') \<and>
    (\<forall>b. live b \<and> b \<notin> set bs \<longrightarrow>
       region_owns b r = None \<and> region_unregister b r = None \<and> region_register K b r s' = None)"
proof -
  obtain r0 s0 where g: "grow_locked K init_registry (2 ^ 10) s = Some (r0, s0)" "reg_inv r0" "rg_slots r0 \<noteq> None"
    "reg_keys r0 = {}" "rg_cap r0 = 2 ^ 10" "rg_size r0 = 0" "rg_tombs r0 = 0"
    by (rule grow_granted [of init_registry 10 K s]) (use assms(1) in \<open>simp_all add: init_registry_def reg_inv_def reg_keys_def\<close>)
  have c: "syscalls s < syscalls s0"
    using g(1) alloc_slots_calls(2) [of K 1024 s] assms(1)
    by (cases "alloc_slots K 1024 s") (auto simp: grow_locked_def init_registry_def)
  have first: "region_register K b init_registry s = region_register K b r0 s0" for b
    using g by (auto simp: region_register_def register_room_def init_registry_def)
  obtain b bs' where b: "bs = b # bs'" using assms(3) by (cases bs) auto
  then have "register_all K bs (init_registry, s) = register_all K bs (r0, s0)"
    using first by (simp add: reg_register_def)
  moreover have "\<exists>r s'. register_all K bs (r0, s0) = Some (r, s') \<and> reg_inv r \<and> rg_slots r \<noteq> None \<and>
      rg_cap r = rg_cap r0 \<and> unat (rg_size r) = unat (rg_size r0) + length bs \<and>
      reg_keys r = reg_keys r0 \<union> set bs \<and> syscalls s0 \<le> syscalls s'"
    using g c assms(2-5) by (intro fill_table) auto
  ultimately obtain r s' where r: "register_all K bs (init_registry, s) = Some (r, s')" "reg_inv r"
    "rg_slots r \<noteq> None" "unat (rg_size r) = unat (rg_cap r)" "reg_keys r = set bs" "syscalls s0 \<le> syscalls s'"
    using g assms(3) by auto
  have "region_owns b r = None \<and> region_unregister b r = None \<and> region_register K b r s' = None"
    if "live b" "b \<notin> set bs" for b
  proof -
    have rs: "\<forall>i m n. syscalls s' \<le> i \<longrightarrow> k_mmap K i m n = None" using assms(2) c r(6) by simp
    obtain s2 where "region_register K b r s' = map_option (\<lambda>r. (r, s2)) (register_insert b r)"
      by (rule register_no_grant [OF r(2) rs r(3)])
    then show ?thesis using full_diverges [OF r(2-4), of b] that r(5) by simp
  qed
  with r(1) show ?thesis by blast
qed

text \<open>The first table serves the first 700 operations: only the first of them asks the OS.\<close>

lemma small_granted:
  assumes "reg_inv r" "rg_slots r \<noteq> None" "unat (rg_size r) + unat (rg_tombs r) < 700"
  shows "slots_granted K r s"
proof -
  obtain p xs where px: "rg_slots r = Some (p, xs)" using assms(2) by auto
  obtain k where "10 \<le> k" "unat (rg_cap r) = 2 ^ k" by (rule reg_inv_table [OF assms(1) px])
  then have "1024 \<le> unat (rg_cap r)" using power_increasing [of 10 k "2 :: nat"] by simp
  then show ?thesis using assms(3) load_test(1) [OF assms(1) px] px
    by (simp add: slots_granted_def register_grows_def)
qed

lemma guarded_small:
  assumes "reg_inv r" "rg_slots r \<noteq> None" "unat (rg_size r) + unat (rg_tombs r) + length ops \<le> 700"
    "roomy r" "\<forall>op \<in> set ops. \<exists>b. live b \<and> (op = Register b \<or> op = Unregister b)"
  shows "guarded (reg_allowed (reg_supplied K)) (reg_step (reg_register K) reg_unregister) ops (r, s)"
  using assms
proof (induction ops arbitrary: r s)
  case (Cons op ops)
  have g: "slots_granted K r s" using Cons.prems(1-3) by (intro small_granted) simp_all
  obtain b where b: "live b" "op = Register b \<or> op = Unregister b" using Cons.prems(5) by auto
  from b(2) show ?case
  proof
    assume op: "op = Register b"
    obtain r' s' where r: "region_register K b r s = Some (r', s')" "reg_inv r'" "load_ok r'" "rg_slots r' \<noteq> None"
      "unat (rg_size r') + unat (rg_tombs r') \<le> Suc (unat (rg_size r) + unat (rg_tombs r))"
      by (rule register_granted [OF Cons.prems(1,4) g b(1)])
    have "guarded (reg_allowed (reg_supplied K)) (reg_step (reg_register K) reg_unregister) ops (r', s')"
      using r Cons.prems(3,5) by (intro Cons.IH) (simp_all add: load_ok_roomy)
    then show ?thesis using op b(1) g r(1) by simp
  next
    assume op: "op = Unregister b"
    obtain r' where r: "region_unregister b r = Some r'" "reg_inv r'" "rg_cap r' = rg_cap r"
      "unat (rg_size r') + unat (rg_tombs r') = unat (rg_size r) + unat (rg_tombs r)"
      "rg_slots r' = None \<longleftrightarrow> rg_slots r = None"
      by (rule unregister_spec [OF Cons.prems(1,4) b(1)])
    have "guarded (reg_allowed (reg_supplied K)) (reg_step (reg_register K) reg_unregister) ops (r', s)"
      using r Cons.prems(2-5) by (intro Cons.IH) (auto simp: roomy_def)
    then show ?thesis using op b(1) r(1) by simp
  qed
qed simp

lemma guarded_start:
  assumes "slots_granted K init_registry s" "length ops < 700" "live b"
    "\<forall>op \<in> set ops. \<exists>b. live b \<and> (op = Register b \<or> op = Unregister b)"
  shows "guarded (reg_allowed (reg_supplied K)) (reg_step (reg_register K) reg_unregister)
    (Register b # ops) (init_registry, s)"
proof -
  obtain r' s' where r: "region_register K b init_registry s = Some (r', s')" "reg_inv r'" "load_ok r'"
    "rg_slots r' \<noteq> None"
    "unat (rg_size r') + unat (rg_tombs r') \<le> Suc (unat (rg_size init_registry) + unat (rg_tombs init_registry))"
    by (rule register_granted [OF reg_inv_init(1) load_ok_roomy [OF reg_inv_init(3)] assms(1,3)])
  then have "guarded (reg_allowed (reg_supplied K)) (reg_step (reg_register K) reg_unregister) ops (r', s')"
    using assms(2,4) by (intro guarded_small load_ok_roomy) (simp_all add: init_registry_def)
  then show ?thesis using assms(1,3) r(1) by simp
qed

text \<open>Examples: a kernel that grants one mapping only, and region bases to register.\<close>

definition stingy_kernel :: kernel where
  "stingy_kernel = sample_kernel\<lparr>k_mmap := \<lambda>i m n. if i = 0 then k_mmap sample_kernel i m n else None\<rparr>"

lemma stingy_kernel_refuses:
  "fst (alloc_slots stingy_kernel 1024 sample_os) \<noteq> 0"
  "\<forall>i m n. syscalls sample_os < i \<longrightarrow> k_mmap stingy_kernel i m n = None"
proof -
  have "cached_page_size stingy_kernel = 4096"
    by (simp add: cached_page_size_def sample_kernel_def stingy_kernel_def)
  then show "fst (alloc_slots stingy_kernel 1024 sample_os) \<noteq> 0"
    by (simp add: alloc_slots_def slots_bytes_def os_alloc_aligned_def os_page_size_def
        is_pow2_def raw_mmap_def) (simp add: stingy_kernel_def sample_kernel_def sample_os_def Let_def)
qed (simp add: sample_os_def stingy_kernel_def)

definition sample_bases :: "nat \<Rightarrow> addr list" where
  "sample_bases n = map (\<lambda>i. of_nat (Suc i) * SEGMENT_SIZE) [0..<n]"

lemma sample_bases:
  assumes "n \<le> 1024"
  shows "length (sample_bases n) = n" "distinct (sample_bases n)"
    "\<forall>b \<in> set (sample_bases n). b \<noteq> EMPTY \<and> b \<noteq> TOMB" "2048 * SEGMENT_SIZE \<notin> set (sample_bases n)"
proof -
  have u: "unat (of_nat (Suc i) * SEGMENT_SIZE) = Suc i * 4194304" if "i < n" for i
    using that assms by (simp add: unat_word_ariths unsigned_of_nat take_bit_nat_eq_self)
  have m: "\<exists>i < n. unat b = Suc i * 4194304" if "b \<in> set (sample_bases n)" for b
    using that u by (auto simp: sample_bases_def simp del: of_nat_Suc)
  show "length (sample_bases n) = n" by (simp add: sample_bases_def)
  have "inj_on (\<lambda>i. of_nat (Suc i) * SEGMENT_SIZE :: u64) {0..<n}"
  proof (rule inj_onI)
    fix i j assume ij: "i \<in> {0..<n}" "j \<in> {0..<n}"
      "(of_nat (Suc i) * SEGMENT_SIZE :: u64) = of_nat (Suc j) * SEGMENT_SIZE"
    have "Suc i * 4194304 = Suc j * 4194304" using u [of i] u [of j] ij by (simp only: atLeastLessThan_iff)
    then show "i = j" by simp
  qed
  then show "distinct (sample_bases n)" by (simp add: sample_bases_def distinct_map)
  have v: "unat EMPTY = 0" "unat TOMB = 18446744073709551615" "unat (2048 * SEGMENT_SIZE) = 8589934592"
    by (simp_all add: EMPTY_def TOMB_def unsigned_minus_1_eq_mask mask_eq_exp_minus_1)
  show "\<forall>b \<in> set (sample_bases n). b \<noteq> EMPTY \<and> b \<noteq> TOMB"
  proof
    fix b assume "b \<in> set (sample_bases n)"
    then obtain i where "i < n" "unat b = Suc i * 4194304" using m by blast
    then show "b \<noteq> EMPTY \<and> b \<noteq> TOMB" using v assms by auto
  qed
  show "2048 * SEGMENT_SIZE \<notin> set (sample_bases n)"
  proof
    assume "2048 * SEGMENT_SIZE \<in> set (sample_bases n)"
    then obtain i where "i < n" "unat (2048 * SEGMENT_SIZE) = Suc i * 4194304" using m by blast
    then show False using v(3) assms by simp
  qed
qed

lemma sample_table: "slots_granted sample_kernel init_registry sample_os"
  by (simp add: slots_granted_def register_grows_def init_registry_def alloc_slots_def slots_bytes_def
      os_alloc_aligned_def sample_page_size os_page_size_def is_pow2_def raw_mmap_def)
    (simp add: sample_kernel_def sample_os_def Let_def)

section \<open>Properties of the registry\<close>

text \<open>C16: the registry is a set. Any sequence of registrations and unregistrations of region bases
  from the empty registry, with table memory granted where it is asked for, returns (every probe
  and rehash loop ends), leaves the load below 0.7, and \<open>region_owns\<close> then answers exactly
  whether a base was registered and not unregistered since.\<close>

theorem registry_is_a_set:
  assumes "guarded (reg_allowed (reg_supplied K)) (reg_step (reg_register K) reg_unregister)
      ops (init_registry, s)"
  shows "\<exists>r s'. run_ops (reg_step (reg_register K) reg_unregister) ops (init_registry, s) = Some (r, s') \<and>
    (\<forall>b. b \<noteq> EMPTY \<and> b \<noteq> TOMB \<longrightarrow> region_owns b r = Some (b \<in> fold reg_spec ops {})) \<and>
    (rg_slots r \<noteq> None \<longrightarrow>
       (unat (rg_size r) + unat (rg_tombs r)) * 10 < unat (rg_cap r) * 7)"
proof -
  have "reg_ready (init_registry, s)" by (simp add: reg_ready_def)
  from reg.run_refines [OF this assms] obtain r s' where
    r: "run_ops (reg_step (reg_register K) reg_unregister) ops (init_registry, s) = Some (r, s')"
      "reg_ready (r, s')" "reg_keys r = fold reg_spec ops {}"
    by fastforce
  then have "reg_inv r" "load_ok r" by (simp_all add: reg_ready_def)
  then show ?thesis
    using r owns_spec [OF \<open>reg_inv r\<close> load_ok_roomy [OF \<open>load_ok r\<close>]]
    by (auto simp: load_ok_def live_def)
qed

theorem registry_is_a_set_witness:
  "\<exists>r s'. run_ops (reg_step (reg_register sample_kernel) reg_unregister)
      [Register 0x400000, Register 0x800000, Unregister 0x400000] (init_registry, sample_os) = Some (r, s') \<and>
    region_owns 0x800000 r = Some True \<and> region_owns 0x400000 r = Some False"
proof -
  let ?ops = "[Register 0x400000, Register 0x800000, Unregister 0x400000]"
  have l: "live 0x400000" "live 0x800000" by (simp_all add: live_def EMPTY_def TOMB_def)
  then have "guarded (reg_allowed (reg_supplied sample_kernel))
      (reg_step (reg_register sample_kernel) reg_unregister) ?ops (init_registry, sample_os)"
    by (intro guarded_start sample_table) auto
  from registry_is_a_set [OF this] l show ?thesis by (fastforce simp: live_def)
qed

text \<open>C38: registration when table memory may be refused. From a table with a free slot
  \<open>region_register\<close> still returns and keeps the table well formed; it adds the base, except when
  no table could be allocated at all: then nothing is recorded and \<open>region_owns\<close> denies the region.\<close>

theorem registry_growth_refused:
  assumes "reg_inv r" "roomy r" "b \<noteq> EMPTY" "b \<noteq> TOMB"
  shows "\<exists>r' s'. region_register K b r s = Some (r', s') \<and> reg_inv r' \<and>
    (if rg_slots r' = None then r' = r \<and> region_owns b r' = Some False
     else reg_keys r' = insert b (reg_keys r))"
proof -
  have l: "live b" using assms(3,4) by (simp add: live_def)
  show ?thesis
  proof (cases "slots_granted K r s")
    case True
    then show ?thesis using register_granted [OF assms(1,2) True l] by metis
  next
    case False
    obtain s' where s': "region_register K b r s = map_option (\<lambda>r. (r, s')) (register_insert b r)"
      by (rule register_refused [OF assms(1) False])
    show ?thesis
    proof (cases "rg_slots r")
      case None
      then show ?thesis using s' assms(1) by (simp add: register_insert_def region_owns_def)
    next
      case (Some px)
      then have "rg_slots r \<noteq> None" by simp
      then obtain r' where "register_insert b r = Some r'" "reg_inv r'"
        "reg_keys r' = insert b (reg_keys r)" "rg_slots r' \<noteq> None"
        by (rule insert_spec [OF assms(1,2) _ l])
      then show ?thesis using s' by auto
    qed
  qed
qed

theorem registry_growth_refused_witness:
  "\<exists>r s'. region_register (sample_kernel\<lparr>k_mmap := \<lambda>i m n. None\<rparr>) 0x400000 init_registry sample_os = Some (r, s') \<and>
     region_owns 0x400000 r = Some False"
proof -
  let ?K = "sample_kernel\<lparr>k_mmap := \<lambda>i m n. None\<rparr>"
  have "(0x400000 :: u64) \<noteq> EMPTY" "(0x400000 :: u64) \<noteq> TOMB" "roomy init_registry"
    by (simp_all add: EMPTY_def TOMB_def load_ok_roomy)
  from registry_growth_refused [OF reg_inv_init(1) this(3,1,2), of ?K sample_os]
  obtain r' s' where r: "region_register ?K 0x400000 init_registry sample_os = Some (r', s')"
    "rg_slots r' = None \<Longrightarrow> region_owns 0x400000 r' = Some False" by (elim exE conjE) simp
  have z: "fst (alloc_slots ?K n s) = 0" for n s
    using alloc_slots_calls(3) [of ?K n s] by (cases "alloc_slots ?K n s") simp
  have "\<not> slots_granted ?K init_registry sample_os"
    using z by (simp add: slots_granted_def register_grows_def init_registry_def)
  then obtain s1 where "register_room ?K init_registry sample_os = Some (init_registry, s1)"
    using room_refused [OF reg_inv_init(1)] by blast
  moreover have "register_insert 0x400000 init_registry = Some init_registry"
    by (simp add: register_insert_def init_registry_def)
  ultimately have "r' = init_registry" using r(1) by (simp add: region_register_def)
  then have "rg_slots r' = None" by (simp add: init_registry_def)
  then show ?thesis using r by blast
qed

text \<open>C25: a full table blocks the allocator. If the OS grants the first table and refuses every
  later one, registering 1024 regions succeeds, and from then on \<open>region_owns\<close>,
  \<open>region_register\<close> and \<open>region_unregister\<close> of any other base probe forever, holding the mutex.\<close>

theorem registry_full_never_returns:
  assumes "fst (alloc_slots K 1024 s) \<noteq> 0" "\<forall>i m n. syscalls s < i \<longrightarrow> k_mmap K i m n = None"
    "length bs = 1024" "distinct bs" "\<forall>b \<in> set bs. b \<noteq> EMPTY \<and> b \<noteq> TOMB"
  shows "\<exists>r s'. run_ops (reg_register K) bs (init_registry, s) = Some (r, s') \<and>
    (\<forall>b. b \<noteq> EMPTY \<and> b \<noteq> TOMB \<and> b \<notin> set bs \<longrightarrow>
       region_owns b r = None \<and> region_unregister b r = None \<and> region_register K b r s' = None)"
  using full_run [OF assms(1-4)] assms(5) by (simp add: live_def)

theorem registry_full_never_returns_witness:
  "\<exists>r s'. run_ops (reg_register stingy_kernel) (sample_bases 1024) (init_registry, sample_os) = Some (r, s') \<and>
    region_owns (2048 * SEGMENT_SIZE) r = None"
proof -
  have b: "2048 * SEGMENT_SIZE \<noteq> EMPTY" "2048 * SEGMENT_SIZE \<noteq> TOMB" by (simp_all add: EMPTY_def TOMB_def)
  note b = conjI [OF b(1) conjI [OF b(2) sample_bases(4) [OF order.refl]]]
  from registry_full_never_returns [OF stingy_kernel_refuses sample_bases(1-3) [OF order.refl]]
  show ?thesis using b by (fast intro: exI conjI)
qed

end
