(* ===== verification/Linked_Lists.thy ===== *)
theory Linked_Lists
  imports Prelude
begin

text \<open>
  Linked lists as the allocator uses them, over any pointer type: \<open>linked\<close> is a chain of
  \<open>next\<close> pointers, \<open>dlist\<close> a doubly linked list ending in null. The same predicates serve
  the block lists threaded through user memory (\<open>next\<close> is an eight-byte load), the page
  lists and the segment lists. The lemmas say what the pointer updates of the code do to
  the list of nodes.
\<close>

section \<open>Chains\<close>

fun linked :: "'p \<Rightarrow> ('p \<Rightarrow> 'p) \<Rightarrow> 'p \<Rightarrow> 'p list \<Rightarrow> 'p \<Rightarrow> bool" where
  "linked nul nx p [] q \<longleftrightarrow> p = q"
| "linked nul nx p (x # xs) q \<longleftrightarrow> p = x \<and> x \<noteq> nul \<and> linked nul nx (nx x) xs q"

lemma linked_append [simp]:
  "linked nul nx p (xs @ ys) q \<longleftrightarrow> (\<exists>r. linked nul nx p xs r \<and> linked nul nx r ys q)"
  by (induction xs arbitrary: p) auto

lemma linked_nul [simp]: "linked nul nx nul xs q \<longleftrightarrow> xs = [] \<and> q = nul"
  by (cases xs) auto

lemma linked_start: "linked nul nx p xs nul \<Longrightarrow> p \<noteq> nul \<Longrightarrow> \<exists>ys. xs = p # ys \<and> linked nul nx (nx p) ys nul"
  by (cases xs) auto

lemma linked_nonnul: "linked nul nx p xs q \<Longrightarrow> nul \<notin> set xs"
  by (induction xs arbitrary: p) auto

lemma linked_cong:
  "(\<And>x. x \<in> set xs \<Longrightarrow> nx x = nx' x) \<Longrightarrow> linked nul nx p xs q = linked nul nx' p xs q"
  by (induction xs arbitrary: p) auto

lemma linked_upd [simp]:
  "x \<notin> set xs \<Longrightarrow> linked nul (nx(x := y)) p xs q = linked nul nx p xs q"
  by (rule linked_cong) auto

lemma linked_unique: "linked nul nx p xs nul \<Longrightarrow> linked nul nx p ys nul \<Longrightarrow> xs = ys"
proof (induction xs arbitrary: p ys)
  case (Cons x xs)
  then show ?case by (cases ys) auto
qed simp

lemma linked_distinct: "linked nul nx p xs nul \<Longrightarrow> distinct xs"
proof (induction xs arbitrary: p)
  case (Cons x xs)
  have "x \<notin> set xs"
  proof
    assume "x \<in> set xs"
    then obtain ys zs where xs: "xs = ys @ x # zs" by (meson split_list)
    then have "linked nul nx (nx x) zs nul" using Cons.prems by auto
    then have "zs = xs" using Cons.prems by (auto intro: linked_unique)
    then show False using xs by (metis length_Cons length_append not_add_less2 lessI)
  qed
  then show ?case using Cons by auto
qed simp

text \<open>Redirecting the last node of a chain splices two lists.\<close>

lemma linked_splice:
  assumes "linked nul nx p (xs @ [t]) nul" "linked nul nx q ys nul" "t \<notin> set ys"
  shows "linked nul (nx(t := q)) p (xs @ t # ys) nul"
proof -
  have "t \<notin> set xs" using linked_distinct [OF assms(1)] by simp
  then show ?thesis using assms by auto
qed

section \<open>Doubly linked lists\<close>

fun backs :: "('p \<Rightarrow> 'p) \<Rightarrow> 'p \<Rightarrow> 'p list \<Rightarrow> bool" where
  "backs pv prev [] \<longleftrightarrow> True"
| "backs pv prev (x # xs) \<longleftrightarrow> pv x = prev \<and> backs pv x xs"

definition dlist :: "'p \<Rightarrow> ('p \<Rightarrow> 'p) \<Rightarrow> ('p \<Rightarrow> 'p) \<Rightarrow> 'p \<Rightarrow> 'p list \<Rightarrow> bool" where
  "dlist nul nx pv h xs \<longleftrightarrow> linked nul nx h xs nul \<and> backs pv nul xs"

lemma backs_cong: "(\<And>x. x \<in> set xs \<Longrightarrow> pv x = pv' x) \<Longrightarrow> backs pv q xs = backs pv' q xs"
  by (induction xs arbitrary: q) auto

lemma backs_upd [simp]: "x \<notin> set xs \<Longrightarrow> backs (pv(x := y)) q xs = backs pv q xs"
  by (rule backs_cong) auto

lemma backs_append:
  "backs pv q (xs @ ys) \<longleftrightarrow> backs pv q xs \<and> backs pv (if xs = [] then q else last xs) ys"
  by (induction xs arbitrary: q) auto

lemma dlist_cong:
  assumes "\<And>x. x \<in> set xs \<Longrightarrow> nx x = nx' x" "\<And>x. x \<in> set xs \<Longrightarrow> pv x = pv' x"
  shows "dlist nul nx pv h xs = dlist nul nx' pv' h xs"
  unfolding dlist_def using linked_cong [of xs nx nx'] backs_cong [of xs pv pv'] assms by metis

lemma dlist_distinct: "dlist nul nx pv h xs \<Longrightarrow> distinct xs"
  by (auto simp: dlist_def linked_distinct)

lemma dlist_nul: "dlist nul nx pv nul xs \<longleftrightarrow> xs = []"
  by (auto simp: dlist_def)

lemma dlist_push:
  assumes "dlist nul nx pv h xs" "s \<notin> set xs" "s \<noteq> nul"
    "nx' = nx(s := h)" "pv' = (if h \<noteq> nul then (pv(s := nul))(h := s) else pv(s := nul))"
  shows "dlist nul nx' pv' s (s # xs)"
proof (cases xs)
  case Nil
  then show ?thesis using assms by (auto simp: dlist_def)
next
  case (Cons x ys)
  then have d: "x \<notin> set ys" and x: "h = x" "h \<noteq> nul"
    using dlist_distinct [OF assms(1)] assms(1) by (auto simp: dlist_def)
  show ?thesis using assms d x Cons by (auto simp: dlist_def)
qed

text \<open>Unlinking a node: its neighbours (or the head) are made to bypass it.\<close>

lemma dlist_remove:
  assumes "dlist nul nx pv h (as @ s # bs)"
    "nx' = (if pv s \<noteq> nul then nx(pv s := nx s) else nx)"
    "pv' = (if nx s \<noteq> nul then pv(nx s := pv s) else pv)"
    "h' = (if pv s \<noteq> nul then h else nx s)"
  shows "dlist nul nx' pv' h' (as @ bs)"
proof -
  have d: "distinct (as @ s # bs)" by (rule dlist_distinct [OF assms(1)])
  have l: "linked nul nx h as s" "linked nul nx (nx s) bs nul" "s \<noteq> nul"
    and b: "backs pv nul as" "pv s = (if as = [] then nul else last as)" "backs pv s bs"
    using assms(1) by (auto simp: dlist_def backs_append)
  have "linked nul nx' h' (as @ bs) nul"
  proof (cases as rule: rev_cases)
    case Nil
    then show ?thesis using l b(2) assms(2,4) by auto
  next
    case (snoc cs c)
    then have "c \<noteq> nul" using linked_nonnul [OF l(1)] by auto
    then show ?thesis using l b(2) assms(2,4) snoc d by auto
  qed
  moreover have "backs pv' nul (as @ bs)"
  proof (cases bs)
    case Nil
    then show ?thesis using l(2) b(1) assms(3) by simp
  next
    case (Cons c cs)
    then have "nx s = c" "c \<noteq> nul" using l(2) by auto
    then show ?thesis using b assms(3) Cons d by (auto simp: backs_append)
  qed
  ultimately show ?thesis by (simp add: dlist_def)
qed

end
