(* ===== verification/Page_Ops.thy ===== *)
theory Page_Ops
  imports OS_Layer Segment Linked_Lists
begin

text \<open>
  Pages and their blocks (the page operations of src/src/heap.cpp and the two free branches
  of src/src/heap.h): a page cuts its 64 KiB area into equal blocks; free blocks form two
  lists threaded through their own memory, the owner's \<open>free\<close> list and the cross-thread
  \<open>thread_free\<close> list. The operations work on the page's metadata and the byte memory. The
  theory shows that each keeps the page well formed, that blocks are handed out at most
  once, and that no byte of a live block or of another page is written.
\<close>

section \<open>Operations\<close>

text \<open>The walk to the last block of a list, counting its blocks (32-bit).\<close>

partial_function (option) find_tail :: "memory \<Rightarrow> addr \<Rightarrow> u32 \<Rightarrow> (addr \<times> u32) option" where
  "find_tail m tail n =
     (if load64 m tail \<noteq> 0 then find_tail m (load64 m tail) (n + 1) else Some (tail, n))"

definition page_collect :: "Page \<Rightarrow> memory \<Rightarrow> (Page \<times> memory) option" where
  "page_collect pg m =
     (let list = pg_thread_free pg; pg = pg\<lparr>pg_thread_free := 0\<rparr> in
      if list = 0 then Some (pg, m)
      else do {
        (tail, n) \<leftarrow> find_tail m list 1;
        Some (pg\<lparr>pg_free := list, pg_used := pg_used pg - n\<rparr>, store64 tail (pg_free pg) m) })"

text \<open>The loop of \<open>page_extend\<close>, from block \<open>i - 1\<close> down to block 0 of the batch.\<close>

fun carve :: "nat \<Rightarrow> addr \<Rightarrow> u64 \<Rightarrow> addr \<Rightarrow> memory \<Rightarrow> addr \<times> memory" where
  "carve 0 start bs head m = (head, m)"
| "carve (Suc i) start bs head m =
     (let blk = start + of_nat i * bs in carve i start bs blk (store64 blk head m))"

text \<open>A zero block size would divide by zero: no result.\<close>

definition page_extend :: "Page \<Rightarrow> memory \<Rightarrow> (Page \<times> memory) option" where
  "page_extend pg m =
     (let remaining = pg_capacity pg - pg_reserved pg in
      if remaining = 0 then Some (pg, m)
      else if pg_block_size pg = 0 then None
      else
        let batch = 8192 div pg_block_size pg;
            batch = (if batch = 0 then 1 else batch);
            batch = (if batch > remaining then remaining else batch);
            start = pg_area pg + ucast (pg_reserved pg) * ucast (pg_block_size pg)
        in case carve (unat batch) start (ucast (pg_block_size pg)) (pg_free pg) m of
             (head, m) \<Rightarrow> Some (pg\<lparr>pg_free := head, pg_reserved := pg_reserved pg + batch\<rparr>, m))"

definition page_make_available :: "Page \<Rightarrow> memory \<Rightarrow> (bool \<times> Page \<times> memory) option" where
  "page_make_available pg m =
     (if pg_free pg \<noteq> 0 then Some (True, pg, m)
      else do {
        (pg, m) \<leftarrow> page_collect pg m;
        if pg_free pg \<noteq> 0 then Some (True, pg, m)
        else if pg_reserved pg < pg_capacity pg then do {
          (pg, m) \<leftarrow> page_extend pg m;
          Some (pg_free pg \<noteq> 0, pg, m) }
        else Some (False, pg, m) })"

text \<open>A pop from an empty list would read through null: no result.\<close>

definition page_pop :: "Page \<Rightarrow> memory \<Rightarrow> (addr \<times> Page) option" where
  "page_pop pg m =
     (let b = pg_free pg in
      if b = 0 then None
      else Some (b, pg\<lparr>pg_free := load64 m b, pg_used := pg_used pg + 1\<rparr>))"

text \<open>The local branch of \<open>heap_free\<close> up to the decrement of \<open>used\<close>, and \<open>heap_free_remote\<close> run
  by a lone thread, whose compare-and-swap succeeds.\<close>

definition page_free_local :: "addr \<Rightarrow> Page \<Rightarrow> memory \<Rightarrow> Page \<times> memory" where
  "page_free_local b pg m =
     (pg\<lparr>pg_free := b, pg_used := pg_used pg - 1\<rparr>, store64 b (pg_free pg) m)"

definition page_free_remote :: "addr \<Rightarrow> Page \<Rightarrow> memory \<Rightarrow> Page \<times> memory" where
  "page_free_remote b pg m = (pg\<lparr>pg_thread_free := b\<rparr>, store64 b (pg_thread_free pg) m)"

section \<open>The blocks of a page\<close>

definition block_addr :: "Page \<Rightarrow> nat \<Rightarrow> addr" where
  "block_addr pg k = pg_area pg + of_nat k * ucast (pg_block_size pg)"

definition page_blocks :: "Page \<Rightarrow> addr set" where
  "page_blocks pg = block_addr pg ` {..<unat (pg_reserved pg)}"

definition page_geometry :: "Page \<Rightarrow> bool" where
  "page_geometry pg \<longleftrightarrow>
     16 \<le> unat (pg_block_size pg) \<and> 16 dvd unat (pg_block_size pg) \<and> unat (pg_block_size pg) \<le> 16384 \<and>
     0 < unat (pg_area pg) \<and> unat (pg_area pg) + 65536 < 2 ^ 64 \<and>
     unat (pg_capacity pg) = 65536 div unat (pg_block_size pg) \<and>
     unat (pg_reserved pg) \<le> unat (pg_capacity pg)"

abbreviation blist :: "memory \<Rightarrow> addr \<Rightarrow> addr list \<Rightarrow> bool" where
  "blist m p xs \<equiv> linked 0 (load64 m) p xs 0"

text \<open>\<open>fl\<close> and \<open>tf\<close> are the blocks on the two lists; the other carved blocks are live.\<close>

definition page_ok :: "memory \<Rightarrow> Page \<Rightarrow> addr list \<Rightarrow> addr list \<Rightarrow> bool" where
  "page_ok m pg fl tf \<longleftrightarrow> page_geometry pg \<and>
     blist m (pg_free pg) fl \<and> blist m (pg_thread_free pg) tf \<and>
     set fl \<subseteq> page_blocks pg \<and> set tf \<subseteq> page_blocks pg \<and> set fl \<inter> set tf = {} \<and>
     unat (pg_used pg) + length fl = unat (pg_reserved pg)"

definition page_live :: "Page \<Rightarrow> addr list \<Rightarrow> addr list \<Rightarrow> addr set" where
  "page_live pg fl tf = page_blocks pg - set fl - set tf"

text \<open>Nothing outside the page's area and nothing in the blocks of \<open>L\<close> is written.\<close>

definition page_frame :: "Page \<Rightarrow> addr set \<Rightarrow> memory \<Rightarrow> memory \<Rightarrow> bool" where
  "page_frame pg L m m' \<longleftrightarrow>
     (\<forall>x. \<not> in_region (pg_area pg) PAGE_SIZE x \<longrightarrow> m' x = m x) \<and>
     (\<forall>b \<in> L. \<forall>x. in_region b (ucast (pg_block_size pg)) x \<longrightarrow> m' x = m x)"

lemma block_bounds:
  assumes "page_geometry pg" "k < unat (pg_capacity pg)"
  shows "k * unat (pg_block_size pg) + unat (pg_block_size pg) \<le> 65536"
    "unat (block_addr pg k) = unat (pg_area pg) + k * unat (pg_block_size pg)"
proof -
  let ?bs = "unat (pg_block_size pg)"
  have "k + 1 \<le> 65536 div ?bs" using assms by (simp add: page_geometry_def)
  then have "(k + 1) * ?bs \<le> 65536 div ?bs * ?bs" by (rule mult_right_mono) simp
  also have "\<dots> \<le> 65536" by simp
  finally show b: "k * ?bs + ?bs \<le> 65536" by simp
  then have k: "k * ?bs < 2 ^ 64" by simp
  have "16 \<le> ?bs" using assms(1) by (simp add: page_geometry_def)
  then have "k \<le> k * ?bs" by (cases ?bs) simp_all
  then have "k < 2 ^ 64" using k by (rule le_less_trans)
  then have "unat (of_nat k * ucast (pg_block_size pg) :: u64) = k * ?bs"
    using k by (simp add: unat_word_ariths unsigned_of_nat take_bit_nat_eq_self)
  then show "unat (block_addr pg k) = unat (pg_area pg) + k * ?bs"
    using b assms(1) by (simp add: block_addr_def unat_add_nowrap page_geometry_def)
qed

lemma block_order:
  assumes "page_geometry pg" "j < unat (pg_capacity pg)" "k < unat (pg_capacity pg)" "j < k"
  shows "unat (block_addr pg j) + unat (pg_block_size pg) \<le> unat (block_addr pg k)"
proof -
  have "(j + 1) * unat (pg_block_size pg) \<le> k * unat (pg_block_size pg)"
    using assms(4) by (intro mult_right_mono) simp_all
  then show ?thesis using block_bounds(2) [OF assms(1)] assms(2,3) by simp
qed

lemma block_inj: "page_geometry pg \<Longrightarrow> inj_on (block_addr pg) {..<unat (pg_capacity pg)}"
proof (rule inj_onI)
  fix j k assume g: "page_geometry pg" and jk: "j \<in> {..<unat (pg_capacity pg)}"
    "k \<in> {..<unat (pg_capacity pg)}" "block_addr pg j = block_addr pg k"
  have "0 < unat (pg_block_size pg)" using g by (simp add: page_geometry_def)
  moreover have "j * unat (pg_block_size pg) = k * unat (pg_block_size pg)"
    using block_bounds(2) [OF g, of j] block_bounds(2) [OF g, of k] jk
    by (metis add_left_imp_eq lessThan_iff)
  ultimately show "j = k" by simp
qed

lemma block_addr_neq:
  "page_geometry pg \<Longrightarrow> j < unat (pg_capacity pg) \<Longrightarrow> k < unat (pg_capacity pg) \<Longrightarrow> j \<noteq> k \<Longrightarrow>
    block_addr pg j \<noteq> block_addr pg k"
  using inj_onD [OF block_inj] by (metis lessThan_iff)

lemma in_block_iff:
  assumes "page_geometry pg" "k < unat (pg_capacity pg)"
  shows "in_region (block_addr pg k) (ucast (pg_block_size pg)) x \<longleftrightarrow>
    unat (block_addr pg k) \<le> unat x \<and> unat x < unat (block_addr pg k) + unat (pg_block_size pg)"
  using block_bounds [OF assms] assms(1)
  by (subst in_region_iff) (auto simp: page_geometry_def)

text \<open>Distinct blocks of a page share no byte and lie inside its area.\<close>

lemma block_disjoint:
  assumes "page_geometry pg" "j < unat (pg_capacity pg)" "k < unat (pg_capacity pg)"
    "in_region (block_addr pg j) (ucast (pg_block_size pg)) x"
    "in_region (block_addr pg k) (ucast (pg_block_size pg)) x"
  shows "j = k"
proof (rule ccontr)
  assume "j \<noteq> k"
  then consider "j < k" | "k < j" by linarith
  then show False
    using block_order [OF assms(1,2,3)] block_order [OF assms(1,3,2)] assms(4,5)
    by cases (auto simp: in_block_iff assms(1-3))
qed

lemma block_in_area:
  assumes "page_geometry pg" "k < unat (pg_capacity pg)"
    "in_region (block_addr pg k) (ucast (pg_block_size pg)) x"
  shows "in_region (pg_area pg) PAGE_SIZE x"
  using assms(3) [unfolded in_block_iff [OF assms(1,2)]] block_bounds [OF assms(1,2)] assms(1)
  by (subst in_region_iff) (auto simp: page_geometry_def)

lemma page_blocks_capacity:
  assumes "page_geometry pg" "b \<in> page_blocks pg"
  obtains k where "k < unat (pg_reserved pg)" "k < unat (pg_capacity pg)" "b = block_addr pg k"
  using assms by (auto simp: page_blocks_def page_geometry_def)

lemma page_blocks_facts:
  assumes "page_geometry pg" "b \<in> page_blocks pg"
  shows "b \<noteq> 0" "in_region b (ucast (pg_block_size pg)) b" "16 dvd unat (pg_area pg) \<Longrightarrow> 16 dvd unat b"
proof -
  obtain k where k: "k < unat (pg_capacity pg)" "b = block_addr pg k"
    by (rule page_blocks_capacity [OF assms])
  show "b \<noteq> 0" using block_bounds(2) [OF assms(1) k(1)] k(2) assms(1) by (auto simp: page_geometry_def)
  show "in_region b (ucast (pg_block_size pg)) b"
    using assms(1) k by (simp add: in_block_iff page_geometry_def)
  show "16 dvd unat b" if "16 dvd unat (pg_area pg)"
    using block_bounds(2) [OF assms(1) k(1)] k(2) assms(1) that by (simp add: page_geometry_def)
qed

lemma card_page_blocks: "page_geometry pg \<Longrightarrow> card (page_blocks pg) = unat (pg_reserved pg)"
  unfolding page_blocks_def
  by (subst card_image) (auto intro: inj_on_subset [OF block_inj] simp: page_geometry_def)

text \<open>The link cells of distinct blocks do not overlap.\<close>

lemma cell_in_block:
  assumes "page_geometry pg" "b \<in> page_blocks pg" "x - b < 8"
  shows "in_region b (ucast (pg_block_size pg)) x"
proof -
  have "16 \<le> unat (pg_block_size pg)" using assms(1) by (simp add: page_geometry_def)
  then show ?thesis
    using assms(3) by (simp add: in_region_def word_less_nat_alt)
qed

lemma blocks_apart:
  assumes "page_geometry pg" "b \<in> page_blocks pg" "c \<in> page_blocks pg" "b \<noteq> c"
  shows "apart b c"
proof -
  have no: "\<not> x - y < 8" if "x \<in> page_blocks pg" "y \<in> page_blocks pg" "x \<noteq> y" for x y
  proof
    assume "x - y < 8"
    then have "in_region y (ucast (pg_block_size pg)) x" by (rule cell_in_block [OF assms(1) that(2)])
    moreover have "in_region x (ucast (pg_block_size pg)) x" by (rule page_blocks_facts(2) [OF assms(1) that(1)])
    ultimately show False
      using block_disjoint [OF assms(1)] page_blocks_capacity [OF assms(1) that(1)]
        page_blocks_capacity [OF assms(1) that(2)] that(3) by metis
  qed
  show ?thesis using no [of b c] no [of c b] assms(2-4) by (simp add: apart_def not_less)
qed

lemma blist_store:
  assumes "page_geometry pg" "b \<in> page_blocks pg" "set xs \<subseteq> page_blocks pg"
  shows "linked 0 (load64 (store64 b v m)) p xs q = linked 0 ((load64 m)(b := v)) p xs q"
proof (rule linked_cong)
  fix x assume "x \<in> set xs"
  then show "load64 (store64 b v m) x = ((load64 m)(b := v)) x"
    using assms blocks_apart [OF assms(1,2), of x] by (cases "x = b") (auto simp: load64_store64_apart)
qed

lemma frame_store:
  assumes "page_geometry pg" "b \<in> page_blocks pg" "L \<subseteq> page_blocks pg - {b}"
  shows "page_frame pg L m (store64 b v m)"
  unfolding page_frame_def
proof (intro conjI allI impI ballI)
  obtain k where k: "k < unat (pg_capacity pg)" "b = block_addr pg k"
    by (rule page_blocks_capacity [OF assms(1,2)])
  have cell: "in_region b (ucast (pg_block_size pg)) x" if "x - b < 8" for x
    by (rule cell_in_block [OF assms(1,2) that])
  show "store64 b v m x = m x" if "\<not> in_region (pg_area pg) PAGE_SIZE x" for x
    using that cell block_in_area [OF assms(1) k(1), of x] k(2) by (auto simp: store64_def)
  show "store64 b v m x = m x" if c: "c \<in> L" "in_region c (ucast (pg_block_size pg)) x" for c x
  proof -
    have cb: "c \<in> page_blocks pg" "c \<noteq> b" using assms(3) c(1) by auto
    obtain j where j: "j < unat (pg_capacity pg)" "c = block_addr pg j"
      by (rule page_blocks_capacity [OF assms(1) cb(1)])
    have "\<not> x - b < 8" using block_disjoint [OF assms(1) j(1) k(1)] cell [of x] c(2) cb(2) j(2) k(2) by metis
    then show ?thesis by (simp add: store64_def)
  qed
qed

lemma frame_trans:
  "page_frame pg L m m1 \<Longrightarrow> page_frame pg L m1 m2 \<Longrightarrow> page_frame pg L m m2"
  by (simp add: page_frame_def)

lemma frame_refl [simp]: "page_frame pg L m m"
  by (simp add: page_frame_def)

lemma frame_mono: "page_frame pg L m m' \<Longrightarrow> L' \<subseteq> L \<Longrightarrow> page_frame pg L' m m'"
  by (auto simp: page_frame_def)

lemma frame_load:
  assumes "page_frame pg L m m'" "page_geometry pg" "b \<in> L" "b \<in> page_blocks pg"
  shows "load64 m' b = load64 m b"
proof (rule load64_cong)
  fix k :: u64 assume "k < 8"
  then have "in_region b (ucast (pg_block_size pg)) (b + k)"
    by (intro cell_in_block [OF assms(2,4)]) simp
  then show "m' (b + k) = m (b + k)" using assms(1,3) by (simp add: page_frame_def)
qed

lemma frame_linked:
  assumes "page_frame pg L m m'" "page_geometry pg" "set xs \<subseteq> L" "set xs \<subseteq> page_blocks pg"
  shows "linked 0 (load64 m') p xs q = linked 0 (load64 m) p xs q"
  by (rule linked_cong) (use assms frame_load in blast)

lemma page_ok_frame:
  assumes "page_ok m pg fl tf" "page_frame pg L m m'" "set fl \<subseteq> L" "set tf \<subseteq> L"
  shows "page_ok m' pg fl tf"
  using assms(1) frame_linked [OF assms(2) _ assms(3)] frame_linked [OF assms(2) _ assms(4)]
  by (simp add: page_ok_def)

section \<open>What the operations do to a page\<close>

text \<open>The fields no page operation changes.\<close>

definition page_static :: "Page \<Rightarrow> Page" where
  "page_static pg = pg\<lparr>pg_free := 0, pg_used := 0, pg_reserved := 0, pg_thread_free := 0\<rparr>"

lemma page_static_fields:
  assumes "page_static pg' = page_static pg"
  shows "pg_area pg' = pg_area pg" "pg_block_size pg' = pg_block_size pg"
    "pg_capacity pg' = pg_capacity pg" "pg_size_class pg' = pg_size_class pg"
    "pg_in_use pg' = pg_in_use pg" "pg_owner pg' = pg_owner pg" "pg_next pg' = pg_next pg"
    "pg_prev pg' = pg_prev pg" "block_addr pg' = block_addr pg"
    "page_frame pg' = page_frame pg"
proof -
  have "pg_area (page_static pg') = pg_area (page_static pg)"
    "pg_block_size (page_static pg') = pg_block_size (page_static pg)"
    "pg_capacity (page_static pg') = pg_capacity (page_static pg)"
    "pg_size_class (page_static pg') = pg_size_class (page_static pg)"
    "pg_in_use (page_static pg') = pg_in_use (page_static pg)"
    "pg_owner (page_static pg') = pg_owner (page_static pg)"
    "pg_next (page_static pg') = pg_next (page_static pg)"
    "pg_prev (page_static pg') = pg_prev (page_static pg)"
    by (simp_all only: assms)
  then show "pg_area pg' = pg_area pg" "pg_block_size pg' = pg_block_size pg"
    "pg_capacity pg' = pg_capacity pg" "pg_size_class pg' = pg_size_class pg"
    "pg_in_use pg' = pg_in_use pg" "pg_owner pg' = pg_owner pg" "pg_next pg' = pg_next pg"
    "pg_prev pg' = pg_prev pg" by (simp_all add: page_static_def)
  then show "block_addr pg' = block_addr pg" "page_frame pg' = page_frame pg"
    by (simp_all add: fun_eq_iff block_addr_def page_frame_def)
qed

lemma page_ok_count:
  assumes "page_ok m pg fl tf"
  shows "length fl + length tf \<le> unat (pg_reserved pg)"
    "card (page_live pg fl tf) + length tf = unat (pg_used pg)"
proof -
  have g: "page_geometry pg" and sub: "set fl \<union> set tf \<subseteq> page_blocks pg" and dj: "set fl \<inter> set tf = {}"
    and d: "distinct fl" "distinct tf"
    using assms by (auto simp: page_ok_def linked_distinct)
  have fin: "finite (page_blocks pg)" by (simp add: page_blocks_def)
  have c: "card (set fl \<union> set tf) = length fl + length tf"
    using d dj by (simp add: card_Un_disjoint distinct_card)
  show le: "length fl + length tf \<le> unat (pg_reserved pg)"
    using card_mono [OF fin sub] card_page_blocks [OF g] c by simp
  have "page_live pg fl tf = page_blocks pg - (set fl \<union> set tf)" by (auto simp: page_live_def)
  then have "card (page_live pg fl tf) = unat (pg_reserved pg) - (length fl + length tf)"
    using card_Diff_subset [of "set fl \<union> set tf" "page_blocks pg"] sub c card_page_blocks [OF g] by simp
  moreover have "unat (pg_used pg) + length fl = unat (pg_reserved pg)" using assms by (simp add: page_ok_def)
  ultimately show "card (page_live pg fl tf) + length tf = unat (pg_used pg)" using le by simp
qed

lemma reserved_small:
  assumes "page_geometry pg"
  shows "unat (pg_capacity pg) \<le> 4096" "unat (pg_reserved pg) \<le> 4096"
proof -
  have "65536 div unat (pg_block_size pg) \<le> 65536 div 16"
    using assms by (intro div_le_mono2) (simp_all add: page_geometry_def)
  then show "unat (pg_capacity pg) \<le> 4096" "unat (pg_reserved pg) \<le> 4096"
    using assms by (simp_all add: page_geometry_def)
qed

lemma find_tail_eq:
  "linked 0 (load64 m) p (xs @ [t]) 0 \<Longrightarrow> find_tail m p n = Some (t, n + of_nat (length xs))"
proof (induction xs arbitrary: p n)
  case Nil
  then show ?case by (subst find_tail.simps) auto
next
  case (Cons x xs)
  then have "load64 m p \<noteq> 0" by (cases xs) auto
  then have "find_tail m p n = find_tail m (load64 m p) (n + 1)" by (subst find_tail.simps) simp
  then show ?case using Cons by (simp add: algebra_simps)
qed

lemma collect_ok:
  assumes ok: "page_ok m pg fl tf"
  obtains pg' m' where "page_collect pg m = Some (pg', m')" "page_ok m' pg' (tf @ fl) []"
    "page_live pg' (tf @ fl) [] = page_live pg fl tf" "page_frame pg (page_live pg fl tf) m m'"
    "page_static pg' = page_static pg" "pg_reserved pg' = pg_reserved pg"
proof (cases tf rule: rev_cases)
  case Nil
  then have "pg_thread_free pg = 0" using ok by (simp add: page_ok_def)
  then have "pg\<lparr>pg_thread_free := 0\<rparr> = pg" by simp
  then show ?thesis using that [of pg m] ok Nil \<open>pg_thread_free pg = 0\<close>
    by (simp add: page_collect_def page_live_def)
next
  case (snoc ts t)
  have g: "page_geometry pg" and l: "blist m (pg_free pg) fl" "blist m (pg_thread_free pg) (ts @ [t])"
    and sub: "set fl \<subseteq> page_blocks pg" "set tf \<subseteq> page_blocks pg" "set fl \<inter> set tf = {}"
    and u: "unat (pg_used pg) + length fl = unat (pg_reserved pg)"
    using ok snoc by (simp_all add: page_ok_def)
  have t: "t \<in> page_blocks pg" "t \<notin> set fl" using sub snoc by auto
  let ?pg = "pg\<lparr>pg_thread_free := 0, pg_free := pg_thread_free pg, pg_used := pg_used pg - of_nat (length tf)\<rparr>"
  let ?m = "store64 t (pg_free pg) m"
  have nz: "pg_thread_free pg \<noteq> 0" using l(2) linked_start [of 0] by (cases ts) auto
  have e: "page_collect pg m = Some (?pg, ?m)"
    using nz find_tail_eq [OF l(2), of 1] snoc by (simp add: page_collect_def Let_def)
  have "blist ?m (pg_thread_free pg) (tf @ fl)"
    using linked_splice [OF l(2,1) t(2)] sub snoc
    by (subst blist_store [OF g t(1)]) auto
  moreover have "length tf \<le> unat (pg_used pg)" "unat (pg_reserved pg) \<le> 4096"
    using page_ok_count(1) [OF ok] u reserved_small [OF g] by simp_all
  then have "unat (pg_used pg - of_nat (length tf)) = unat (pg_used pg) - length tf"
    using u by (subst unat_sub) (simp_all add: word_le_nat_alt unsigned_of_nat take_bit_nat_eq_self)
  ultimately have "page_ok ?m ?pg (tf @ fl) []"
    using g sub u \<open>length tf \<le> _\<close> by (simp add: page_ok_def page_geometry_def page_blocks_def block_addr_def)
  moreover have "page_frame pg (page_live pg fl tf) m ?m"
    by (rule frame_store [OF g t(1)]) (use snoc in \<open>auto simp: page_live_def\<close>)
  moreover have "page_live ?pg (tf @ fl) [] = page_live pg fl tf"
    by (auto simp: page_live_def page_blocks_def block_addr_def)
  ultimately show ?thesis using that [OF e] by (simp add: page_static_def)
qed

lemma carve_ok:
  assumes g: "page_geometry pg" and n: "r + n \<le> unat (pg_reserved pg)"
    and fl: "blist m head fl" "set fl \<subseteq> page_blocks pg" "set fl \<inter> block_addr pg ` {r..<r + n} = {}"
    and L: "L \<subseteq> page_blocks pg - block_addr pg ` {r..<r + n}"
    and e: "carve n (block_addr pg r) (ucast (pg_block_size pg)) head m = (head', m')"
  shows "blist m' head' (map (block_addr pg) [r..<r + n] @ fl) \<and> page_frame pg L m m'"
  using n fl L e
proof (induction n arbitrary: head m fl)
  case (Suc i)
  let ?b = "block_addr pg (r + i)"
  have b: "block_addr pg r + of_nat i * ucast (pg_block_size pg) = ?b"
    by (simp add: block_addr_def algebra_simps)
  have bp: "?b \<in> page_blocks pg" using Suc.prems(1) by (simp add: page_blocks_def)
  have nb: "?b \<notin> set fl" using Suc.prems(4) by auto
  have cap: "unat (pg_reserved pg) \<le> unat (pg_capacity pg)" using g by (simp add: page_geometry_def)
  have "?b \<notin> block_addr pg ` {r..<r + i}"
    using block_addr_neq [OF g] Suc.prems(1) cap by fastforce
  then have d: "set (?b # fl) \<inter> block_addr pg ` {r..<r + i} = {}" using Suc.prems(4) by auto
  have st: "blist (store64 ?b head m) ?b (?b # fl)"
    using Suc.prems(2) bp nb Suc.prems(3) page_blocks_facts(1) [OF g bp]
    by (subst blist_store [OF g bp]) auto
  have IH: "blist m' head' (map (block_addr pg) [r..<r + i] @ ?b # fl) \<and>
      page_frame pg L (store64 ?b head m) m'"
  proof (rule Suc.IH [OF _ st _ d])
    show "L \<subseteq> page_blocks pg - block_addr pg ` {r..<r + i}" using Suc.prems(5) by auto
  qed (use Suc.prems bp b in \<open>auto simp: Let_def\<close>)
  have "page_frame pg L m (store64 ?b head m)"
    using Suc.prems(5) by (intro frame_store [OF g bp]) auto
  then show ?case using IH frame_trans by (auto simp del: linked_append)
qed simp

lemma extend_ok:
  assumes ok: "page_ok m pg fl tf" and room: "pg_reserved pg < pg_capacity pg"
  obtains pg' m' fl' where "page_extend pg m = Some (pg', m')" "page_ok m' pg' fl' tf" "fl' \<noteq> []"
    "page_live pg' fl' tf = page_live pg fl tf" "page_frame pg (page_live pg fl tf) m m'"
    "page_static pg' = page_static pg"
proof -
  let ?r = "unat (pg_reserved pg)" and ?bs = "pg_block_size pg"
  have g: "page_geometry pg" and l: "blist m (pg_free pg) fl" "blist m (pg_thread_free pg) tf"
    and sub: "set fl \<subseteq> page_blocks pg" "set tf \<subseteq> page_blocks pg" "set fl \<inter> set tf = {}"
    and u: "unat (pg_used pg) + length fl = unat (pg_reserved pg)"
    using ok by (simp_all add: page_ok_def)
  have lt: "?r < unat (pg_capacity pg)" "unat (pg_capacity pg) \<le> 4096"
    using room reserved_small [OF g] by (simp_all add: word_less_nat_alt)
  let ?rem = "pg_capacity pg - pg_reserved pg"
  have rem: "unat ?rem = unat (pg_capacity pg) - ?r" using room by (simp add: unat_sub less_imp_le)
  define batch where "batch = (let b = 8192 div ?bs; b = (if b = 0 then 1 else b) in if b > ?rem then ?rem else b)"
  have nz: "?rem \<noteq> 0" "?bs \<noteq> 0" using rem lt g by (auto simp: page_geometry_def)
  have b: "0 < unat batch" "?r + unat batch \<le> unat (pg_capacity pg)"
    using rem lt nz unfolding batch_def Let_def
    by (auto simp: unat_gt_0 word_less_nat_alt not_less)
  obtain h' m' where c: "carve (unat batch) (block_addr pg ?r) (ucast ?bs) (pg_free pg) m = (h', m')" by fastforce
  let ?pg = "pg\<lparr>pg_free := h', pg_reserved := pg_reserved pg + batch\<rparr>"
  have start: "pg_area pg + ucast (pg_reserved pg) * ucast ?bs = block_addr pg ?r"
    by (simp add: block_addr_def)
  have e: "page_extend pg m = Some (?pg, m')"
    using nz c start unfolding page_extend_def Let_def batch_def by simp
  have r': "unat (pg_reserved pg + batch) = ?r + unat batch"
    using b lt by (subst unat_word_ariths) simp
  have ba: "block_addr ?pg = block_addr pg" by (simp add: fun_eq_iff block_addr_def)
  let ?new = "block_addr pg ` {?r..<?r + unat batch}"
  have g': "page_geometry ?pg" using g b(2) r' by (simp add: page_geometry_def)
  have bl: "page_blocks ?pg = page_blocks pg \<union> ?new"
    unfolding page_blocks_def ba by (auto simp: r' image_Un [symmetric] simp flip: ivl_disj_un(8))
  have dj: "page_blocks pg \<inter> ?new = {}"
    unfolding page_blocks_def using block_addr_neq [OF g] b(2) by fastforce
  have L: "page_blocks pg \<subseteq> page_blocks ?pg - block_addr ?pg ` {?r..<?r + unat batch}"
    using bl dj by (auto simp: ba)
  have carve: "blist m' h' (map (block_addr ?pg) [?r..<?r + unat batch] @ fl) \<and> page_frame ?pg (page_blocks pg) m m'"
  proof (rule carve_ok [OF g' _ l(1) _ _ L])
    show "carve (unat batch) (block_addr ?pg ?r) (ucast (pg_block_size ?pg)) (pg_free pg) m = (h', m')"
      using c by (simp add: ba)
  qed (use r' sub(1) bl dj in \<open>auto simp: ba\<close>)
  let ?fl = "map (block_addr pg) [?r..<?r + unat batch] @ fl"
  have "blist m' (pg_thread_free pg) tf"
    using frame_linked [OF conjunct2 [OF carve] g', of tf] sub(2) bl l(2) by auto
  then have "page_ok m' ?pg ?fl tf"
    using g' carve sub bl dj u r' by (auto simp: page_ok_def ba)
  moreover have "page_live ?pg ?fl tf = page_live pg fl tf"
    using bl dj sub(2) by (auto simp: page_live_def)
  moreover have "page_frame pg (page_live pg fl tf) m m'"
    using frame_mono [OF conjunct2 [OF carve], of "page_live pg fl tf"]
    by (auto simp: page_live_def page_frame_def)
  ultimately show ?thesis using that [OF e] b(1) by (simp add: page_static_def)
qed

lemma make_available_ok:
  assumes ok: "page_ok m pg fl tf"
  obtains av pg' m' fl' tf' where "page_make_available pg m = Some (av, pg', m')"
    "page_ok m' pg' fl' tf'" "av \<longleftrightarrow> fl' \<noteq> []" "page_live pg' fl' tf' = page_live pg fl tf"
    "page_frame pg (page_live pg fl tf) m m'" "page_static pg' = page_static pg"
    "av \<or> tf' = [] \<and> pg_reserved pg' = pg_capacity pg'"
proof (cases "pg_free pg = 0")
  case False
  then have "fl \<noteq> []" using ok by (auto simp: page_ok_def)
  then show ?thesis using that [of True pg m fl tf] False ok by (simp add: page_make_available_def)
next
  case True
  then have fl: "fl = []" using ok by (simp add: page_ok_def)
  obtain pg1 m1 where 1: "page_collect pg m = Some (pg1, m1)" "page_ok m1 pg1 (tf @ fl) []"
    "page_live pg1 (tf @ fl) [] = page_live pg fl tf" "page_frame pg (page_live pg fl tf) m m1"
    "page_static pg1 = page_static pg"
    by (rule collect_ok [OF ok])
  have ok1: "page_ok m1 pg1 tf []" "page_live pg1 tf [] = page_live pg fl tf" using 1(2,3) fl by simp_all
  have f1: "pg_free pg1 = 0 \<longleftrightarrow> tf = []" using ok1(1) by (cases tf) (auto simp: page_ok_def)
  show ?thesis
  proof (cases "pg_free pg1 = 0")
    case False
    then show ?thesis using that [of True pg1 m1 tf "[]"] 1 ok1 f1 True
      by (simp add: page_make_available_def)
  next
    case f: True
    show ?thesis
    proof (cases "pg_reserved pg1 < pg_capacity pg1")
      case room: True
      obtain pg2 m2 fl2 where 2: "page_extend pg1 m1 = Some (pg2, m2)" "page_ok m2 pg2 fl2 []" "fl2 \<noteq> []"
        "page_live pg2 fl2 [] = page_live pg1 tf []" "page_frame pg1 (page_live pg1 tf []) m1 m2"
        "page_static pg2 = page_static pg1"
        by (rule extend_ok [OF ok1(1) room])
      have nz: "pg_free pg2 \<noteq> 0" using 2(2,3) by (auto simp: page_ok_def)
      have "page_frame pg (page_live pg fl tf) m m2"
        using 1(4) 2(5) ok1(2) page_static_fields(10) [OF 1(5)] by (auto intro: frame_trans)
      then show ?thesis using that [of True pg2 m2 fl2 "[]"] 1(1,5) 2 ok1(2) True f room nz
        by (simp add: page_make_available_def)
    next
      case full: False
      have "unat (pg_reserved pg1) \<le> unat (pg_capacity pg1)" using ok1(1) by (simp add: page_ok_def page_geometry_def)
      then have "pg_reserved pg1 = pg_capacity pg1" using full by (simp add: word_le_nat_alt antisym not_less word_less_nat_alt)
      then show ?thesis using that [of False pg1 m1 "[]" "[]"] 1(1,4,5) ok1 f1 True f full
        by (simp add: page_make_available_def)
    qed
  qed
qed

lemma page_ok_fields:
  assumes "page_ok m pg fl tf" "page_static pg' = page_static pg" "pg_reserved pg' = pg_reserved pg"
  shows "page_geometry pg'" "page_blocks pg' = page_blocks pg"
  using assms page_static_fields [OF assms(2)] by (simp_all add: page_ok_def page_geometry_def page_blocks_def)

lemma pop_ok:
  assumes ok: "page_ok m pg fl tf" and ne: "fl \<noteq> []"
  obtains b pg' fl' where "page_pop pg m = Some (b, pg')" "fl = b # fl'" "page_ok m pg' fl' tf"
    "b \<in> page_blocks pg" "b \<notin> page_live pg fl tf" "page_live pg' fl' tf = insert b (page_live pg fl tf)"
    "page_static pg' = page_static pg" "unat (pg_used pg') = Suc (unat (pg_used pg))"
proof -
  obtain b fl' where fl: "fl = b # fl'" using ne by (cases fl) auto
  have g: "page_geometry pg" and b: "pg_free pg = b" "b \<noteq> 0" "blist m (load64 m b) fl'"
    and u: "unat (pg_used pg) + length fl = unat (pg_reserved pg)"
    and in': "b \<in> page_blocks pg" "b \<notin> set tf" "b \<notin> set fl'"
    using ok fl linked_distinct [of 0 "load64 m" "pg_free pg" fl] by (auto simp: page_ok_def)
  let ?pg = "pg\<lparr>pg_free := load64 m b, pg_used := pg_used pg + 1\<rparr>"
  have st: "page_static ?pg = page_static pg" "pg_reserved ?pg = pg_reserved pg" by (simp_all add: page_static_def)
  note f = page_ok_fields [OF ok st]
  have "unat (pg_used pg + 1) = Suc (unat (pg_used pg))"
    using u reserved_small(2) [OF g] fl by (subst unat_word_ariths) simp
  then have "page_ok m ?pg fl' tf" using ok f fl b u by (auto simp: page_ok_def)
  moreover have "page_live ?pg fl' tf = insert b (page_live pg fl tf)"
    using in' f(2) fl by (auto simp: page_live_def)
  ultimately show ?thesis
    using that [of b ?pg fl'] fl b in' st \<open>unat (pg_used pg + 1) = _\<close> by (simp add: page_pop_def page_live_def)
qed

lemma live_used:
  assumes "page_ok m pg fl tf" "b \<in> page_live pg fl tf"
  shows "0 < unat (pg_used pg)" "unat (pg_used pg - 1) = unat (pg_used pg) - 1"
proof -
  have "finite (page_live pg fl tf)" by (simp add: page_live_def page_blocks_def)
  then have "0 < card (page_live pg fl tf)" using assms(2) by (auto simp: card_gt_0_iff)
  then show p: "0 < unat (pg_used pg)" using page_ok_count(2) [OF assms(1)] by simp
  then show "unat (pg_used pg - 1) = unat (pg_used pg) - 1"
    by (subst unat_sub) (simp_all add: word_le_nat_alt)
qed

lemma free_local_ok:
  assumes ok: "page_ok m pg fl tf" and b: "b \<in> page_live pg fl tf"
    and e: "page_free_local b pg m = (pg', m')"
  shows "page_ok m' pg' (b # fl) tf" "page_live pg' (b # fl) tf = page_live pg fl tf - {b}"
    "page_frame pg (page_live pg fl tf - {b}) m m'" "page_static pg' = page_static pg"
    "unat (pg_used pg') = unat (pg_used pg) - 1"
proof -
  have g: "page_geometry pg" and bp: "b \<in> page_blocks pg" "b \<notin> set fl" "b \<notin> set tf"
    using ok b by (auto simp: page_ok_def page_live_def)
  have pg': "pg' = pg\<lparr>pg_free := b, pg_used := pg_used pg - 1\<rparr>" "m' = store64 b (pg_free pg) m"
    using e by (simp_all add: page_free_local_def)
  show st: "page_static pg' = page_static pg" by (simp add: pg' page_static_def)
  note f = page_ok_fields [OF ok st]
  show u: "unat (pg_used pg') = unat (pg_used pg) - 1" using live_used(2) [OF ok b] by (simp add: pg')
  have "blist m' b (b # fl)" "blist m' (pg_thread_free pg) tf"
    unfolding pg' using ok bp page_blocks_facts(1) [OF g bp(1)]
    by (subst blist_store [OF g bp(1)]; simp add: page_ok_def)+
  then show "page_ok m' pg' (b # fl) tf"
    using ok f u live_used(1) [OF ok b] bp by (auto simp: page_ok_def pg')
  show "page_live pg' (b # fl) tf = page_live pg fl tf - {b}"
    using f(2) by (auto simp: page_live_def pg')
  show "page_frame pg (page_live pg fl tf - {b}) m m'"
    unfolding pg' by (rule frame_store [OF g bp(1)]) (auto simp: page_live_def)
qed

lemma free_remote_ok:
  assumes ok: "page_ok m pg fl tf" and b: "b \<in> page_live pg fl tf"
    and e: "page_free_remote b pg m = (pg', m')"
  shows "page_ok m' pg' fl (b # tf)" "page_live pg' fl (b # tf) = page_live pg fl tf - {b}"
    "page_frame pg (page_live pg fl tf - {b}) m m'" "page_static pg' = page_static pg"
    "pg_used pg' = pg_used pg"
proof -
  have g: "page_geometry pg" and bp: "b \<in> page_blocks pg" "b \<notin> set fl" "b \<notin> set tf"
    using ok b by (auto simp: page_ok_def page_live_def)
  have pg': "pg' = pg\<lparr>pg_thread_free := b\<rparr>" "m' = store64 b (pg_thread_free pg) m"
    using e by (simp_all add: page_free_remote_def)
  show st: "page_static pg' = page_static pg" "pg_used pg' = pg_used pg" by (simp_all add: pg' page_static_def)
  note f = page_ok_fields [OF ok st(1)]
  have "blist m' b (b # tf)" "blist m' (pg_free pg) fl"
    unfolding pg' using ok bp page_blocks_facts(1) [OF g bp(1)]
    by (subst blist_store [OF g bp(1)]; simp add: page_ok_def)+
  then show "page_ok m' pg' fl (b # tf)"
    using ok f bp by (auto simp: page_ok_def pg')
  show "page_live pg' fl (b # tf) = page_live pg fl tf - {b}"
    using f(2) by (auto simp: page_live_def pg')
  show "page_frame pg (page_live pg fl tf - {b}) m m'"
    unfolding pg' by (rule frame_store [OF g bp(1)]) (auto simp: page_live_def)
qed

section \<open>Runs of a page\<close>

text \<open>How \<open>heap_malloc_slow\<close> serves a request from a page: make it available, then pop; \<open>None\<close> in the
  result says that the page cannot serve.\<close>

definition page_alloc :: "Page \<Rightarrow> memory \<Rightarrow> (addr option \<times> Page \<times> memory) option" where
  "page_alloc pg m = do {
     (av, pg, m) \<leftarrow> page_make_available pg m;
     if av then do { (b, pg) \<leftarrow> page_pop pg m; Some (Some b, pg, m) }
     else Some (None, pg, m) }"

lemma alloc_ok:
  assumes ok: "page_ok m pg fl tf"
  obtains r pg' m' fl' tf' where "page_alloc pg m = Some (r, pg', m')" "page_ok m' pg' fl' tf'"
    "page_frame pg (page_live pg fl tf) m m'" "page_static pg' = page_static pg"
    "case r of None \<Rightarrow> page_live pg' fl' tf' = page_live pg fl tf \<and>
         card (page_live pg fl tf) = unat (pg_capacity pg)
     | Some b \<Rightarrow> b \<in> page_blocks pg' \<and> b \<notin> page_live pg fl tf \<and>
         page_live pg' fl' tf' = insert b (page_live pg fl tf) \<and>
         card (page_live pg fl tf) < unat (pg_capacity pg)"
proof -
  obtain av pg1 m1 fl1 tf1 where 1: "page_make_available pg m = Some (av, pg1, m1)"
    "page_ok m1 pg1 fl1 tf1" "av \<longleftrightarrow> fl1 \<noteq> []" "page_live pg1 fl1 tf1 = page_live pg fl tf"
    "page_frame pg (page_live pg fl tf) m m1" "page_static pg1 = page_static pg"
    "av \<or> tf1 = [] \<and> pg_reserved pg1 = pg_capacity pg1"
    by (rule make_available_ok [OF ok])
  have c: "card (page_live pg fl tf) + length tf1 + length fl1 = unat (pg_reserved pg1)"
    using page_ok_count(2) [OF 1(2)] 1(2,4) by (simp add: page_ok_def)
  have cap: "pg_capacity pg1 = pg_capacity pg" "unat (pg_reserved pg1) \<le> unat (pg_capacity pg1)"
    using page_static_fields(3) [OF 1(6)] 1(2) by (simp_all add: page_ok_def page_geometry_def)
  show ?thesis
  proof (cases av)
    case False
    then show ?thesis using that [of None pg1 m1 fl1 tf1] 1 c cap by (simp add: page_alloc_def)
  next
    case True
    obtain b pg2 fl2 where 2: "page_pop pg1 m1 = Some (b, pg2)" "fl1 = b # fl2" "page_ok m1 pg2 fl2 tf1"
      "b \<in> page_blocks pg1" "b \<notin> page_live pg1 fl1 tf1"
      "page_live pg2 fl2 tf1 = insert b (page_live pg1 fl1 tf1)" "page_static pg2 = page_static pg1"
      by (rule pop_ok [OF 1(2)]) (use 1(3) True in blast)
    have "b \<in> page_blocks pg2" using 2(6) by (auto simp: page_live_def)
    then show ?thesis using that [of "Some b" pg2 m1 fl2 tf1] 1 2 c cap True by (simp add: page_alloc_def)
  qed
qed

lemma user_write_frame:
  assumes ok: "page_ok m pg fl tf" and b: "b \<in> page_live pg fl tf"
    and x: "in_region b (ucast (pg_block_size pg)) x"
  shows "page_frame pg (page_blocks pg - {b}) m (m(x := v))"
proof -
  have g: "page_geometry pg" and bp: "b \<in> page_blocks pg" using ok b by (auto simp: page_ok_def page_live_def)
  obtain k where k: "k < unat (pg_capacity pg)" "b = block_addr pg k" by (rule page_blocks_capacity [OF g bp])
  have area: "in_region (pg_area pg) PAGE_SIZE x" using block_in_area [OF g k(1)] x k(2) by simp
  have other: "\<not> in_region c (ucast (pg_block_size pg)) x" if c: "c \<in> page_blocks pg - {b}" for c
  proof -
    obtain j where "j < unat (pg_capacity pg)" "c = block_addr pg j"
      using page_blocks_capacity [OF g, of c] c by blast
    then show ?thesis using block_disjoint [OF g _ k(1), of j x] x k(2) c by blast
  qed
  show ?thesis unfolding page_frame_def using area other by (auto simp: fun_upd_apply)
qed

lemma user_write_ok:
  assumes "page_ok m pg fl tf" "b \<in> page_live pg fl tf" "in_region b (ucast (pg_block_size pg)) x"
  shows "page_ok (m(x := v)) pg fl tf"
  by (rule page_ok_frame [OF assms(1) user_write_frame [OF assms]])
    (use assms in \<open>auto simp: page_ok_def page_live_def\<close>)

text \<open>
  Every sequence of requests, local and remote frees of live blocks and user writes into live
  blocks, from a page as \<open>central_acquire_page\<close> hands it out; \<open>L\<close> are the live blocks.
\<close>

definition page_unused :: "Page \<Rightarrow> bool" where
  "page_unused pg \<longleftrightarrow> page_geometry pg \<and> pg_free pg = 0 \<and> pg_thread_free pg = 0 \<and>
     pg_used pg = 0 \<and> pg_reserved pg = 0"

inductive page_run :: "Page \<Rightarrow> memory \<Rightarrow> addr set \<Rightarrow> bool" where
  start: "page_unused pg \<Longrightarrow> page_run pg m {}"
| alloc: "page_run pg m L \<Longrightarrow> page_alloc pg m = Some (Some b, pg', m') \<Longrightarrow> page_run pg' m' (insert b L)"
| full: "page_run pg m L \<Longrightarrow> page_alloc pg m = Some (None, pg', m') \<Longrightarrow> page_run pg' m' L"
| free_own: "page_run pg m L \<Longrightarrow> b \<in> L \<Longrightarrow> page_free_local b pg m = (pg', m') \<Longrightarrow> page_run pg' m' (L - {b})"
| free_other: "page_run pg m L \<Longrightarrow> b \<in> L \<Longrightarrow> page_free_remote b pg m = (pg', m') \<Longrightarrow> page_run pg' m' (L - {b})"
| user_write: "page_run pg m L \<Longrightarrow> b \<in> L \<Longrightarrow> in_region b (ucast (pg_block_size pg)) x \<Longrightarrow> page_run pg (m(x := v)) L"

lemma page_unused_ok: "page_unused pg \<Longrightarrow> page_ok m pg [] []"
  by (simp add: page_unused_def page_ok_def)

lemma page_run_ok:
  assumes "page_run pg m L"
  obtains fl tf where "page_ok m pg fl tf" "page_live pg fl tf = L"
proof -
  from assms have "\<exists>fl tf. page_ok m pg fl tf \<and> page_live pg fl tf = L"
  proof induction
    case (start pg m)
    then have "page_live pg [] [] = {}" by (simp add: page_live_def page_blocks_def page_unused_def)
    then show ?case using page_unused_ok [OF start] by blast
  next
    case (alloc pg m L b pg' m')
    then obtain fl tf where ok: "page_ok m pg fl tf" and L: "page_live pg fl tf = L" by blast
    show ?case by (rule alloc_ok [OF ok]) (use alloc.hyps L in fastforce)
  next
    case (full pg m L pg' m')
    then obtain fl tf where ok: "page_ok m pg fl tf" and L: "page_live pg fl tf = L" by blast
    show ?case by (rule alloc_ok [OF ok]) (use full.hyps L in fastforce)
  next
    case (free_own pg m L b pg' m')
    then show ?case using free_local_ok(1,2) by metis
  next
    case (free_other pg m L b pg' m')
    then show ?case using free_remote_ok(1,2) by metis
  next
    case (user_write pg m L b x v)
    then show ?case using user_write_ok by metis
  qed
  then show ?thesis using that by blast
qed

text \<open>A page of four 16 KiB blocks and a run that takes one of them.\<close>

definition sample_page :: Page where
  "sample_page = \<lparr>pg_free = 0, pg_used = 0, pg_capacity = 4, pg_reserved = 0, pg_block_size = 16384,
     pg_size_class = 35, pg_in_use = True, pg_owner = HeapAt 0x5000, pg_next = NullPage, pg_prev = NullPage,
     pg_area = 0x410000, pg_thread_free = 0\<rparr>"

lemma sample_page_unused: "page_unused sample_page"
  by (simp add: page_unused_def page_geometry_def sample_page_def)

lemma sample_page_alloc:
  "page_alloc sample_page (\<lambda>_. 0) =
     Some (Some 0x410000, sample_page\<lparr>pg_used := 1, pg_reserved := 1\<rparr>, store64 0x410000 0 (\<lambda>_. 0))"
  by (simp add: page_alloc_def page_make_available_def page_collect_def page_extend_def page_pop_def
      Let_def sample_page_def)

lemma sample_page_run:
  "page_run (sample_page\<lparr>pg_used := 1, pg_reserved := 1\<rparr>) (store64 0x410000 0 (\<lambda>_. 0)) {0x410000}"
  by (rule page_run.alloc [OF page_run.start [OF sample_page_unused] sample_page_alloc])

section \<open>Properties of pages\<close>

text \<open>C17: in any run of a page a request is answered (the list walk ends): it is refused exactly
  when all blocks the page can hold are live, so no freed block is ever lost; otherwise the result is
  a block of the page that shares no byte with a live block. No byte of a live block and none outside
  the page's area is written.\<close>

theorem page_run_alloc:
  assumes "page_run pg m L"
  shows "\<exists>r pg' m'. page_alloc pg m = Some (r, pg', m') \<and>
    (r = None \<longleftrightarrow> card L = unat (pg_capacity pg)) \<and>
    (\<forall>b. r = Some b \<longrightarrow>
       (\<exists>k < unat (pg_capacity pg). b = pg_area pg + of_nat k * ucast (pg_block_size pg)) \<and>
       (\<forall>c \<in> L. \<forall>x. in_region b (ucast (pg_block_size pg)) x \<longrightarrow> \<not> in_region c (ucast (pg_block_size pg)) x)) \<and>
    (\<forall>c \<in> L. \<forall>x. in_region c (ucast (pg_block_size pg)) x \<longrightarrow> m' x = m x) \<and>
    (\<forall>x. \<not> in_region (pg_area pg) PAGE_SIZE x \<longrightarrow> m' x = m x)"
proof -
  obtain fl tf where ok: "page_ok m pg fl tf" and L: "page_live pg fl tf = L" by (rule page_run_ok [OF assms])
  obtain r pg' m' fl' tf' where a: "page_alloc pg m = Some (r, pg', m')" "page_ok m' pg' fl' tf'"
    "page_frame pg L m m'" "page_static pg' = page_static pg"
    "case r of None \<Rightarrow> page_live pg' fl' tf' = L \<and> card L = unat (pg_capacity pg)
     | Some b \<Rightarrow> b \<in> page_blocks pg' \<and> b \<notin> L \<and> page_live pg' fl' tf' = insert b L \<and>
         card L < unat (pg_capacity pg)"
    by (rule alloc_ok [OF ok, unfolded L])
  note st = page_static_fields [OF a(4)]
  have g: "page_geometry pg'" using a(2) by (simp add: page_ok_def)
  have blk: "\<exists>k < unat (pg_capacity pg). c = block_addr pg k" if "c \<in> page_blocks pg'" for c
    using page_blocks_capacity [OF g that] st by metis
  have "(\<exists>k < unat (pg_capacity pg). b = block_addr pg k) \<and>
      (\<forall>c \<in> L. \<forall>x. in_region b (ucast (pg_block_size pg)) x \<longrightarrow> \<not> in_region c (ucast (pg_block_size pg)) x)"
    if r: "r = Some b" for b
  proof (intro conjI ballI allI impI notI)
    show k: "\<exists>k < unat (pg_capacity pg). b = block_addr pg k" using blk a(5) r by simp
    fix c x assume c: "c \<in> L" and x: "in_region b (ucast (pg_block_size pg)) x" "in_region c (ucast (pg_block_size pg)) x"
    have "c \<in> page_blocks pg'" using c a(5) r by (auto simp: page_live_def)
    then obtain j where j: "j < unat (pg_capacity pg)" "c = block_addr pg j" using blk by blast
    obtain k where k: "k < unat (pg_capacity pg)" "b = block_addr pg k" using k by blast
    have "b = c" using block_disjoint [OF g, of j k x] j k x st by simp
    then show False using c a(5) r by simp
  qed
  then show ?thesis using a(1,3,5) by (auto simp: page_frame_def block_addr_def split: option.splits)
qed

theorem page_run_alloc_witness:
  "\<exists>r pg' m'. page_alloc (sample_page\<lparr>pg_used := 1, pg_reserved := 1\<rparr>) (store64 0x410000 0 (\<lambda>_. 0)) =
      Some (r, pg', m') \<and> r \<noteq> None \<and> r \<noteq> Some 0x410000"
proof -
  have "in_region 0x410000 (ucast (pg_block_size (sample_page\<lparr>pg_used := 1, pg_reserved := 1\<rparr>))) 0x410000"
    by (simp add: in_region_def sample_page_def)
  moreover have "unat (pg_capacity (sample_page\<lparr>pg_used := 1, pg_reserved := 1\<rparr>)) = 4" by (simp add: sample_page_def)
  ultimately show ?thesis using page_run_alloc [OF sample_page_run] by fastforce
qed

text \<open>C27: collecting the cross-thread list is exact: in any run of a page \<open>page_collect\<close> returns,
  empties \<open>thread_free\<close>, leaves \<open>used\<close> equal to the number of live blocks, so the test
  \<open>used == 0\<close> after it says exactly that nothing on the page is live, and touches no live block.\<close>

theorem page_collect_exact:
  assumes "page_run pg m L"
  shows "\<exists>pg' m'. page_collect pg m = Some (pg', m') \<and> pg_thread_free pg' = 0 \<and>
    unat (pg_used pg') = card L \<and> (pg_used pg' = 0 \<longleftrightarrow> L = {}) \<and>
    (\<forall>c \<in> L. \<forall>x. in_region c (ucast (pg_block_size pg)) x \<longrightarrow> m' x = m x)"
proof -
  obtain fl tf where ok: "page_ok m pg fl tf" and L: "page_live pg fl tf = L" by (rule page_run_ok [OF assms])
  obtain pg' m' where c: "page_collect pg m = Some (pg', m')" "page_ok m' pg' (tf @ fl) []"
    "page_live pg' (tf @ fl) [] = L" "page_frame pg L m m'"
    by (rule collect_ok [OF ok, unfolded L])
  have u: "unat (pg_used pg') = card L" using page_ok_count(2) [OF c(2)] c(3) by simp
  have "finite L" using L by (auto simp: page_live_def page_blocks_def)
  then have "pg_used pg' = 0 \<longleftrightarrow> L = {}" using u by (metis card_0_eq unat_eq_zero)
  moreover have "pg_thread_free pg' = 0" using c(2) by (simp add: page_ok_def)
  ultimately show ?thesis using c(1,4) u by (simp add: page_frame_def)
qed

theorem page_collect_exact_witness:
  "\<exists>pg' m'. page_collect (sample_page\<lparr>pg_used := 1, pg_reserved := 1\<rparr>) (store64 0x410000 0 (\<lambda>_. 0)) =
      Some (pg', m') \<and> unat (pg_used pg') = 1"
  using page_collect_exact [OF sample_page_run] by auto

text \<open>C39: a local free followed by a request gives the same block back and restores the page:
  the lists are last-in first-out.\<close>

theorem page_free_alloc_roundtrip:
  assumes "page_run pg m L" "b \<in> L" "page_free_local b pg m = (pg', m')"
  shows "page_alloc pg' m' = Some (Some b, pg, m')"
proof -
  obtain fl tf where ok: "page_ok m pg fl tf" and L: "page_live pg fl tf = L" by (rule page_run_ok [OF assms(1)])
  have "b \<noteq> 0" using page_blocks_facts(1) [of pg b] ok L assms(2) by (auto simp: page_ok_def page_live_def)
  then show ?thesis using assms(3)
    by (auto simp: page_free_local_def page_alloc_def page_make_available_def page_pop_def)
qed

theorem page_free_alloc_roundtrip_witness:
  "page_alloc (fst (page_free_local 0x410000 (sample_page\<lparr>pg_used := 1, pg_reserved := 1\<rparr>) (store64 0x410000 0 (\<lambda>_. 0))))
      (snd (page_free_local 0x410000 (sample_page\<lparr>pg_used := 1, pg_reserved := 1\<rparr>) (store64 0x410000 0 (\<lambda>_. 0)))) =
    Some (Some 0x410000, sample_page\<lparr>pg_used := 1, pg_reserved := 1\<rparr>,
      snd (page_free_local 0x410000 (sample_page\<lparr>pg_used := 1, pg_reserved := 1\<rparr>) (store64 0x410000 0 (\<lambda>_. 0))))"
  by (rule page_free_alloc_roundtrip [OF sample_page_run]) simp_all

end
