(* ===== verification/Allocator_State.thy ===== *)
theory Allocator_State
  imports Size_Class Region_Registry Page_Ops
begin

text \<open>
  The allocator's global state: the OS with its byte memory, the region registry, the
  region headers and page descriptors that live in mapped memory, the central heap
  (\<open>CentralState\<close> of src/src/central.cpp), the per-thread heaps (\<open>Heap\<close> of src/src/heap.h) and
  the large-allocation counters (src/src/hmalloc.cpp). Headers and descriptors are typed
  objects in stores of their own; reading a pointer that is null, dangling or of the wrong
  kind gives no result. Threads are numbered; \<open>st_t_heap\<close> is the thread-local \<open>t_heap\<close>.
\<close>

datatype Region = SegmentRegion Segment | LargeRegion LargeHeader

record CentralState =
  cs_segments :: addr
  cs_avail :: addr
  cs_abandoned :: page_ptr
  cs_num_segments :: u64
  cs_free_segments :: u64
  cs_free_page_count :: u64
  cs_pages_in_use :: u64
  cs_abandoned_count :: u64

record Heap =
  hp_pages :: "page_ptr list"
  hp_n_malloc :: u64
  hp_n_fast :: u64
  hp_n_slow :: u64
  hp_reg_next :: heap_ptr

record State =
  st_os :: os_state
  st_registry :: Registry
  st_regions :: "addr \<rightharpoonup> Region"
  st_pages :: "page_ptr \<rightharpoonup> Page"
  st_central :: CentralState
  st_heaps :: "addr \<rightharpoonup> Heap"
  st_g_registry :: heap_ptr
  st_t_heap :: "nat \<Rightarrow> heap_ptr"
  st_large_count :: u64
  st_large_bytes :: u64

abbreviation st_mem :: "State \<Rightarrow> memory" where
  "st_mem st \<equiv> mem (st_os st)"

abbreviation upd_mem :: "memory \<Rightarrow> State \<Rightarrow> State" where
  "upd_mem m st \<equiv> st\<lparr>st_os := (st_os st)\<lparr>mem := m\<rparr>\<rparr>"

section \<open>Initial values\<close>

text \<open>Value-initialised objects: \<open>Page\<close> and \<open>Segment\<close> have no member initialisers, so
  \<open>new (mem) Segment()\<close> and the static \<open>g_empty_page\<close> start with every field zero.\<close>

definition zero_page :: Page where
  "zero_page = \<lparr>pg_free = 0, pg_used = 0, pg_capacity = 0, pg_reserved = 0, pg_block_size = 0,
     pg_size_class = 0, pg_in_use = False, pg_owner = NullHeap, pg_next = NullPage, pg_prev = NullPage,
     pg_area = 0, pg_thread_free = 0\<rparr>"

definition zero_segment :: Segment where
  "zero_segment = \<lparr>sg_kind = Small, sg_page_count = 0, sg_mmap_size = 0, sg_next = 0,
     sg_free_list = NullPage, sg_free_count = 0, sg_avail_prev = 0, sg_avail_next = 0, sg_in_avail = False\<rparr>"

definition init_central :: CentralState where
  "init_central = \<lparr>cs_segments = 0, cs_avail = 0, cs_abandoned = NullPage, cs_num_segments = 0,
     cs_free_segments = 0, cs_free_page_count = 0, cs_pages_in_use = 0, cs_abandoned_count = 0\<rparr>"

definition init_state :: "os_state \<Rightarrow> State" where
  "init_state s = \<lparr>st_os = s, st_registry = init_registry, st_regions = Map.empty,
     st_pages = [EmptyPage \<mapsto> zero_page], st_central = init_central, st_heaps = Map.empty,
     st_g_registry = NullHeap, st_t_heap = (\<lambda>_. NullHeap), st_large_count = 0, st_large_bytes = 0\<rparr>"

section \<open>Reading and writing objects\<close>

definition get_seg :: "addr \<Rightarrow> State \<Rightarrow> Segment option" where
  "get_seg s st = (case st_regions st s of Some (SegmentRegion x) \<Rightarrow> Some x | _ \<Rightarrow> None)"

definition set_seg :: "addr \<Rightarrow> Segment \<Rightarrow> State \<Rightarrow> State" where
  "set_seg s x st = st\<lparr>st_regions := (st_regions st)(s \<mapsto> SegmentRegion x)\<rparr>"

definition upd_seg :: "addr \<Rightarrow> (Segment \<Rightarrow> Segment) \<Rightarrow> State \<Rightarrow> State option" where
  "upd_seg s f st = do { x \<leftarrow> get_seg s st; Some (set_seg s (f x) st) }"

definition get_page :: "page_ptr \<Rightarrow> State \<Rightarrow> Page option" where
  "get_page p st = st_pages st p"

definition set_page :: "page_ptr \<Rightarrow> Page \<Rightarrow> State \<Rightarrow> State" where
  "set_page p x st = st\<lparr>st_pages := (st_pages st)(p \<mapsto> x)\<rparr>"

definition upd_page :: "page_ptr \<Rightarrow> (Page \<Rightarrow> Page) \<Rightarrow> State \<Rightarrow> State option" where
  "upd_page p f st = do { x \<leftarrow> get_page p st; Some (set_page p (f x) st) }"

definition upd_central :: "(CentralState \<Rightarrow> CentralState) \<Rightarrow> State \<Rightarrow> State" where
  "upd_central f st = st\<lparr>st_central := f (st_central st)\<rparr>"

definition get_heap :: "heap_ptr \<Rightarrow> State \<Rightarrow> (addr \<times> Heap) option" where
  "get_heap h st = (case h of HeapAt a \<Rightarrow> map_option (Pair a) (st_heaps st a) | _ \<Rightarrow> None)"

definition set_heap :: "addr \<Rightarrow> Heap \<Rightarrow> State \<Rightarrow> State" where
  "set_heap a x st = st\<lparr>st_heaps := (st_heaps st)(a \<mapsto> x)\<rparr>"

text \<open>A page operation of Page\_Ops applied to the page a pointer names.\<close>

definition on_page :: "(Page \<Rightarrow> memory \<Rightarrow> (Page \<times> memory) option) \<Rightarrow> page_ptr \<Rightarrow> State \<Rightarrow> State option" where
  "on_page f p st = do {
     x \<leftarrow> get_page p st;
     (x, m) \<leftarrow> f x (st_mem st);
     Some (upd_mem m (set_page p x st)) }"

text \<open>The tag at the base of the region a pointer is in.\<close>

definition kind_of :: "addr \<Rightarrow> State \<Rightarrow> SegmentKind option" where
  "kind_of p st = map_option (\<lambda>r. case r of SegmentRegion x \<Rightarrow> sg_kind x | LargeRegion x \<Rightarrow> lh_kind x)
     (st_regions st (region_base p))"

definition get_large :: "addr \<Rightarrow> State \<Rightarrow> LargeHeader option" where
  "get_large a st = (case st_regions st a of Some (LargeRegion x) \<Rightarrow> Some x | _ \<Rightarrow> None)"

section \<open>Access rules\<close>

lemma get_seg_simps [simp]:
  "get_seg t (set_seg s x st) = (if t = s then Some x else get_seg t st)"
  "get_seg t (set_page p y st) = get_seg t st"
  "get_seg t (upd_central f st) = get_seg t st"
  "get_seg t (set_heap a h st) = get_seg t st"
  "get_seg t (st\<lparr>st_os := os\<rparr>) = get_seg t st"
  "get_seg t (st\<lparr>st_registry := r\<rparr>) = get_seg t st"
  "get_seg t (st\<lparr>st_t_heap := th\<rparr>) = get_seg t st"
  "get_seg t (st\<lparr>st_g_registry := gr\<rparr>) = get_seg t st"
  by (simp_all add: get_seg_def set_seg_def set_page_def upd_central_def set_heap_def)

lemma get_page_simps [simp]:
  "get_page q (set_page p y st) = (if q = p then Some y else get_page q st)"
  "get_page q (set_seg s x st) = get_page q st"
  "get_page q (upd_central f st) = get_page q st"
  "get_page q (set_heap a h st) = get_page q st"
  "get_page q (st\<lparr>st_os := os\<rparr>) = get_page q st"
  "get_page q (st\<lparr>st_registry := r\<rparr>) = get_page q st"
  "get_page q (st\<lparr>st_t_heap := th\<rparr>) = get_page q st"
  "get_page q (st\<lparr>st_g_registry := gr\<rparr>) = get_page q st"
  "get_page q (st\<lparr>st_regions := R\<rparr>) = get_page q st"
  by (simp_all add: get_page_def set_seg_def set_page_def upd_central_def set_heap_def)

lemma state_fields [simp]:
  "st_central (set_seg s x st) = st_central st" "st_central (set_page p y st) = st_central st"
  "st_central (upd_central f st) = f (st_central st)"
  "st_os (set_seg s x st) = st_os st" "st_os (set_page p y st) = st_os st" "st_os (upd_central f st) = st_os st"
  "st_registry (set_seg s x st) = st_registry st" "st_registry (set_page p y st) = st_registry st"
  "st_registry (upd_central f st) = st_registry st"
  "st_heaps (set_seg s x st) = st_heaps st" "st_heaps (set_page p y st) = st_heaps st"
  "st_heaps (upd_central f st) = st_heaps st"
  "st_pages (set_seg s x st) = st_pages st" "st_pages (upd_central f st) = st_pages st"
  "st_regions (set_page p y st) = st_regions st" "st_regions (upd_central f st) = st_regions st"
  "st_t_heap (set_seg s x st) = st_t_heap st" "st_t_heap (set_page p y st) = st_t_heap st"
  "st_t_heap (upd_central f st) = st_t_heap st"
  "st_g_registry (set_seg s x st) = st_g_registry st" "st_g_registry (set_page p y st) = st_g_registry st"
  "st_g_registry (upd_central f st) = st_g_registry st"
  "st_large_count (set_seg s x st) = st_large_count st" "st_large_count (set_page p y st) = st_large_count st"
  "st_large_count (upd_central f st) = st_large_count st"
  "st_large_bytes (set_seg s x st) = st_large_bytes st" "st_large_bytes (set_page p y st) = st_large_bytes st"
  "st_large_bytes (upd_central f st) = st_large_bytes st"
  by (simp_all add: set_seg_def set_page_def upd_central_def)

text \<open>The links the lists run over, as total functions of the state.\<close>

definition seg_nx :: "State \<Rightarrow> addr \<Rightarrow> addr" where
  "seg_nx st s = (case get_seg s st of Some x \<Rightarrow> sg_next x | None \<Rightarrow> 0)"

definition av_nx :: "State \<Rightarrow> addr \<Rightarrow> addr" where
  "av_nx st s = (case get_seg s st of Some x \<Rightarrow> sg_avail_next x | None \<Rightarrow> 0)"

definition av_pv :: "State \<Rightarrow> addr \<Rightarrow> addr" where
  "av_pv st s = (case get_seg s st of Some x \<Rightarrow> sg_avail_prev x | None \<Rightarrow> 0)"

definition pg_nx :: "State \<Rightarrow> page_ptr \<Rightarrow> page_ptr" where
  "pg_nx st p = (case get_page p st of Some x \<Rightarrow> pg_next x | None \<Rightarrow> NullPage)"

definition pg_pv :: "State \<Rightarrow> page_ptr \<Rightarrow> page_ptr" where
  "pg_pv st p = (case get_page p st of Some x \<Rightarrow> pg_prev x | None \<Rightarrow> NullPage)"

lemmas link_defs = seg_nx_def av_nx_def av_pv_def pg_nx_def pg_pv_def

end
