(* ===== verification/Central.thy ===== *)
theory Central
  imports Allocator_State
begin

text \<open>
  The central heap (src/src/central.h, src/src/central.cpp): free pages are pooled per
  segment, segments with a free page are on the doubly linked \<open>avail\<close> list, pages of exited
  threads that still hold live objects are on the \<open>abandoned\<close> list. Every entry point holds the
  central mutex, so the operations are sequential. \<open>None\<close> is a null or dangling pointer or a
  loop that does not end; the theory shows that neither happens.
\<close>

section \<open>Operations\<close>

definition SEGMENT_CACHE :: u64 where
  "SEGMENT_CACHE = 1"

definition avail_push :: "addr \<Rightarrow> State \<Rightarrow> State option" where
  "avail_push s st = do {
     let old = cs_avail (st_central st);
     st \<leftarrow> upd_seg s (\<lambda>x. x\<lparr>sg_avail_prev := 0, sg_avail_next := old\<rparr>) st;
     st \<leftarrow> (if old \<noteq> 0 then upd_seg old (\<lambda>x. x\<lparr>sg_avail_prev := s\<rparr>) st else Some st);
     let st = upd_central (\<lambda>g. g\<lparr>cs_avail := s\<rparr>) st;
     upd_seg s (\<lambda>x. x\<lparr>sg_in_avail := True\<rparr>) st }"

definition avail_remove :: "addr \<Rightarrow> State \<Rightarrow> State option" where
  "avail_remove s st = do {
     x \<leftarrow> get_seg s st;
     st \<leftarrow> (if sg_avail_prev x \<noteq> 0
            then upd_seg (sg_avail_prev x) (\<lambda>y. y\<lparr>sg_avail_next := sg_avail_next x\<rparr>) st
            else Some (upd_central (\<lambda>g. g\<lparr>cs_avail := sg_avail_next x\<rparr>) st));
     x \<leftarrow> get_seg s st;
     st \<leftarrow> (if sg_avail_next x \<noteq> 0
            then upd_seg (sg_avail_next x) (\<lambda>y. y\<lparr>sg_avail_prev := sg_avail_prev x\<rparr>) st
            else Some st);
     upd_seg s (\<lambda>x. x\<lparr>sg_avail_prev := 0, sg_avail_next := 0, sg_in_avail := False\<rparr>) st }"

text \<open>The loop of \<open>all_remove\<close> from segment \<open>p\<close> on.\<close>

partial_function (option) all_remove_loop :: "addr \<Rightarrow> addr \<Rightarrow> State \<Rightarrow> State option" where
  "all_remove_loop s p st =
     (if p = 0 then Some st
      else do {
        x \<leftarrow> get_seg p st;
        if sg_next x = s then do {
          y \<leftarrow> get_seg s st;
          upd_seg p (\<lambda>x. x\<lparr>sg_next := sg_next y\<rparr>) st }
        else all_remove_loop s (sg_next x) st })"

definition all_remove :: "addr \<Rightarrow> State \<Rightarrow> State option" where
  "all_remove s st =
     (if cs_segments (st_central st) = s then do {
        x \<leftarrow> get_seg s st;
        Some (upd_central (\<lambda>g. g\<lparr>cs_segments := sg_next x\<rparr>) st) }
      else all_remove_loop s (cs_segments (st_central st)) st)"

text \<open>Unmapping a segment takes its header and its page descriptors with it.\<close>

definition drop_segment :: "addr \<Rightarrow> State \<Rightarrow> State" where
  "drop_segment s st = st\<lparr>st_regions := (st_regions st)(s := None),
     st_pages := (\<lambda>p. case p of PageAt a i \<Rightarrow> if a = s then None else st_pages st p | _ \<Rightarrow> st_pages st p)\<rparr>"

definition pool_unmap :: "kernel \<Rightarrow> addr \<Rightarrow> State \<Rightarrow> State option" where
  "pool_unmap K s st = do {
     st \<leftarrow> avail_remove s st;
     st \<leftarrow> all_remove s st;
     let st = upd_central (\<lambda>g. g\<lparr>cs_num_segments := cs_num_segments g - 1,
       cs_free_segments := cs_free_segments g - 1,
       cs_free_page_count := cs_free_page_count g - USABLE_PAGES_PER_SEGMENT\<rparr>) st;
     r \<leftarrow> region_unregister s (st_registry st);
     let st = st\<lparr>st_registry := r\<rparr>;
     x \<leftarrow> get_seg s st;
     Some (drop_segment s (st\<lparr>st_os := os_free K s (sg_mmap_size x) (st_os st)\<rparr>)) }"

definition pool_return :: "kernel \<Rightarrow> page_ptr \<Rightarrow> State \<Rightarrow> State option" where
  "pool_return K pg st = do {
     p \<leftarrow> get_page pg st;
     let s = segment_of (pg_area p);
     st \<leftarrow> upd_page pg (\<lambda>p. p\<lparr>pg_in_use := False, pg_owner := NullHeap, pg_free := 0,
       pg_block_size := 0, pg_prev := NullPage\<rparr>) st;
     x \<leftarrow> get_seg s st;
     let was_empty_segment = (sg_free_count x = 0);
     st \<leftarrow> upd_page pg (\<lambda>p. p\<lparr>pg_next := sg_free_list x\<rparr>) st;
     st \<leftarrow> upd_seg s (\<lambda>x. x\<lparr>sg_free_list := pg, sg_free_count := sg_free_count x + 1\<rparr>) st;
     let st = upd_central (\<lambda>g. g\<lparr>cs_free_page_count := cs_free_page_count g + 1\<rparr>) st;
     st \<leftarrow> (if was_empty_segment then avail_push s st else Some st);
     x \<leftarrow> get_seg s st;
     if ucast (sg_free_count x) = USABLE_PAGES_PER_SEGMENT then do {
       let st = upd_central (\<lambda>g. g\<lparr>cs_free_segments := cs_free_segments g + 1\<rparr>) st;
       if cs_free_segments (st_central st) > SEGMENT_CACHE then pool_unmap K s st else Some st }
     else Some st }"

text \<open>\<open>collect_locked\<close> is the body of \<open>page_collect\<close>, run under the central lock.\<close>

definition collect_locked :: "Page \<Rightarrow> memory \<Rightarrow> (Page \<times> memory) option" where
  "collect_locked pg m =
     (let list = pg_thread_free pg; pg = pg\<lparr>pg_thread_free := 0\<rparr> in
      if list = 0 then Some (pg, m)
      else do {
        (tail, n) \<leftarrow> find_tail m list 1;
        Some (pg\<lparr>pg_free := list, pg_used := pg_used pg - n\<rparr>, store64 tail (pg_free pg) m) })"

text \<open>The link the sweep holds a pointer to: the list head or the \<open>next\<close> of a page.\<close>

definition sweep_link :: "page_ptr option \<Rightarrow> State \<Rightarrow> page_ptr option" where
  "sweep_link pp st = (case pp of None \<Rightarrow> Some (cs_abandoned (st_central st))
     | Some q \<Rightarrow> map_option pg_next (get_page q st))"

definition sweep_set_link :: "page_ptr option \<Rightarrow> page_ptr \<Rightarrow> State \<Rightarrow> State option" where
  "sweep_set_link pp v st = (case pp of None \<Rightarrow> Some (upd_central (\<lambda>g. g\<lparr>cs_abandoned := v\<rparr>) st)
     | Some q \<Rightarrow> upd_page q (\<lambda>x. x\<lparr>pg_next := v\<rparr>) st)"

partial_function (option) sweep_loop :: "kernel \<Rightarrow> page_ptr option \<Rightarrow> State \<Rightarrow> State option" where
  "sweep_loop K pp st = do {
     pg \<leftarrow> sweep_link pp st;
     if pg = NullPage then Some st
     else do {
       st \<leftarrow> on_page collect_locked pg st;
       p \<leftarrow> get_page pg st;
       if pg_used p = 0 then do {
         st \<leftarrow> sweep_set_link pp (pg_next p) st;
         let st = upd_central (\<lambda>g. g\<lparr>cs_abandoned_count := cs_abandoned_count g - 1\<rparr>) st;
         st \<leftarrow> pool_return K pg st;
         sweep_loop K pp st }
       else sweep_loop K (Some pg) st } }"

definition sweep_abandoned :: "kernel \<Rightarrow> State \<Rightarrow> State option" where
  "sweep_abandoned K st = sweep_loop K None st"

text \<open>The loop of \<open>map_segment\<close> over the usable pages.\<close>

fun init_pages :: "addr \<Rightarrow> nat list \<Rightarrow> State \<Rightarrow> State option" where
  "init_pages s [] st = Some st"
| "init_pages s (i # is) st = do {
     x \<leftarrow> get_seg s st;
     st \<leftarrow> upd_page (PageAt s i) (\<lambda>p. p\<lparr>pg_area := s + of_nat i * PAGE_SIZE, pg_in_use := False,
       pg_next := sg_free_list x\<rparr>) st;
     st \<leftarrow> upd_seg s (\<lambda>x. x\<lparr>sg_free_list := PageAt s i, sg_free_count := sg_free_count x + 1\<rparr>) st;
     init_pages s is st }"

definition new_segment :: "addr \<Rightarrow> State \<Rightarrow> State" where
  "new_segment s st = st\<lparr>st_regions := (st_regions st)(s \<mapsto> SegmentRegion (zero_segment\<lparr>
       sg_kind := Small, sg_page_count := ucast PAGES_PER_SEGMENT, sg_mmap_size := SEGMENT_SIZE,
       sg_free_list := NullPage, sg_free_count := 0\<rparr>)),
     st_pages := (\<lambda>p. case p of PageAt a i \<Rightarrow>
         if a = s \<and> i < unat PAGES_PER_SEGMENT then Some zero_page else st_pages st p
       | _ \<Rightarrow> st_pages st p)\<rparr>"

definition map_segment :: "kernel \<Rightarrow> State \<Rightarrow> (bool \<times> State) option" where
  "map_segment K st =
     (case os_alloc_aligned K SEGMENT_SIZE SEGMENT_SIZE (st_os st) of (s, os) \<Rightarrow>
        let st = st\<lparr>st_os := os\<rparr> in
        if s = 0 then Some (False, st)
        else do {
          let st = new_segment s st;
          st \<leftarrow> init_pages s [unat FIRST_USABLE_PAGE..<unat PAGES_PER_SEGMENT] st;
          x \<leftarrow> get_seg s st;
          let st = upd_central (\<lambda>g. g\<lparr>cs_free_page_count := cs_free_page_count g + ucast (sg_free_count x)\<rparr>) st;
          st \<leftarrow> upd_seg s (\<lambda>x. x\<lparr>sg_next := cs_segments (st_central st)\<rparr>) st;
          let st = upd_central (\<lambda>g. g\<lparr>cs_segments := s, cs_num_segments := cs_num_segments g + 1,
            cs_free_segments := cs_free_segments g + 1\<rparr>) st;
          st \<leftarrow> avail_push s st;
          (r, os) \<leftarrow> region_register K s (st_registry st) (st_os st);
          Some (True, st\<lparr>st_registry := r, st_os := os\<rparr>) })"

text \<open>The page taken from the first available segment and its fields reset.\<close>

definition take_page :: "heap_ptr \<Rightarrow> u32 \<Rightarrow> u32 \<Rightarrow> State \<Rightarrow> (page_ptr \<times> State) option" where
  "take_page owner cls block_size st = do {
     let s = cs_avail (st_central st);
     x \<leftarrow> get_seg s st;
     let st = (if ucast (sg_free_count x) = USABLE_PAGES_PER_SEGMENT
               then upd_central (\<lambda>g. g\<lparr>cs_free_segments := cs_free_segments g - 1\<rparr>) st else st);
     let pg = sg_free_list x;
     p \<leftarrow> get_page pg st;
     st \<leftarrow> upd_seg s (\<lambda>x. x\<lparr>sg_free_list := pg_next p, sg_free_count := sg_free_count x - 1\<rparr>) st;
     let st = upd_central (\<lambda>g. g\<lparr>cs_free_page_count := cs_free_page_count g - 1\<rparr>) st;
     x \<leftarrow> get_seg s st;
     st \<leftarrow> (if sg_free_count x = 0 then avail_remove s st else Some st);
     let st = upd_central (\<lambda>g. g\<lparr>cs_pages_in_use := cs_pages_in_use g + 1\<rparr>) st;
     st \<leftarrow> (if block_size = 0 then None else upd_page pg (\<lambda>p. p\<lparr>pg_free := 0, pg_used := 0,
       pg_capacity := ucast (PAGE_SIZE div ucast block_size), pg_reserved := 0,
       pg_block_size := block_size, pg_size_class := cls, pg_in_use := True, pg_owner := owner,
       pg_next := NullPage, pg_prev := NullPage, pg_thread_free := 0\<rparr>) st);
     Some (pg, st) }"

definition central_acquire_page :: "kernel \<Rightarrow> heap_ptr \<Rightarrow> u32 \<Rightarrow> u32 \<Rightarrow> State \<Rightarrow> (page_ptr \<times> State) option" where
  "central_acquire_page K owner cls block_size st = do {
     (ok, st) \<leftarrow> (if cs_avail (st_central st) = 0 then do {
         st \<leftarrow> sweep_abandoned K st;
         if cs_avail (st_central st) = 0 then map_segment K st else Some (True, st) }
       else Some (True, st));
     if \<not> ok then Some (NullPage, st) else take_page owner cls block_size st }"

definition central_release_page :: "kernel \<Rightarrow> page_ptr \<Rightarrow> State \<Rightarrow> State option" where
  "central_release_page K pg st =
     pool_return K pg (upd_central (\<lambda>g. g\<lparr>cs_pages_in_use := cs_pages_in_use g - 1\<rparr>) st)"

definition central_abandon_page :: "page_ptr \<Rightarrow> State \<Rightarrow> State option" where
  "central_abandon_page pg st = do {
     st \<leftarrow> upd_page pg (\<lambda>p. p\<lparr>pg_owner := AbandonedOwner, pg_prev := NullPage,
       pg_next := cs_abandoned (st_central st)\<rparr>) st;
     Some (upd_central (\<lambda>g. g\<lparr>cs_abandoned := pg, cs_abandoned_count := cs_abandoned_count g + 1,
       cs_pages_in_use := cs_pages_in_use g - 1\<rparr>) st) }"

record CentralStats =
  stat_segments :: u64
  stat_pages_in_use :: u64
  stat_free_pages :: u64

definition central_stats :: "State \<Rightarrow> CentralStats" where
  "central_stats st = (let g = st_central st in
     \<lparr>stat_segments = cs_num_segments g, stat_pages_in_use = cs_pages_in_use g,
      stat_free_pages = cs_free_page_count g\<rparr>)"

end
