(* ===== verification/Thread_Heap.thy ===== *)
theory Thread_Heap
  imports Central
begin

text \<open>
  Per-thread heaps (src/src/heap.h, src/src/heap.cpp): each thread has, per size class, a doubly
  linked list of pages whose head serves the fast path. Modelled is the default build, in
  which the statistics counters of a heap are not updated. The thread \<open>t\<close> that runs an operation
  is a parameter; operations of different threads interleave as whole operations here, the
  cross-thread free list is also modelled step by step in a theory of its own.
\<close>

section \<open>Operations\<close>

text \<open>\<open>sizeof(Heap)\<close>: the page pointers, three counters and the registry link.\<close>

definition SIZEOF_HEAP :: u64 where
  "SIZEOF_HEAP = ucast num_size_classes * 8 + 3 * 8 + 8"

definition heap_bytes :: "kernel \<Rightarrow> u64" where
  "heap_bytes K = (let ps = os_page_size K in (SIZEOF_HEAP + ps - 1) AND NOT (ps - 1))"

text \<open>\<open>h->pages[c]\<close>: no result for a null heap or a class outside the array.\<close>

definition heap_slot :: "heap_ptr \<Rightarrow> u32 \<Rightarrow> State \<Rightarrow> page_ptr option" where
  "heap_slot h c st = do {
     (a, x) \<leftarrow> get_heap h st;
     if unat c < length (hp_pages x) then Some (hp_pages x ! unat c) else None }"

definition set_heap_slot :: "heap_ptr \<Rightarrow> u32 \<Rightarrow> page_ptr \<Rightarrow> State \<Rightarrow> State option" where
  "set_heap_slot h c p st = do {
     (a, x) \<leftarrow> get_heap h st;
     if unat c < length (hp_pages x)
     then Some (set_heap a (x\<lparr>hp_pages := (hp_pages x)[unat c := p]\<rparr>) st) else None }"

definition heap_create :: "kernel \<Rightarrow> nat \<Rightarrow> State \<Rightarrow> heap_ptr \<times> State" where
  "heap_create K t st =
     (case os_alloc_aligned K (heap_bytes K) (os_page_size K) (st_os st) of (a, os) \<Rightarrow>
        let st = st\<lparr>st_os := os\<rparr> in
        if a = 0 then (NullHeap, st)
        else
          let h = \<lparr>hp_pages = replicate (unat num_size_classes) EmptyPage, hp_n_malloc = 0, hp_n_fast = 0,
                hp_n_slow = 0, hp_reg_next = st_g_registry st\<rparr>
          in (HeapAt a, (set_heap a h st)\<lparr>st_g_registry := HeapAt a,
                st_t_heap := (st_t_heap st)(t := HeapAt a)\<rparr>))"

definition heap_get :: "kernel \<Rightarrow> nat \<Rightarrow> State \<Rightarrow> heap_ptr \<times> State" where
  "heap_get K t st = (if st_t_heap st t \<noteq> NullHeap then (st_t_heap st t, st) else heap_create K t st)"

definition heap_rotate_to_front :: "heap_ptr \<Rightarrow> u32 \<Rightarrow> page_ptr \<Rightarrow> State \<Rightarrow> State option" where
  "heap_rotate_to_front h c p st = do {
     head \<leftarrow> heap_slot h c st;
     if p = head then Some st
     else do {
       x \<leftarrow> get_page p st;
       st \<leftarrow> (if pg_prev x \<noteq> NullPage then upd_page (pg_prev x) (\<lambda>y. y\<lparr>pg_next := pg_next x\<rparr>) st else Some st);
       x \<leftarrow> get_page p st;
       st \<leftarrow> (if pg_next x \<noteq> NullPage then upd_page (pg_next x) (\<lambda>y. y\<lparr>pg_prev := pg_prev x\<rparr>) st else Some st);
       st \<leftarrow> upd_page p (\<lambda>x. x\<lparr>pg_prev := NullPage, pg_next := head\<rparr>) st;
       st \<leftarrow> (if head \<noteq> NullPage then upd_page head (\<lambda>y. y\<lparr>pg_prev := p\<rparr>) st else Some st);
       set_heap_slot h c p st } }"

definition make_available :: "page_ptr \<Rightarrow> State \<Rightarrow> (bool \<times> State) option" where
  "make_available p st = do {
     x \<leftarrow> get_page p st;
     (av, x, m) \<leftarrow> page_make_available x (st_mem st);
     Some (av, upd_mem m (set_page p x st)) }"

definition pop_page :: "page_ptr \<Rightarrow> State \<Rightarrow> (addr \<times> State) option" where
  "pop_page p st = do {
     x \<leftarrow> get_page p st;
     (b, x) \<leftarrow> page_pop x (st_mem st);
     Some (b, set_page p x st) }"

text \<open>The walk of \<open>heap_malloc_slow\<close> over the class's pages; \<open>None\<close> in the result: no page can serve.\<close>

partial_function (option) slow_walk ::
  "heap_ptr \<Rightarrow> u32 \<Rightarrow> page_ptr \<Rightarrow> page_ptr \<Rightarrow> State \<Rightarrow> (addr option \<times> State) option" where
  "slow_walk h c head p st =
     (if p = NullPage then Some (None, st)
      else do {
        (av, st) \<leftarrow> make_available p st;
        if av then do {
          st \<leftarrow> (if p \<noteq> head then heap_rotate_to_front h c p st else Some st);
          (b, st) \<leftarrow> pop_page p st;
          Some (Some b, st) }
        else do {
          x \<leftarrow> get_page p st;
          slow_walk h c head (pg_next x) st } })"

text \<open>A fresh page becomes the head of its class and serves the request.\<close>

definition slow_fresh :: "kernel \<Rightarrow> heap_ptr \<Rightarrow> u32 \<Rightarrow> page_ptr \<Rightarrow> State \<Rightarrow> (addr \<times> State) option" where
  "slow_fresh K h c head st = do {
     bs \<leftarrow> class_to_size c;
     (np, st) \<leftarrow> central_acquire_page K h c bs st;
     if np = NullPage then Some (0, st)
     else do {
       let nx = (if head \<noteq> EmptyPage then head else NullPage);
       st \<leftarrow> upd_page np (\<lambda>x. x\<lparr>pg_prev := NullPage, pg_next := nx\<rparr>) st;
       st \<leftarrow> (if nx \<noteq> NullPage then upd_page nx (\<lambda>y. y\<lparr>pg_prev := np\<rparr>) st else Some st);
       st \<leftarrow> set_heap_slot h c np st;
       (av, st) \<leftarrow> make_available np st;
       if \<not> av then Some (0, st) else pop_page np st } }"

definition heap_malloc_slow :: "kernel \<Rightarrow> heap_ptr \<Rightarrow> u32 \<Rightarrow> State \<Rightarrow> (addr \<times> State) option" where
  "heap_malloc_slow K h c st =
     (if h = NullHeap then Some (0, st)
      else do {
        head \<leftarrow> heap_slot h c st;
        (r, st) \<leftarrow> (if head \<noteq> EmptyPage then slow_walk h c head head st else Some (None, st));
        case r of Some b \<Rightarrow> Some (b, st) | None \<Rightarrow> slow_fresh K h c head st })"

text \<open>The fast path reads \<open>h->pages[c]\<close> whatever \<open>heap_get\<close> returned.\<close>

definition heap_malloc :: "kernel \<Rightarrow> nat \<Rightarrow> u64 \<Rightarrow> State \<Rightarrow> (addr \<times> State) option" where
  "heap_malloc K t sz st = do {
     let c = size_class sz;
     let (h, st) = heap_get K t st;
     p \<leftarrow> heap_slot h c st;
     x \<leftarrow> get_page p st;
     if pg_free x \<noteq> 0
     then Some (pg_free x, set_page p (x\<lparr>pg_free := load64 (st_mem st) (pg_free x), pg_used := pg_used x + 1\<rparr>) st)
     else heap_malloc_slow K h c st }"

definition heap_on_page_empty :: "kernel \<Rightarrow> page_ptr \<Rightarrow> State \<Rightarrow> State option" where
  "heap_on_page_empty K pg st = do {
     x \<leftarrow> get_page pg st;
     head \<leftarrow> heap_slot (pg_owner x) (pg_size_class x) st;
     if head = pg then Some st
     else do {
       st \<leftarrow> upd_page (pg_prev x) (\<lambda>y. y\<lparr>pg_next := pg_next x\<rparr>) st;
       x \<leftarrow> get_page pg st;
       st \<leftarrow> (if pg_next x \<noteq> NullPage then upd_page (pg_next x) (\<lambda>y. y\<lparr>pg_prev := pg_prev x\<rparr>) st else Some st);
       central_release_page K pg st } }"

definition heap_free_remote :: "page_ptr \<Rightarrow> addr \<Rightarrow> State \<Rightarrow> State option" where
  "heap_free_remote pg p st = on_page (\<lambda>x m. Some (page_free_remote p x m)) pg st"

definition heap_free :: "kernel \<Rightarrow> nat \<Rightarrow> addr \<Rightarrow> State \<Rightarrow> State option" where
  "heap_free K t p st = do {
     let s = segment_of p;
     let pg = page_of s p;
     x \<leftarrow> get_page pg st;
     if pg_owner x = st_t_heap st t then do {
       st \<leftarrow> on_page (\<lambda>x m. Some (page_free_local p x m)) pg st;
       x \<leftarrow> get_page pg st;
       if pg_used x = 0 then heap_on_page_empty K pg st else Some st }
     else heap_free_remote pg p st }"

section \<open>Thread exit\<close>

text \<open>The inner loop of \<open>heap_destroy\<close> over the pages of a class.\<close>

partial_function (option) destroy_pages :: "kernel \<Rightarrow> page_ptr \<Rightarrow> State \<Rightarrow> State option" where
  "destroy_pages K p st =
     (if p = NullPage \<or> p = EmptyPage then Some st
      else do {
        x \<leftarrow> get_page p st;
        let nx = pg_next x;
        st \<leftarrow> on_page page_collect p st;
        x \<leftarrow> get_page p st;
        st \<leftarrow> (if pg_used x = 0 then central_release_page K p st else central_abandon_page p st);
        destroy_pages K nx st })"

fun destroy_classes :: "kernel \<Rightarrow> heap_ptr \<Rightarrow> nat list \<Rightarrow> State \<Rightarrow> State option" where
  "destroy_classes K h [] st = Some st"
| "destroy_classes K h (c # cs) st = do {
     p \<leftarrow> heap_slot h (of_nat c) st;
     st \<leftarrow> (if p = EmptyPage then Some st
            else do { st \<leftarrow> destroy_pages K p st; set_heap_slot h (of_nat c) EmptyPage st });
     destroy_classes K h cs st }"

text \<open>Unlinking the heap from the registry of heaps, following \<open>Heap **pp\<close>.\<close>

definition registry_link :: "heap_ptr option \<Rightarrow> State \<Rightarrow> heap_ptr option" where
  "registry_link pp st = (case pp of None \<Rightarrow> Some (st_g_registry st)
     | Some q \<Rightarrow> map_option (\<lambda>(a, x). hp_reg_next x) (get_heap q st))"

definition registry_set_link :: "heap_ptr option \<Rightarrow> heap_ptr \<Rightarrow> State \<Rightarrow> State option" where
  "registry_set_link pp v st = (case pp of None \<Rightarrow> Some (st\<lparr>st_g_registry := v\<rparr>)
     | Some q \<Rightarrow> do { (a, x) \<leftarrow> get_heap q st; Some (set_heap a (x\<lparr>hp_reg_next := v\<rparr>) st) })"

partial_function (option) registry_unlink :: "heap_ptr \<Rightarrow> heap_ptr option \<Rightarrow> State \<Rightarrow> State option" where
  "registry_unlink h pp st = do {
     q \<leftarrow> registry_link pp st;
     if q = NullHeap then Some st
     else if q = h then do { (a, x) \<leftarrow> get_heap h st; registry_set_link pp (hp_reg_next x) st }
     else registry_unlink h (Some q) st }"

definition heap_destroy :: "kernel \<Rightarrow> heap_ptr \<Rightarrow> State \<Rightarrow> State option" where
  "heap_destroy K h st = do {
     st \<leftarrow> destroy_classes K h [0..<unat num_size_classes] st;
     st \<leftarrow> registry_unlink h None st;
     (a, x) \<leftarrow> get_heap h st;
     Some (st\<lparr>st_heaps := (st_heaps st)(a := None), st_os := os_free K a (heap_bytes K) (st_os st)\<rparr>) }"

text \<open>The destructor of \<open>t_guard\<close>, run when thread \<open>t\<close> exits.\<close>

definition thread_exit :: "kernel \<Rightarrow> nat \<Rightarrow> State \<Rightarrow> State option" where
  "thread_exit K t st =
     (if st_t_heap st t \<noteq> NullHeap then do {
        st' \<leftarrow> heap_destroy K (st_t_heap st t) st;
        Some (st'\<lparr>st_t_heap := (st_t_heap st')(t := NullHeap)\<rparr>) }
      else Some st)"

section \<open>Statistics\<close>

partial_function (option) sum_counts ::
  "heap_ptr \<Rightarrow> u64 \<Rightarrow> u64 \<Rightarrow> u64 \<Rightarrow> State \<Rightarrow> (u64 \<times> u64 \<times> u64) option" where
  "sum_counts h m f s st =
     (if h = NullHeap then Some (m, f, s)
      else do {
        (a, x) \<leftarrow> get_heap h st;
        sum_counts (hp_reg_next x) (m + hp_n_malloc x) (f + hp_n_fast x) (s + hp_n_slow x) st })"

definition heap_global_counts :: "State \<Rightarrow> (u64 \<times> u64 \<times> u64) option" where
  "heap_global_counts st = sum_counts (st_g_registry st) 0 0 0 st"

end
