(* ===== verification/HMalloc.thy ===== *)
theory HMalloc
  imports Thread_Heap
begin

text \<open>
  The public API (src/include/hmalloc/hmalloc.h, src/src/hmalloc.cpp): requests up to
  \<open>SMALL_SIZE_MAX\<close> go to the calling thread's heap, larger ones get a segment-aligned OS region
  of their own behind a \<open>LargeHeader\<close>. \<open>t\<close> is the calling thread; address 0 is the null pointer.
\<close>

section \<open>Large allocations\<close>

definition round_up :: "u64 \<Rightarrow> u64 \<Rightarrow> u64" where
  "round_up n a = (n + (a - 1)) AND NOT (a - 1)"

definition alloc_large :: "kernel \<Rightarrow> u64 \<Rightarrow> u64 \<Rightarrow> State \<Rightarrow> (addr \<times> State) option" where
  "alloc_large K sz align st =
     (let offset = (if align > ALLOC_ALIGN then round_up LARGE_OFFSET align else LARGE_OFFSET);
          total = offset + sz
      in if total < sz then Some (0, st)
      else
        let mmap_size = round_up total (os_page_size K) in
        if mmap_size < total then Some (0, st)
        else case os_alloc_aligned K mmap_size SEGMENT_SIZE (st_os st) of (a, os) \<Rightarrow>
          let st = st\<lparr>st_os := os\<rparr> in
          if a = 0 then Some (0, st)
          else do {
            let st = st\<lparr>st_regions := (st_regions st)(a \<mapsto> LargeRegion \<lparr>lh_kind = Large,
                  lh_mmap_size = mmap_size, lh_offset = offset, lh_req_size = sz\<rparr>),
                st_large_count := st_large_count st + 1,
                st_large_bytes := st_large_bytes st + mmap_size\<rparr>;
            (r, os) \<leftarrow> region_register K a (st_registry st) (st_os st);
            Some (a + offset, st\<lparr>st_registry := r, st_os := os\<rparr>) })"

definition free_large :: "kernel \<Rightarrow> addr \<Rightarrow> State \<Rightarrow> State option" where
  "free_large K p st = do {
     let a = region_base p;
     h \<leftarrow> get_large a st;
     let msz = lh_mmap_size h;
     let st = st\<lparr>st_large_count := st_large_count st - 1, st_large_bytes := st_large_bytes st - msz\<rparr>;
     r \<leftarrow> region_unregister a (st_registry st);
     Some (st\<lparr>st_registry := r, st_os := os_free K a msz (st_os st), st_regions := (st_regions st)(a := None)\<rparr>) }"

section \<open>The API\<close>

definition hm_malloc :: "kernel \<Rightarrow> nat \<Rightarrow> u64 \<Rightarrow> State \<Rightarrow> (addr \<times> State) option" where
  "hm_malloc K t sz st =
     (if sz = 0 then Some (0, st)
      else if sz \<le> SMALL_SIZE_MAX then heap_malloc K t sz st
      else alloc_large K sz ALLOC_ALIGN st)"

definition hm_free :: "kernel \<Rightarrow> nat \<Rightarrow> addr \<Rightarrow> State \<Rightarrow> State option" where
  "hm_free K t p st =
     (if p = 0 then Some st
      else do {
        k \<leftarrow> kind_of p st;
        if k = Large then free_large K p st else heap_free K t p st })"

definition memset_zero :: "addr \<Rightarrow> u64 \<Rightarrow> memory \<Rightarrow> memory" where
  "memset_zero p n m = (\<lambda>x. if in_region p n x then 0 else m x)"

definition memcpy :: "addr \<Rightarrow> addr \<Rightarrow> u64 \<Rightarrow> memory \<Rightarrow> memory" where
  "memcpy dst src n m = (\<lambda>x. if in_region dst n x then m (src + (x - dst)) else m x)"

definition hm_calloc :: "kernel \<Rightarrow> nat \<Rightarrow> u64 \<Rightarrow> u64 \<Rightarrow> State \<Rightarrow> (addr \<times> State) option" where
  "hm_calloc K t nmemb sz st =
     (if nmemb = 0 \<or> sz = 0 then Some (0, st)
      else if nmemb > SIZE_MAX div sz then Some (0, st)
      else
        let total = nmemb * sz in
        if total \<le> SMALL_SIZE_MAX then do {
          (p, st) \<leftarrow> heap_malloc K t total st;
          Some (p, if p \<noteq> 0 then upd_mem (memset_zero p total (st_mem st)) st else st) }
        else alloc_large K total ALLOC_ALIGN st)"

definition hm_usable_size :: "addr \<Rightarrow> State \<Rightarrow> u64 option" where
  "hm_usable_size p st =
     (if p = 0 then Some 0
      else do {
        k \<leftarrow> kind_of p st;
        if k = Large then map_option (\<lambda>h. lh_mmap_size h - lh_offset h) (get_large (region_base p) st)
        else map_option (\<lambda>x. ucast (pg_block_size x)) (get_page (page_of (segment_of p) p) st) })"

definition hm_realloc :: "kernel \<Rightarrow> nat \<Rightarrow> addr \<Rightarrow> u64 \<Rightarrow> State \<Rightarrow> (addr \<times> State) option" where
  "hm_realloc K t p sz st =
     (if p = 0 then hm_malloc K t sz st
      else if sz = 0 then map_option (Pair 0) (hm_free K t p st)
      else do {
        old_usable \<leftarrow> hm_usable_size p st;
        if sz \<le> old_usable \<and> (old_usable \<le> SMALL_SIZE_MAX \<or> sz > old_usable div 2) then Some (p, st)
        else do {
          (np, st) \<leftarrow> hm_malloc K t sz st;
          if np = 0 then Some (0, st)
          else do {
            let n = (if sz < old_usable then sz else old_usable);
            st \<leftarrow> hm_free K t p (upd_mem (memcpy np p n (st_mem st)) st);
            Some (np, st) } } })"

text \<open>The search for a class whose block size is a multiple of the alignment.\<close>

function aligned_class :: "u64 \<Rightarrow> u32 \<Rightarrow> u32 option" where
  "aligned_class alignment c =
     (if c < num_size_classes then do {
        bs \<leftarrow> class_to_size c;
        if ucast bs mod alignment \<noteq> 0 then aligned_class alignment (c + 1) else Some c }
      else Some c)"
  by pat_completeness auto

termination aligned_class
proof (relation "measure (\<lambda>(a, c). unat num_size_classes - unat c)", goal_cases)
  case (2 alignment c bs)
  then have "unat c < 36" by (simp add: word_less_nat_alt)
  then have "unat (c + 1) = unat c + 1" by (subst unat_word_ariths) simp
  then show ?case using \<open>unat c < 36\<close> by simp
qed simp

declare aligned_class.simps [simp del]

definition hm_aligned_alloc :: "kernel \<Rightarrow> nat \<Rightarrow> u64 \<Rightarrow> u64 \<Rightarrow> State \<Rightarrow> (addr \<times> State) option" where
  "hm_aligned_alloc K t alignment sz st =
     (let large = (if alignment > SEGMENT_SIZE div 2 then Some (0, st) else alloc_large K sz alignment st) in
      if sz = 0 then Some (0, st)
      else if alignment = 0 \<or> alignment AND (alignment - 1) \<noteq> 0 then Some (0, st)
      else if alignment \<le> ALLOC_ALIGN then hm_malloc K t sz st
      else
        let need = (if sz > alignment then sz else alignment) in
        if need \<le> SMALL_SIZE_MAX then do {
          c \<leftarrow> aligned_class alignment (size_class need);
          if c < num_size_classes then do { bs \<leftarrow> class_to_size c; heap_malloc K t (ucast bs) st }
          else large }
        else large)"

record hm_stats_t =
  bytes_reserved :: u64
  peak_bytes_reserved :: u64
  segments_mapped :: u64
  pages_in_use :: u64
  pages_free :: u64
  large_allocations :: u64
  large_bytes :: u64
  malloc_count :: u64
  fast_path_count :: u64
  slow_path_count :: u64

definition hm_stats :: "State \<Rightarrow> hm_stats_t option" where
  "hm_stats st = do {
     let os = os_stats (st_os st);
     let c = central_stats st;
     (m, f, s) \<leftarrow> heap_global_counts st;
     Some \<lparr>bytes_reserved = bytes_mapped os, peak_bytes_reserved = peak_mapped os,
       segments_mapped = stat_segments c, pages_in_use = stat_pages_in_use c, pages_free = stat_free_pages c,
       large_allocations = st_large_count st, large_bytes = st_large_bytes st,
       malloc_count = m, fast_path_count = f, slow_path_count = s\<rparr> }"

end
