(* ===== verification/Override.thy ===== *)
theory Override
  imports HMalloc
begin

text \<open>
  The drop-in malloc replacement (src/src/override.cpp): pointers are told apart by asking the
  region registry about their region base; those that are not hmalloc's go to the next
  allocator, which \<open>dlsym\<close> looks up. That allocator is a parameter: each entry may be missing,
  and what it does to memory is its own. The entry points are those of the ELF build; the
  Mach-O interposition table, which registers the same bodies, is not modelled.
\<close>

record real_allocator =
  real_free :: "(addr \<Rightarrow> os_state \<Rightarrow> os_state) option"
  real_realloc :: "(addr \<Rightarrow> u64 \<Rightarrow> os_state \<Rightarrow> addr \<times> os_state) option"
  real_usable :: "(addr \<Rightarrow> os_state \<Rightarrow> u64) option"

definition ours :: "addr \<Rightarrow> State \<Rightarrow> bool option" where
  "ours p st = region_owns (region_base p) (st_registry st)"

definition checked_free :: "kernel \<Rightarrow> real_allocator \<Rightarrow> nat \<Rightarrow> addr \<Rightarrow> State \<Rightarrow> State option" where
  "checked_free K R t p st =
     (if p = 0 then Some st
      else do {
        own \<leftarrow> ours p st;
        if own then hm_free K t p st
        else Some (case real_free R of None \<Rightarrow> st | Some rf \<Rightarrow> st\<lparr>st_os := rf p (st_os st)\<rparr>) })"

definition checked_realloc ::
  "kernel \<Rightarrow> real_allocator \<Rightarrow> nat \<Rightarrow> addr \<Rightarrow> u64 \<Rightarrow> State \<Rightarrow> (addr \<times> State) option" where
  "checked_realloc K R t p sz st =
     (if p = 0 then hm_malloc K t sz st
      else do {
        own \<leftarrow> ours p st;
        if own then hm_realloc K t p sz st
        else Some (case real_realloc R of None \<Rightarrow> (0, st)
          | Some rr \<Rightarrow> (case rr p sz (st_os st) of (q, os) \<Rightarrow> (q, st\<lparr>st_os := os\<rparr>))) })"

definition checked_usable :: "real_allocator \<Rightarrow> addr \<Rightarrow> State \<Rightarrow> u64 option" where
  "checked_usable R p st =
     (if p = 0 then Some 0
      else do {
        own \<leftarrow> ours p st;
        if own then hm_usable_size p st
        else Some (case real_usable R of None \<Rightarrow> 0 | Some ru \<Rightarrow> ru p (st_os st)) })"

definition aligned :: "kernel \<Rightarrow> nat \<Rightarrow> u64 \<Rightarrow> u64 \<Rightarrow> State \<Rightarrow> (addr \<times> State) option" where
  "aligned K t alignment sz st = hm_aligned_alloc K t alignment sz st"

definition EINVAL :: int where
  "EINVAL = 22"

definition ENOMEM :: int where
  "ENOMEM = 12"

definition do_posix_memalign ::
  "kernel \<Rightarrow> nat \<Rightarrow> addr \<Rightarrow> u64 \<Rightarrow> u64 \<Rightarrow> State \<Rightarrow> (int \<times> State) option" where
  "do_posix_memalign K t out alignment sz st =
     (if out = 0 then Some (EINVAL, st)
      else if alignment < 8 \<or> alignment AND (alignment - 1) \<noteq> 0 then Some (EINVAL, st)
      else do {
        (p, st) \<leftarrow> hm_aligned_alloc K t alignment (if sz \<noteq> 0 then sz else 1) st;
        if p = 0 then Some (ENOMEM, st)
        else Some (0, upd_mem (store64 out p (st_mem st)) st) })"

definition do_valloc :: "kernel \<Rightarrow> nat \<Rightarrow> u64 \<Rightarrow> State \<Rightarrow> (addr \<times> State) option" where
  "do_valloc K t sz st =
     (let ps = k_pagesize K in hm_aligned_alloc K t (if ps > 0 then of_int ps else 4096) sz st)"

section \<open>The C entry points\<close>

definition c_malloc :: "kernel \<Rightarrow> nat \<Rightarrow> u64 \<Rightarrow> State \<Rightarrow> (addr \<times> State) option" where
  "c_malloc K t s st = hm_malloc K t s st"

definition c_free :: "kernel \<Rightarrow> real_allocator \<Rightarrow> nat \<Rightarrow> addr \<Rightarrow> State \<Rightarrow> State option" where
  "c_free K R t p st = checked_free K R t p st"

definition c_calloc :: "kernel \<Rightarrow> nat \<Rightarrow> u64 \<Rightarrow> u64 \<Rightarrow> State \<Rightarrow> (addr \<times> State) option" where
  "c_calloc K t n s st = hm_calloc K t n s st"

definition c_realloc :: "kernel \<Rightarrow> real_allocator \<Rightarrow> nat \<Rightarrow> addr \<Rightarrow> u64 \<Rightarrow> State \<Rightarrow> (addr \<times> State) option" where
  "c_realloc K R t p s st = checked_realloc K R t p s st"

definition c_aligned_alloc :: "kernel \<Rightarrow> nat \<Rightarrow> u64 \<Rightarrow> u64 \<Rightarrow> State \<Rightarrow> (addr \<times> State) option" where
  "c_aligned_alloc K t a s st = aligned K t a s st"

definition c_memalign :: "kernel \<Rightarrow> nat \<Rightarrow> u64 \<Rightarrow> u64 \<Rightarrow> State \<Rightarrow> (addr \<times> State) option" where
  "c_memalign K t a s st = aligned K t a s st"

definition c_valloc :: "kernel \<Rightarrow> nat \<Rightarrow> u64 \<Rightarrow> State \<Rightarrow> (addr \<times> State) option" where
  "c_valloc K t s st = do_valloc K t s st"

definition c_posix_memalign :: "kernel \<Rightarrow> nat \<Rightarrow> addr \<Rightarrow> u64 \<Rightarrow> u64 \<Rightarrow> State \<Rightarrow> (int \<times> State) option" where
  "c_posix_memalign K t out a s st = do_posix_memalign K t out a s st"

definition c_malloc_usable_size :: "real_allocator \<Rightarrow> addr \<Rightarrow> State \<Rightarrow> u64 option" where
  "c_malloc_usable_size R p st = checked_usable R p st"

section \<open>The C++ operators\<close>

text \<open>\<open>operator new\<close>: \<open>Inl ()\<close> is a thrown \<open>std::bad_alloc\<close>.\<close>

definition throwing :: "addr \<times> State \<Rightarrow> (unit + addr) \<times> State" where
  "throwing = (\<lambda>(p, st). (if p = 0 then Inl () else Inr p, st))"

definition operator_new :: "kernel \<Rightarrow> nat \<Rightarrow> u64 \<Rightarrow> State \<Rightarrow> ((unit + addr) \<times> State) option" where
  "operator_new K t s st = map_option throwing (hm_malloc K t (if s \<noteq> 0 then s else 1) st)"

definition operator_new_nothrow :: "kernel \<Rightarrow> nat \<Rightarrow> u64 \<Rightarrow> State \<Rightarrow> (addr \<times> State) option" where
  "operator_new_nothrow K t s st = hm_malloc K t (if s \<noteq> 0 then s else 1) st"

definition operator_new_aligned ::
  "kernel \<Rightarrow> nat \<Rightarrow> u64 \<Rightarrow> u64 \<Rightarrow> State \<Rightarrow> ((unit + addr) \<times> State) option" where
  "operator_new_aligned K t s a st =
     map_option throwing (hm_aligned_alloc K t a (if s \<noteq> 0 then s else 1) st)"

definition operator_delete :: "kernel \<Rightarrow> real_allocator \<Rightarrow> nat \<Rightarrow> addr \<Rightarrow> State \<Rightarrow> State option" where
  "operator_delete K R t p st = checked_free K R t p st"

text \<open>The other forms. A plain delete and its array form have the same body in every variant.\<close>

definition operator_new_array :: "kernel \<Rightarrow> nat \<Rightarrow> u64 \<Rightarrow> State \<Rightarrow> ((unit + addr) \<times> State) option" where
  "operator_new_array K t s st = operator_new K t s st"

definition operator_new_array_nothrow :: "kernel \<Rightarrow> nat \<Rightarrow> u64 \<Rightarrow> State \<Rightarrow> (addr \<times> State) option" where
  "operator_new_array_nothrow K t s st = hm_malloc K t (if s \<noteq> 0 then s else 1) st"

definition operator_new_array_aligned ::
  "kernel \<Rightarrow> nat \<Rightarrow> u64 \<Rightarrow> u64 \<Rightarrow> State \<Rightarrow> ((unit + addr) \<times> State) option" where
  "operator_new_array_aligned K t s a st = operator_new_aligned K t s a st"

definition operator_delete_array :: "kernel \<Rightarrow> real_allocator \<Rightarrow> nat \<Rightarrow> addr \<Rightarrow> State \<Rightarrow> State option" where
  "operator_delete_array K R t p st = checked_free K R t p st"

definition operator_delete_sized :: "kernel \<Rightarrow> real_allocator \<Rightarrow> nat \<Rightarrow> addr \<Rightarrow> u64 \<Rightarrow> State \<Rightarrow> State option" where
  "operator_delete_sized K R t p sz st = checked_free K R t p st"

definition operator_delete_nothrow :: "kernel \<Rightarrow> real_allocator \<Rightarrow> nat \<Rightarrow> addr \<Rightarrow> State \<Rightarrow> State option" where
  "operator_delete_nothrow K R t p st = checked_free K R t p st"

definition operator_delete_aligned :: "kernel \<Rightarrow> real_allocator \<Rightarrow> nat \<Rightarrow> addr \<Rightarrow> u64 \<Rightarrow> State \<Rightarrow> State option" where
  "operator_delete_aligned K R t p a st = checked_free K R t p st"

section \<open>The exit report\<close>

text \<open>What the destructor prints: nothing without the environment variable, else five counters.\<close>

definition hm_override_report :: "bool \<Rightarrow> State \<Rightarrow> (u64 \<times> u64 \<times> u64 \<times> u64 \<times> u64) option option" where
  "hm_override_report env st =
     (if \<not> env then Some None
      else do {
        s \<leftarrow> hm_stats st;
        Some (Some (bytes_reserved s, peak_bytes_reserved s, segments_mapped s, large_allocations s, malloc_count s)) })"

end
