(* ===== verification/Central_Lists.thy ===== *)
theory Central_Lists
  imports Central
begin

text \<open>
  The lists of the central heap (src/src/central.cpp): what the operations on the list of all
  segments and on the \<open>avail\<close> list do, the invariant of the lists, the pools and the counters,
  and that giving a wholly free segment back to the OS keeps it.
\<close>

section \<open>The list operations\<close>

text \<open>The part of the state the lists of the central heap are not in.\<close>

definition state_rest :: "State \<Rightarrow> State" where
  "state_rest st = st\<lparr>st_regions := Map.empty, st_central := init_central\<rparr>"

lemma state_rest_fields:
  assumes "state_rest st' = state_rest st"
  shows "st_pages st' = st_pages st" "st_os st' = st_os st" "st_registry st' = st_registry st"
    "st_heaps st' = st_heaps st" "st_t_heap st' = st_t_heap st" "st_g_registry st' = st_g_registry st"
    "st_large_count st' = st_large_count st" "st_large_bytes st' = st_large_bytes st"
  using arg_cong [OF assms, of st_pages] arg_cong [OF assms, of st_os] arg_cong [OF assms, of st_registry]
    arg_cong [OF assms, of st_heaps] arg_cong [OF assms, of st_t_heap] arg_cong [OF assms, of st_g_registry]
    arg_cong [OF assms, of st_large_count] arg_cong [OF assms, of st_large_bytes]
  by (simp_all add: state_rest_def)

lemma state_rest_pages:
  assumes "state_rest st' = state_rest st"
  shows "get_page p st' = get_page p st" "pg_nx st' = pg_nx st" "pg_pv st' = pg_pv st"
  using state_rest_fields(1) [OF assms] by (simp_all add: get_page_def pg_nx_def pg_pv_def fun_eq_iff)

text \<open>What relinking segments leaves alone: all but the links of the segment headers and the
  heads of the two lists.\<close>

definition seg_core :: "Segment \<Rightarrow> Segment" where
  "seg_core x = x\<lparr>sg_next := 0, sg_avail_prev := 0, sg_avail_next := 0, sg_in_avail := False\<rparr>"

definition link_frame :: "State \<Rightarrow> State \<Rightarrow> bool" where
  "link_frame st st' \<longleftrightarrow> state_rest st' = state_rest st \<and>
     (st_central st')\<lparr>cs_segments := 0, cs_avail := 0\<rparr> = (st_central st)\<lparr>cs_segments := 0, cs_avail := 0\<rparr> \<and>
     (\<forall>t. map_option seg_core (get_seg t st') = map_option seg_core (get_seg t st)) \<and>
     (\<forall>a. get_seg a st = None \<longrightarrow> st_regions st' a = st_regions st a)"

definition avail_frame :: "State \<Rightarrow> State \<Rightarrow> bool" where
  "avail_frame st st' \<longleftrightarrow> link_frame st st' \<and> seg_nx st' = seg_nx st \<and>
     cs_segments (st_central st') = cs_segments (st_central st)"

definition all_frame :: "State \<Rightarrow> State \<Rightarrow> bool" where
  "all_frame st st' \<longleftrightarrow> link_frame st st' \<and> av_nx st' = av_nx st \<and> av_pv st' = av_pv st \<and>
     cs_avail (st_central st') = cs_avail (st_central st)"

lemma avail_frame_refl [simp]: "avail_frame st st"
  by (simp add: avail_frame_def link_frame_def)

lemma link_set_seg:
  assumes "get_seg s st = Some x" "seg_core x' = seg_core x"
  shows "link_frame st (set_seg s x' st)"
  using assms by (auto simp: link_frame_def state_rest_def set_seg_def get_seg_def)

lemma link_set_central:
  "link_frame st (upd_central (\<lambda>g. g\<lparr>cs_avail := a\<rparr>) st)" "link_frame st (upd_central (\<lambda>g. g\<lparr>cs_segments := a\<rparr>) st)"
  by (auto simp: link_frame_def state_rest_def upd_central_def get_seg_def)

lemma link_frame_trans:
  assumes "link_frame st st1" "link_frame st1 st2"
  shows "link_frame st st2"
proof -
  have "get_seg a st1 = None" if "get_seg a st = None" for a
    using assms(1) that unfolding link_frame_def by (metis map_option_is_None)
  then show ?thesis using assms unfolding link_frame_def by metis
qed

lemma avail_frame_trans: "avail_frame st st1 \<Longrightarrow> avail_frame st1 st2 \<Longrightarrow> avail_frame st st2"
  using link_frame_trans by (simp add: avail_frame_def) blast

lemma avail_set_seg:
  assumes "get_seg s st = Some x" "seg_core x' = seg_core x" "sg_next x' = sg_next x"
  shows "avail_frame st (set_seg s x' st)"
  using assms link_set_seg [OF assms(1,2)] by (simp add: avail_frame_def seg_nx_def fun_eq_iff)

lemma avail_set_the:
  assumes "get_seg s st \<noteq> None" "seg_core x' = seg_core (the (get_seg s st))" "sg_next x' = sg_next (the (get_seg s st))"
  shows "avail_frame st (set_seg s x' st)"
  using assms avail_set_seg by auto

lemma avail_set_central: "avail_frame st (upd_central (\<lambda>g. g\<lparr>cs_avail := a\<rparr>) st)"
  using link_set_central by (simp add: avail_frame_def seg_nx_def fun_eq_iff)

lemma get_seg_region: "get_seg s st = Some x \<Longrightarrow> st_regions st s = Some (SegmentRegion x)"
  by (auto simp: get_seg_def split: option.splits Region.splits)

lemma avail_push_spec:
  assumes d: "dlist 0 (av_nx st) (av_pv st) (cs_avail (st_central st)) avl" "s \<notin> set avl" "s \<noteq> 0"
    and ex: "\<forall>t \<in> set (s # avl). get_seg t st \<noteq> None"
  shows "\<exists>st'. avail_push s st = Some st' \<and> avail_frame st st' \<and>
    dlist 0 (av_nx st') (av_pv st') (cs_avail (st_central st')) (s # avl)"
proof -
  let ?h = "cs_avail (st_central st)"
  obtain x where x: "get_seg s st = Some x" using ex by auto
  have h: "?h \<noteq> 0 \<Longrightarrow> ?h \<in> set avl" using d(1) by (auto simp: dlist_def dest: linked_start)
  show ?thesis
  proof (cases "?h = 0")
    case True
    let ?st = "upd_central (\<lambda>g. g\<lparr>cs_avail := s\<rparr>)
      (set_seg s (x\<lparr>sg_avail_prev := 0, sg_avail_next := 0, sg_in_avail := True\<rparr>) st)"
    have e: "avail_push s st = Some ?st"
      using True x by (simp add: avail_push_def upd_seg_def set_seg_def upd_central_def get_seg_def)
    have "avail_frame st ?st"
      by (rule avail_frame_trans [OF avail_set_seg [OF x] avail_set_central]) (simp_all add: seg_core_def)
    moreover have "dlist 0 (av_nx ?st) (av_pv ?st) s (s # avl)"
      by (rule dlist_push [OF d]) (use True x in \<open>auto simp: link_defs\<close>)
    ultimately show ?thesis using e by simp
  next
    case False
    then obtain y where y: "get_seg ?h st = Some y" "?h \<noteq> s" using h ex d(2) by auto
    let ?st = "set_seg s (x\<lparr>sg_avail_prev := 0, sg_avail_next := ?h, sg_in_avail := True\<rparr>)
      (upd_central (\<lambda>g. g\<lparr>cs_avail := s\<rparr>) (set_seg ?h (y\<lparr>sg_avail_prev := s\<rparr>) st))"
    have e: "avail_push s st = Some ?st"
      using False x y by (simp add: avail_push_def upd_seg_def)
        (simp add: set_seg_def upd_central_def get_seg_def fun_upd_twist Let_def)
    have "avail_frame st ?st"
      by (rule avail_frame_trans [OF avail_frame_trans [OF avail_set_seg [OF y(1)] avail_set_central] avail_set_seg])
        (use x y in \<open>simp_all add: seg_core_def\<close>)
    moreover have "dlist 0 (av_nx ?st) (av_pv ?st) s (s # avl)"
      by (rule dlist_push [OF d]) (use False x y in \<open>auto simp: link_defs fun_eq_iff\<close>)
    ultimately show ?thesis using e by simp
  qed
qed

lemma avail_remove_spec:
  assumes d: "dlist 0 (av_nx st) (av_pv st) (cs_avail (st_central st)) (as @ s # bs)"
    and ex: "\<forall>t \<in> set (as @ s # bs). get_seg t st \<noteq> None"
  shows "\<exists>st'. avail_remove s st = Some st' \<and> avail_frame st st' \<and>
    dlist 0 (av_nx st') (av_pv st') (cs_avail (st_central st')) (as @ bs)"
proof -
  obtain x where x: "get_seg s st = Some x" using ex by auto
  have dist: "distinct (as @ s # bs)" by (rule dlist_distinct [OF d])
  let ?p = "sg_avail_prev x" and ?n = "sg_avail_next x"
  have l: "linked 0 (av_nx st) ?n bs 0" and pv: "?p = (if as = [] then 0 else last as)"
    using d x by (auto simp: dlist_def backs_append av_pv_def av_nx_def)
  have n: "?n \<noteq> 0 \<Longrightarrow> ?n \<in> set bs" using linked_start [OF l] by auto
  have p: "?p \<noteq> 0 \<Longrightarrow> ?p \<in> set as" using pv by (auto split: if_splits)
  define st1 where "st1 = (if ?p \<noteq> 0 then set_seg ?p ((the (get_seg ?p st))\<lparr>sg_avail_next := ?n\<rparr>) st
    else upd_central (\<lambda>g. g\<lparr>cs_avail := ?n\<rparr>) st)"
  define st2 where "st2 = (if ?n \<noteq> 0 then set_seg ?n ((the (get_seg ?n st))\<lparr>sg_avail_prev := ?p\<rparr>) st1 else st1)"
  define st3 where "st3 = set_seg s (x\<lparr>sg_avail_prev := 0, sg_avail_next := 0, sg_in_avail := False\<rparr>) st2"
  have ps: "?p \<noteq> 0 \<Longrightarrow> ?p \<noteq> s \<and> ?p \<noteq> ?n \<and> (\<exists>y. get_seg ?p st = Some y)"
    using p n dist ex x by (cases "?n = 0") auto
  have ns: "?n \<noteq> 0 \<Longrightarrow> ?n \<noteq> s \<and> (\<exists>y. get_seg ?n st = Some y)" using n dist ex x by auto
  have "avail_remove s st = Some st3"
    using x ps ns by (auto simp: avail_remove_def upd_seg_def st1_def st2_def st3_def)
  moreover have "avail_frame st st3"
  proof -
    have 1: "avail_frame st st1" unfolding st1_def
      using ps avail_set_central by (auto intro!: avail_set_the simp: seg_core_def)
    have 2: "avail_frame st1 st2" unfolding st2_def
      using ps ns by (auto intro!: avail_set_the simp: seg_core_def st1_def)
    have 3: "avail_frame st2 st3" unfolding st3_def
      by (rule avail_set_seg) (use x ps ns in \<open>auto simp: st1_def st2_def seg_core_def\<close>)
    show ?thesis by (rule avail_frame_trans [OF avail_frame_trans [OF 1 2] 3])
  qed
  moreover have "dlist 0 (av_nx st3) (av_pv st3) (cs_avail (st_central st3)) (as @ bs)"
  proof -
    let ?nx = "if ?p \<noteq> 0 then (av_nx st)(?p := ?n) else av_nx st"
    let ?pv = "if ?n \<noteq> 0 then (av_pv st)(?n := ?p) else av_pv st"
    have "av_pv st s = ?p" "av_nx st s = ?n" using x by (simp_all add: link_defs)
    then have "dlist 0 ?nx ?pv (if ?p \<noteq> 0 then cs_avail (st_central st) else ?n) (as @ bs)"
      by (intro dlist_remove [OF d]) simp_all
    moreover have "dlist 0 (av_nx st3) (av_pv st3) h (as @ bs) = dlist 0 ?nx ?pv h (as @ bs)" for h
    proof (rule dlist_cong)
      fix t assume "t \<in> set (as @ bs)"
      then have "t \<noteq> s" using dist by auto
      then show "av_nx st3 t = ?nx t" "av_pv st3 t = ?pv t"
        using ps ns by (auto simp: link_defs st1_def st2_def st3_def)
    qed
    moreover have "cs_avail (st_central st3) = (if ?p \<noteq> 0 then cs_avail (st_central st) else ?n)"
      by (simp add: st1_def st2_def st3_def)
    ultimately show ?thesis by simp
  qed
  ultimately show ?thesis by blast
qed

text \<open>\<open>all_remove\<close> takes a segment out of the list of all segments.\<close>

lemma all_remove_loop_spec:
  assumes "linked 0 (seg_nx st) p (as @ s # bs) 0" "as \<noteq> []" "distinct (as @ s # bs)"
    "\<forall>t \<in> set (as @ s # bs). get_seg t st \<noteq> None"
  shows "\<exists>x. get_seg (last as) st = Some x \<and>
    all_remove_loop s p st = Some (set_seg (last as) (x\<lparr>sg_next := seg_nx st s\<rparr>) st)"
  using assms
proof (induction as arbitrary: p)
  case (Cons a as)
  obtain x where x: "get_seg a st = Some x" using Cons.prems(4) by auto
  obtain y where y: "get_seg s st = Some y" using Cons.prems(4) by auto
  have nx: "seg_nx st a = sg_next x" using x by (simp add: seg_nx_def)
  have p: "p = a" "a \<noteq> 0" "linked 0 (seg_nx st) (sg_next x) (as @ s # bs) 0"
    using Cons.prems(1) nx by auto
  show ?case
  proof (cases as)
    case Nil
    then have "sg_next x = s" using p(3) by simp
    then show ?thesis using p x y Nil
      by (subst all_remove_loop.simps) (simp add: upd_seg_def seg_nx_def)
  next
    case (Cons b cs)
    then have "sg_next x = b" "b \<noteq> s" using p(3) Cons.prems(3) by auto
    then have "all_remove_loop s p st = all_remove_loop s (sg_next x) st"
      using p x by (subst all_remove_loop.simps) simp
    then show ?thesis using Cons.IH [OF p(3)] Cons.prems(3,4) Cons by simp
  qed
qed simp

lemma all_remove_spec:
  assumes l: "linked 0 (seg_nx st) (cs_segments (st_central st)) (as @ s # bs) 0"
    and ex: "\<forall>t \<in> set (as @ s # bs). get_seg t st \<noteq> None"
  shows "\<exists>st'. all_remove s st = Some st' \<and> all_frame st st' \<and>
    linked 0 (seg_nx st') (cs_segments (st_central st')) (as @ bs) 0"
proof (cases as rule: rev_cases)
  case Nil
  then have "cs_segments (st_central st) = s" using l by simp
  moreover obtain x where x: "get_seg s st = Some x" using ex by auto
  moreover have "seg_nx (upd_central f st) = seg_nx st" for f by (simp add: fun_eq_iff seg_nx_def)
  ultimately show ?thesis using l Nil
    by (simp add: all_remove_def all_frame_def link_set_central) (simp add: link_defs fun_eq_iff)
next
  case (snoc cs c)
  have d: "distinct (as @ s # bs)" using linked_distinct [OF l] by simp
  obtain x where x: "get_seg c st = Some x"
    and e: "all_remove_loop s (cs_segments (st_central st)) st = Some (set_seg c (x\<lparr>sg_next := seg_nx st s\<rparr>) st)"
    using all_remove_loop_spec [OF l _ d ex] snoc by auto
  let ?st = "set_seg c (x\<lparr>sg_next := seg_nx st s\<rparr>) st"
  have "cs_segments (st_central st) \<noteq> s" using l d snoc by (cases cs) auto
  then have "all_remove s st = Some ?st" using e by (simp add: all_remove_def)
  moreover have "all_frame st ?st" using link_set_seg [OF x] x by (simp add: all_frame_def seg_core_def link_defs fun_eq_iff)
  moreover have "seg_nx ?st = (seg_nx st)(c := seg_nx st s)" by (auto simp: fun_eq_iff seg_nx_def)
  then have "linked 0 (seg_nx ?st) (cs_segments (st_central ?st)) (as @ bs) 0"
    using l d snoc by auto
  ultimately show ?thesis by blast
qed

section \<open>The invariant\<close>

text \<open>What the lists of the central heap hold: all segments, the available ones, the free page
  indices of each, the abandoned pages; and the pages handed out to heaps.\<close>

record cghost =
  cg_segs :: "addr list"
  cg_avail :: "addr list"
  cg_pool :: "addr \<Rightarrow> nat list"
  cg_aband :: "page_ptr list"
  cg_out :: "page_ptr set"

definition seg_pages :: "addr set \<Rightarrow> page_ptr set" where
  "seg_pages S = {PageAt s i |s i. s \<in> S \<and> i \<in> {1..<64}}"

definition pooled :: "cghost \<Rightarrow> page_ptr set" where
  "pooled g = {PageAt s i |s i. s \<in> set (cg_segs g) \<and> i \<in> set (cg_pool g s)}"

definition page_area_ok :: "State \<Rightarrow> addr \<Rightarrow> nat \<Rightarrow> bool" where
  "page_area_ok st s i \<longleftrightarrow> (\<exists>x. get_page (PageAt s i) st = Some x \<and> pg_area x = s + of_nat i * PAGE_SIZE)"

definition seg_inv :: "State \<Rightarrow> addr \<Rightarrow> nat list \<Rightarrow> bool" where
  "seg_inv st s is \<longleftrightarrow> segment_aligned s \<and> set is \<subseteq> {1..<64} \<and> (\<forall>i \<in> {1..<64}. page_area_ok st s i) \<and>
     (\<exists>x. get_seg s st = Some x \<and> sg_kind x = Small \<and> sg_mmap_size x = SEGMENT_SIZE \<and>
        unat (sg_free_count x) = length is \<and>
        linked NullPage (pg_nx st) (sg_free_list x) (map (PageAt s) is) NullPage)"

text \<open>\<open>L\<close> are pages in transit between the lists.\<close>

definition parts :: "cghost \<Rightarrow> page_ptr set \<Rightarrow> bool" where
  "parts g L \<longleftrightarrow> seg_pages (set (cg_segs g)) = pooled g \<union> set (cg_aband g) \<union> cg_out g \<union> L \<and>
     pooled g \<inter> set (cg_aband g) = {} \<and> pooled g \<inter> cg_out g = {} \<and> set (cg_aband g) \<inter> cg_out g = {} \<and>
     L \<inter> (pooled g \<union> set (cg_aband g) \<union> cg_out g) = {}"

definition central_core :: "State \<Rightarrow> cghost \<Rightarrow> page_ptr set \<Rightarrow> bool" where
  "central_core st g L \<longleftrightarrow>
     linked 0 (seg_nx st) (cs_segments (st_central st)) (cg_segs g) 0 \<and>
     (\<forall>s \<in> set (cg_segs g). seg_inv st s (cg_pool g s)) \<and>
     linked NullPage (pg_nx st) (cs_abandoned (st_central st)) (cg_aband g) NullPage \<and>
     parts g L"

definition avail_list :: "State \<Rightarrow> addr list \<Rightarrow> bool" where
  "avail_list st avl \<longleftrightarrow> dlist 0 (av_nx st) (av_pv st) (cs_avail (st_central st)) avl"

definition central_lists :: "State \<Rightarrow> cghost \<Rightarrow> page_ptr set \<Rightarrow> bool" where
  "central_lists st g L \<longleftrightarrow> central_core st g L \<and> avail_list st (cg_avail g) \<and>
     set (cg_avail g) = {s \<in> set (cg_segs g). cg_pool g s \<noteq> []}"

definition full_segs :: "cghost \<Rightarrow> addr set" where
  "full_segs g = {s \<in> set (cg_segs g). length (cg_pool g s) = 63}"

definition free_pages :: "cghost \<Rightarrow> nat" where
  "free_pages g = (\<Sum>s \<in> set (cg_segs g). length (cg_pool g s))"

text \<open>The counters; \<open>n\<close> is the number of fully free segments counted so far.\<close>

definition central_counts :: "CentralState \<Rightarrow> cghost \<Rightarrow> nat \<Rightarrow> bool" where
  "central_counts C g n \<longleftrightarrow> unat (cs_num_segments C) = length (cg_segs g) \<and> unat (cs_free_segments C) = n \<and>
     unat (cs_free_page_count C) = free_pages g \<and> unat (cs_abandoned_count C) = length (cg_aband g) \<and>
     unat (cs_pages_in_use C) = card (cg_out g)"

section \<open>The objects of a page\<close>

text \<open>The live blocks of a page, each with its size.\<close>

definition pblocks :: "State \<Rightarrow> page_ptr \<Rightarrow> (addr \<times> u64) set" where
  "pblocks st p = {(b, ucast (pg_block_size x)) |b x fl tf.
     get_page p st = Some x \<and> page_ok (st_mem st) x fl tf \<and> b \<in> page_live x fl tf}"

definition page_good :: "State \<Rightarrow> page_ptr \<Rightarrow> bool" where
  "page_good st p \<longleftrightarrow> (\<exists>x fl tf. get_page p st = Some x \<and> page_ok (st_mem st) x fl tf)"

lemma page_ok_unique:
  "page_ok m x fl tf \<Longrightarrow> page_ok m x fl' tf' \<Longrightarrow> fl' = fl \<and> tf' = tf"
  by (auto simp: page_ok_def dest: linked_unique)

lemma pblocks_eq:
  assumes "get_page p st = Some x" "page_ok (st_mem st) x fl tf"
  shows "pblocks st p = (\<lambda>b. (b, ucast (pg_block_size x))) ` page_live x fl tf"
proof (intro equalityI subsetI)
  fix c assume "c \<in> pblocks st p"
  then obtain b fl' tf' where "c = (b, ucast (pg_block_size x))" "page_ok (st_mem st) x fl' tf'" "b \<in> page_live x fl' tf'"
    using assms(1) by (auto simp: pblocks_def)
  then show "c \<in> (\<lambda>b. (b, ucast (pg_block_size x))) ` page_live x fl tf"
    using page_ok_unique [OF assms(2)] by blast
next
  fix c :: "addr \<times> u64" assume "c \<in> (\<lambda>b. (b, ucast (pg_block_size x))) ` page_live x fl tf"
  then show "c \<in> pblocks st p" using assms unfolding pblocks_def by blast
qed

text \<open>Only the page's own area matters to it.\<close>

definition same_area :: "addr \<Rightarrow> memory \<Rightarrow> memory \<Rightarrow> bool" where
  "same_area a m m' \<longleftrightarrow> (\<forall>x. in_region a PAGE_SIZE x \<longrightarrow> m' x = m x)"

lemma area_load:
  assumes "page_geometry pg" "b \<in> page_blocks pg" "same_area (pg_area pg) m m'"
  shows "load64 m' b = load64 m b"
proof (rule load64_cong)
  fix k :: u64 assume "k < 8"
  then have "in_region b (ucast (pg_block_size pg)) (b + k)" by (intro cell_in_block [OF assms(1,2)]) simp
  moreover obtain j where "j < unat (pg_capacity pg)" "b = block_addr pg j"
    by (rule page_blocks_capacity [OF assms(1,2)])
  ultimately have "in_region (pg_area pg) PAGE_SIZE (b + k)" using block_in_area [OF assms(1)] by blast
  then show "m' (b + k) = m (b + k)" using assms(3) by (simp add: same_area_def)
qed

lemma page_ok_area:
  assumes "same_area (pg_area pg) m m'"
  shows "page_ok m' pg fl tf = page_ok m pg fl tf"
proof -
  have "linked 0 (load64 m') p xs q = linked 0 (load64 m) p xs q"
    if "page_geometry pg" "set xs \<subseteq> page_blocks pg" for p xs q
    by (rule linked_cong) (use area_load [OF that(1) _ assms] that(2) in blast)
  then show ?thesis unfolding page_ok_def by blast
qed

lemma pblocks_cong:
  assumes "get_page p st' = get_page p st"
    "\<And>x. get_page p st = Some x \<Longrightarrow> same_area (pg_area x) (st_mem st) (st_mem st')"
  shows "pblocks st' p = pblocks st p" "page_good st' p = page_good st p"
proof -
  have "page_ok (st_mem st') x fl tf = page_ok (st_mem st) x fl tf" if "get_page p st = Some x" for x fl tf
    by (rule page_ok_area [OF assms(2) [OF that]])
  then show "pblocks st' p = pblocks st p" "page_good st' p = page_good st p"
    unfolding pblocks_def page_good_def assms(1) by blast+
qed

section \<open>Frames\<close>

lemma seg_core_fields:
  assumes "seg_core x' = seg_core x"
  shows "sg_kind x' = sg_kind x" "sg_mmap_size x' = sg_mmap_size x"
    "sg_free_list x' = sg_free_list x" "sg_free_count x' = sg_free_count x"
  using arg_cong [OF assms, of sg_kind] arg_cong [OF assms, of sg_mmap_size]
    arg_cong [OF assms, of sg_free_list] arg_cong [OF assms, of sg_free_count]
  by (simp_all add: seg_core_def)

lemma link_frame_seg:
  assumes "link_frame st st'" "get_seg t st = Some x"
  obtains x' where "get_seg t st' = Some x'" "seg_core x' = seg_core x"
proof -
  have "map_option seg_core (get_seg t st') = map_option seg_core (get_seg t st)"
    using assms(1) unfolding link_frame_def by blast
  then show ?thesis using that assms(2) by auto
qed

lemma link_frame_None:
  assumes "link_frame st st'"
  shows "get_seg t st' = None \<longleftrightarrow> get_seg t st = None"
proof -
  have "map_option seg_core (get_seg t st') = map_option seg_core (get_seg t st)"
    using assms(1) unfolding link_frame_def by blast
  then show ?thesis by (metis map_option_is_None)
qed

lemma link_frame_rest:
  assumes "link_frame st st'"
  shows "state_rest st' = state_rest st" "st_registry st' = st_registry st" "st_os st' = st_os st"
    "get_page p st' = get_page p st" "pg_nx st' = pg_nx st" "dom (st_regions st') = dom (st_regions st)"
    "get_large a st' = get_large a st"
proof -
  show r: "state_rest st' = state_rest st" using assms by (simp add: link_frame_def)
  show "st_registry st' = st_registry st" "st_os st' = st_os st" "get_page p st' = get_page p st" "pg_nx st' = pg_nx st"
    by (simp_all add: state_rest_fields [OF r] state_rest_pages [OF r])
  have s: "get_seg a st' = None \<longleftrightarrow> get_seg a st = None" for a by (rule link_frame_None [OF assms])
  have e: "st_regions st' a = st_regions st a" if "get_seg a st = None" for a using assms that by (simp add: link_frame_def)
  show "get_large a st' = get_large a st" for a
    using s [of a] e [of a] by (cases "get_seg a st") (auto simp: get_large_def get_seg_def split: option.splits Region.splits)
  have "st_regions st' a = None \<longleftrightarrow> st_regions st a = None" for a
    using s [of a] e [of a] by (cases "get_seg a st") (auto simp: get_seg_def split: option.splits Region.splits)
  then show "dom (st_regions st') = dom (st_regions st)" by (simp add: dom_def)
qed

lemma link_frame_central:
  assumes "link_frame st st'"
  shows "cs_abandoned (st_central st') = cs_abandoned (st_central st)"
    "cs_free_segments (st_central st') = cs_free_segments (st_central st)"
    "central_counts (st_central st') g n = central_counts (st_central st) g n"
proof -
  have e: "(st_central st')\<lparr>cs_segments := 0, cs_avail := 0\<rparr> = (st_central st)\<lparr>cs_segments := 0, cs_avail := 0\<rparr>"
    using assms by (simp add: link_frame_def)
  show "cs_abandoned (st_central st') = cs_abandoned (st_central st)"
    "cs_free_segments (st_central st') = cs_free_segments (st_central st)"
    using arg_cong [OF e, of cs_abandoned] arg_cong [OF e, of cs_free_segments] by simp_all
  show "central_counts (st_central st') g n = central_counts (st_central st) g n"
    using arg_cong [OF e, of cs_num_segments] arg_cong [OF e, of cs_free_segments] arg_cong [OF e, of cs_free_page_count]
      arg_cong [OF e, of cs_abandoned_count] arg_cong [OF e, of cs_pages_in_use] by (simp add: central_counts_def)
qed

lemma seg_inv_cong:
  assumes "seg_inv st s is" "get_seg s st = Some x" "get_seg s st' = Some x'" "seg_core x' = seg_core x"
    "\<And>i. i \<in> {1..<64} \<Longrightarrow> map_option pg_area (get_page (PageAt s i) st') = map_option pg_area (get_page (PageAt s i) st)"
    "\<And>i. i \<in> set is \<Longrightarrow> pg_nx st' (PageAt s i) = pg_nx st (PageAt s i)"
  shows "seg_inv st' s is"
proof -
  have "linked NullPage (pg_nx st') (sg_free_list x) (map (PageAt s) is) NullPage =
        linked NullPage (pg_nx st) (sg_free_list x) (map (PageAt s) is) NullPage"
    by (rule linked_cong) (use assms(6) in auto)
  moreover have "page_area_ok st' s i" if "i \<in> {1..<64}" for i
  proof -
    have "page_area_ok st s i" using assms(1) that by (simp add: seg_inv_def)
    then obtain y where "get_page (PageAt s i) st = Some y" "pg_area y = s + of_nat i * PAGE_SIZE"
      by (auto simp: page_area_ok_def)
    then show ?thesis using assms(5) [OF that] by (auto simp: page_area_ok_def)
  qed
  ultimately show ?thesis using assms(1-3) seg_core_fields [OF assms(4)] by (simp add: seg_inv_def)
qed

lemma link_frame_seg_inv:
  assumes "link_frame st st'" "seg_inv st s is"
  shows "seg_inv st' s is"
proof -
  obtain x where x: "get_seg s st = Some x" using assms(2) by (auto simp: seg_inv_def)
  obtain x' where x': "get_seg s st' = Some x'" "seg_core x' = seg_core x" by (rule link_frame_seg [OF assms(1) x])
  show ?thesis
    by (rule seg_inv_cong [OF assms(2) x x']) (simp_all add: link_frame_rest [OF assms(1)])
qed

lemma avail_frame_core:
  assumes "avail_frame st st'" "central_core st g L"
  shows "central_core st' g L"
proof -
  have r: "link_frame st st'" using assms(1) by (simp add: avail_frame_def)
  show ?thesis
    using assms link_frame_seg_inv [OF r]
    by (simp add: central_core_def avail_frame_def link_frame_rest [OF r] link_frame_central [OF r])
qed

section \<open>Moving pages between the lists\<close>

lemma segs_core:
  assumes "central_core st g L" "s \<in> set (cg_segs g)"
  obtains x where "get_seg s st = Some x" "sg_kind x = Small" "sg_mmap_size x = SEGMENT_SIZE"
    "unat (sg_free_count x) = length (cg_pool g s)" "segment_aligned s"
    "linked NullPage (pg_nx st) (sg_free_list x) (map (PageAt s) (cg_pool g s)) NullPage"
    "set (cg_pool g s) \<subseteq> {1..<64}" "distinct (cg_pool g s)" "length (cg_pool g s) \<le> 63" "s \<noteq> 0"
proof -
  have i: "seg_inv st s (cg_pool g s)" using assms by (simp add: central_core_def)
  then obtain x where x: "get_seg s st = Some x" "sg_kind x = Small" "sg_mmap_size x = SEGMENT_SIZE"
    "unat (sg_free_count x) = length (cg_pool g s)" "segment_aligned s"
    "linked NullPage (pg_nx st) (sg_free_list x) (map (PageAt s) (cg_pool g s)) NullPage"
    "set (cg_pool g s) \<subseteq> {1..<64}" unfolding seg_inv_def by blast
  have d: "distinct (cg_pool g s)" using linked_distinct [OF x(6)] by (simp add: distinct_map)
  have "length (cg_pool g s) \<le> 63" using card_mono [OF _ x(7)] distinct_card [OF d] by simp
  moreover have "s \<noteq> 0" using assms linked_nonnul unfolding central_core_def by metis
  ultimately show thesis using that x d by blast
qed

lemma page_area_segment:
  assumes "segment_aligned s" "i < 64"
  shows "segment_of (s + of_nat i * PAGE_SIZE) = s"
  using region_base_offset(2) [OF assms(1), of "i * 65536"] assms(2) by (simp add: segment_of_def)

lemma page_core:
  assumes "central_core st g L" "p \<in> pooled g \<union> set (cg_aband g) \<union> cg_out g \<union> L"
  obtains s i x where "p = PageAt s i" "s \<in> set (cg_segs g)" "i \<in> {1..<64}" "get_page p st = Some x"
    "pg_area x = s + of_nat i * PAGE_SIZE" "segment_of (pg_area x) = s"
proof -
  have "p \<in> seg_pages (set (cg_segs g))" using assms by (simp add: central_core_def parts_def)
  then obtain s i where p: "p = PageAt s i" "s \<in> set (cg_segs g)" "i \<in> {1..<64}" by (auto simp: seg_pages_def)
  have "seg_inv st s (cg_pool g s)" using assms(1) p(2) by (simp add: central_core_def)
  then have "page_area_ok st s i" "segment_aligned s" using p(3) by (auto simp: seg_inv_def)
  then show thesis using that p page_area_segment by (auto simp: page_area_ok_def)
qed

lemma pool_add_core:
  assumes c: "central_core st g {PageAt s i}"
    and x: "get_page (PageAt s i) st = Some x" and y: "get_seg s st = Some y"
    and x': "pg_next x' = sg_free_list y" "pg_area x' = pg_area x"
    and y': "seg_core y' = seg_core (y\<lparr>sg_free_list := PageAt s i, sg_free_count := sg_free_count y + 1\<rparr>)"
      "sg_next y' = sg_next y"
    and st': "\<And>q. get_page q st' = (if q = PageAt s i then Some x' else get_page q st)"
      "\<And>t. get_seg t st' = (if t = s then Some y' else get_seg t st)"
      "cs_segments (st_central st') = cs_segments (st_central st)"
      "cs_abandoned (st_central st') = cs_abandoned (st_central st)"
  shows "central_core st' (g\<lparr>cg_pool := (cg_pool g)(s := i # cg_pool g s)\<rparr>) {}"
proof -
  let ?g = "g\<lparr>cg_pool := (cg_pool g)(s := i # cg_pool g s)\<rparr>"
  have pa: "parts g {PageAt s i}" using c by (simp add: central_core_def)
  have "PageAt s i \<in> seg_pages (set (cg_segs g))" using pa by (auto simp: parts_def)
  then have s: "s \<in> set (cg_segs g)" "i \<in> {1..<64}" by (auto simp: seg_pages_def)
  have ni: "PageAt s i \<notin> pooled g" "PageAt s i \<notin> set (cg_aband g)" using pa by (auto simp: parts_def)
  then have ip: "i \<notin> set (cg_pool g s)" using s by (auto simp: pooled_def)
  have "pooled ?g = insert (PageAt s i) (pooled g)" using s by (auto simp: pooled_def)
  then have p: "parts ?g {}" using pa by (auto simp: parts_def)
  have nx: "pg_nx st' = (pg_nx st)(PageAt s i := sg_free_list y)"
    by (simp add: fun_eq_iff pg_nx_def st' x')
  have "seg_nx st' = seg_nx st"
    using y'(2) y by (simp add: fun_eq_iff seg_nx_def st')
  moreover have "linked NullPage (pg_nx st') (cs_abandoned (st_central st')) (cg_aband g) NullPage"
    using c ni by (simp add: central_core_def nx st')
  moreover have "seg_inv st' t (cg_pool ?g t)" if t: "t \<in> set (cg_segs g)" for t
  proof -
    have it: "seg_inv st t (cg_pool g t)" using c t by (simp add: central_core_def)
    have ar: "page_area_ok st' = page_area_ok st" unfolding fun_eq_iff by (auto simp: page_area_ok_def st' x x')
    show ?thesis
    proof (cases "t = s")
      case True
      have "length (cg_pool g s) \<le> 63 \<and> unat (sg_free_count y) = length (cg_pool g s) \<and>
        linked NullPage (pg_nx st) (sg_free_list y) (map (PageAt s) (cg_pool g s)) NullPage"
        by (rule segs_core [OF c s(1)]) (use y in simp)
      moreover have "PageAt s i \<notin> set (map (PageAt s) (cg_pool g s))" using ip by auto
      moreover have "unat (sg_free_count y + 1) = Suc (unat (sg_free_count y))" if "unat (sg_free_count y) \<le> 63"
        using that by (simp add: unat_word_ariths)
      ultimately show ?thesis using it y s(2) seg_core_fields [OF y'(1)] True
        by (simp add: seg_inv_def ar nx st')
    next
      case False
      have "linked NullPage (pg_nx st') p (map (PageAt t) is) NullPage = linked NullPage (pg_nx st) p (map (PageAt t) is) NullPage" for p "is"
        by (rule linked_cong) (use False in \<open>auto simp: nx\<close>)
      then show ?thesis using it False by (simp add: seg_inv_def ar st')
    qed
  qed
  ultimately show ?thesis using c p by (simp add: central_core_def st')
qed

section \<open>The invariant of the whole\<close>

definition seg_regions :: "addr set \<Rightarrow> (addr \<times> u64) set" where
  "seg_regions S = (\<lambda>s. (s, SEGMENT_SIZE)) ` S"

text \<open>Around the lists: the registry, and the regions held from the OS. \<open>R\<close> are the regions of
  the layers above, among them every large allocation.\<close>

definition world_ok :: "kernel \<Rightarrow> (addr \<times> u64) set \<Rightarrow> State \<Rightarrow> addr set \<Rightarrow> bool" where
  "world_ok K R st S \<longleftrightarrow> reg_inv (st_registry st) \<and> reg_keys (st_registry st) \<subseteq> dom (st_regions st) \<and>
     os_holds K (st_os st) (seg_regions S \<union> R \<union> reg_region K (st_registry st)) \<and>
     seg_regions S \<inter> R = {} \<and> (seg_regions S \<union> R) \<inter> reg_region K (st_registry st) = {} \<and>
     (\<forall>a. get_seg a st \<noteq> None \<longleftrightarrow> a \<in> S) \<and> (\<forall>a h. get_large a st = Some h \<longrightarrow> (a, lh_mmap_size h) \<in> R)"

definition base_inv :: "kernel \<Rightarrow> (addr \<times> u64) set \<Rightarrow> State \<Rightarrow> cghost \<Rightarrow> page_ptr set \<Rightarrow> bool" where
  "base_inv K R st g L \<longleftrightarrow> central_lists st g L \<and>
     central_counts (st_central st) g (card (full_segs g)) \<and>
     (\<forall>p \<in> set (cg_aband g). page_good st p) \<and> world_ok K R st (set (cg_segs g))"

text \<open>At most \<open>SEGMENT_CACHE\<close> segments are kept with every page free.\<close>

definition cache_ok :: "cghost \<Rightarrow> bool" where
  "cache_ok g \<longleftrightarrow> card (full_segs g) \<le> unat SEGMENT_CACHE"

definition reg_exact :: "State \<Rightarrow> bool" where
  "reg_exact st \<longleftrightarrow> reg_keys (st_registry st) = dom (st_regions st)"

text \<open>What no operation of the central heap changes: heaps, large allocations, the static page.\<close>

definition outer_frame :: "State \<Rightarrow> State \<Rightarrow> bool" where
  "outer_frame st st' \<longleftrightarrow> st_heaps st' = st_heaps st \<and> st_t_heap st' = st_t_heap st \<and>
     st_g_registry st' = st_g_registry st \<and> st_large_count st' = st_large_count st \<and>
     st_large_bytes st' = st_large_bytes st \<and> (\<forall>a. get_large a st' = get_large a st) \<and>
     get_page EmptyPage st' = get_page EmptyPage st"

lemma outer_frame_refl [simp]: "outer_frame st st"
  by (simp add: outer_frame_def)

lemma outer_frame_trans: "outer_frame st st1 \<Longrightarrow> outer_frame st1 st2 \<Longrightarrow> outer_frame st st2"
  by (simp add: outer_frame_def)

lemma link_frame_outer:
  assumes "link_frame st st'"
  shows "outer_frame st st'"
  by (simp add: outer_frame_def link_frame_rest [OF assms] state_rest_fields [OF link_frame_rest(1) [OF assms]])

subsection \<open>No counter overflows\<close>

lemma aligned_card:
  assumes "\<forall>s \<in> S. segment_aligned s"
  shows "finite S" "card S \<le> 2 ^ 42"
proof -
  have i: "inj_on (\<lambda>s. unat s div 2 ^ 22) S"
  proof (rule inj_onI)
    fix s t assume "s \<in> S" "t \<in> S" "unat s div 2 ^ 22 = unat t div 2 ^ 22"
    then have "unat s = unat t" using assms unfolding segment_aligned_def by (metis dvd_div_mult_self)
    then show "s = t" by (simp add: unsigned_word_eqI)
  qed
  have sub: "(\<lambda>s. unat s div 2 ^ 22) ` S \<subseteq> {..<2 ^ 42}"
  proof safe
    fix s :: addr
    have "unat s < 2 ^ 42 * 2 ^ 22" using unsigned_less [of s] by simp
    then show "unat s div 2 ^ 22 < 2 ^ 42" by (rule less_mult_imp_div_less)
  qed
  show "finite S" using finite_imageD [OF finite_subset [OF sub] i] by simp
  show "card S \<le> 2 ^ 42" using card_inj_on_le [OF i sub] by simp
qed

lemma segs_bound:
  assumes "central_core st g L"
  shows "length (cg_segs g) < 2 ^ 42" "distinct (cg_segs g)"
proof -
  have l: "linked 0 (seg_nx st) (cs_segments (st_central st)) (cg_segs g) 0" using assms by (simp add: central_core_def)
  show d: "distinct (cg_segs g)" by (rule linked_distinct [OF l])
  have "\<forall>s \<in> set (cg_segs g). segment_aligned s" using assms by (auto simp: central_core_def seg_inv_def)
  then have "card (insert 0 (set (cg_segs g))) \<le> 2 ^ 42" by (intro aligned_card) (simp add: segment_aligned_def)
  moreover have "0 \<notin> set (cg_segs g)" by (rule linked_nonnul [OF l])
  ultimately show "length (cg_segs g) < 2 ^ 42" by (simp add: distinct_card [OF d])
qed

lemma pages_bound:
  assumes "central_core st g L" "P \<subseteq> seg_pages (set (cg_segs g))"
  shows "finite P" "card P \<le> 63 * length (cg_segs g)" "card P < 2 ^ 48"
proof -
  have e: "seg_pages (set (cg_segs g)) = (\<lambda>(s, i). PageAt s i) ` (set (cg_segs g) \<times> {1..<64})"
    by (auto simp: seg_pages_def)
  then have f: "finite (seg_pages (set (cg_segs g)))" by simp
  then show "finite P" using assms(2) by (rule rev_finite_subset)
  have "card (seg_pages (set (cg_segs g))) \<le> card (set (cg_segs g) \<times> {1..<64 :: nat})"
    unfolding e by (rule card_image_le) simp
  also have "\<dots> = 63 * length (cg_segs g)"
    by (simp add: card_cartesian_product distinct_card [OF segs_bound(2) [OF assms(1)]])
  finally show "card P \<le> 63 * length (cg_segs g)" using card_mono [OF f assms(2)] by simp
  then show "card P < 2 ^ 48" using segs_bound(1) [OF assms(1)] by simp
qed

lemma free_pages_bound:
  assumes "central_core st g L"
  shows "free_pages g \<le> 63 * length (cg_segs g)" "free_pages g < 2 ^ 48"
proof -
  have "length (cg_pool g s) \<le> 63" if "s \<in> set (cg_segs g)" for s
    by (rule segs_core [OF assms that]) simp
  then have "free_pages g \<le> card (set (cg_segs g)) * 63"
    unfolding free_pages_def using sum_bounded_above [of "set (cg_segs g)" "\<lambda>s. length (cg_pool g s)" 63] by simp
  then show "free_pages g \<le> 63 * length (cg_segs g)" by (simp add: distinct_card [OF segs_bound(2) [OF assms]])
  then show "free_pages g < 2 ^ 48" using segs_bound(1) [OF assms] by simp
qed

section \<open>Giving a segment back to the OS\<close>

lemma drop_segment_simps [simp]:
  "get_seg t (drop_segment s st) = (if t = s then None else get_seg t st)"
  "get_page (PageAt a i) (drop_segment s st) = (if a = s then None else get_page (PageAt a i) st)"
  "get_page EmptyPage (drop_segment s st) = get_page EmptyPage st"
  "st_central (drop_segment s st) = st_central st" "st_registry (drop_segment s st) = st_registry st"
  "st_os (drop_segment s st) = st_os st" "st_regions (drop_segment s st) = (st_regions st)(s := None)"
  "st_heaps (drop_segment s st) = st_heaps st" "st_t_heap (drop_segment s st) = st_t_heap st"
  "st_g_registry (drop_segment s st) = st_g_registry st" "st_large_count (drop_segment s st) = st_large_count st"
  "st_large_bytes (drop_segment s st) = st_large_bytes st"
  by (simp_all add: drop_segment_def get_seg_def get_page_def)

lemma get_large_drop:
  "get_seg s st \<noteq> None \<Longrightarrow> get_large a (drop_segment s st) = get_large a st"
  by (auto simp: get_large_def get_seg_def split: option.splits Region.splits)

lemma link_frame_world: "link_frame st st' \<Longrightarrow> world_ok K R st' S = world_ok K R st S"
  by (simp add: world_ok_def link_frame_rest link_frame_None)

lemma full_seg_pool:
  assumes "central_core st g L" "s \<in> full_segs g"
  shows "set (cg_pool g s) = {1..<64}"
proof -
  have s: "s \<in> set (cg_segs g)" "length (cg_pool g s) = 63" using assms(2) by (simp_all add: full_segs_def)
  have "set (cg_pool g s) \<subseteq> {1..<64} \<and> card (set (cg_pool g s)) = 63"
    by (rule segs_core [OF assms(1) s(1)]) (use s(2) in \<open>simp add: distinct_card\<close>)
  then show ?thesis by (intro card_subset_eq) auto
qed

definition drop_ghost :: "addr \<Rightarrow> cghost \<Rightarrow> cghost" where
  "drop_ghost s g = g\<lparr>cg_segs := filter (\<lambda>t. t \<noteq> s) (cg_segs g), cg_avail := filter (\<lambda>t. t \<noteq> s) (cg_avail g)\<rparr>"

lemma drop_ghost_simps [simp]:
  "cg_segs (drop_ghost s g) = filter (\<lambda>t. t \<noteq> s) (cg_segs g)" "cg_avail (drop_ghost s g) = filter (\<lambda>t. t \<noteq> s) (cg_avail g)"
  "cg_pool (drop_ghost s g) = cg_pool g" "cg_aband (drop_ghost s g) = cg_aband g" "cg_out (drop_ghost s g) = cg_out g"
  by (simp_all add: drop_ghost_def)

lemma filter_split: "distinct (as @ s # bs) \<Longrightarrow> filter (\<lambda>t. t \<noteq> s) (as @ s # bs) = as @ bs"
proof -
  assume "distinct (as @ s # bs)"
  then have "filter (\<lambda>t. t \<noteq> s) as = as" "filter (\<lambda>t. t \<noteq> s) bs = bs" by (auto simp: filter_id_conv)
  then show ?thesis by simp
qed

lemma drop_parts:
  assumes "central_core st g L" "s \<in> full_segs g" "parts g L"
  shows "parts (drop_ghost s g) L" "PageAt s i \<notin> set (cg_aband g) \<union> cg_out g \<union> L"
proof -
  have s: "s \<in> set (cg_segs g)" using assms(2) by (simp add: full_segs_def)
  have u: "seg_pages (set (cg_segs (drop_ghost s g))) = seg_pages (set (cg_segs g)) - seg_pages {s}"
    by (auto simp: seg_pages_def)
  have p: "pooled (drop_ghost s g) = pooled g - seg_pages {s}" "seg_pages {s} \<subseteq> pooled g"
    using s full_seg_pool [OF assms(1,2)] by (auto simp: seg_pages_def pooled_def)
  show "parts (drop_ghost s g) L"
    using assms(3) p(2) unfolding parts_def u p(1) drop_ghost_simps(4,5) by auto
  have "PageAt s i \<in> seg_pages (set (cg_segs g)) \<Longrightarrow> PageAt s i \<in> seg_pages {s}" by (auto simp: seg_pages_def)
  then show "PageAt s i \<notin> set (cg_aband g) \<union> cg_out g \<union> L" using assms(3) p(2) unfolding parts_def by auto
qed

lemma drop_counts:
  assumes c: "central_core st g L" "s \<in> full_segs g"
  shows "length (cg_segs g) = Suc (length (cg_segs (drop_ghost s g)))"
    "free_pages g = 63 + free_pages (drop_ghost s g)"
    "card (full_segs g) = Suc (card (full_segs (drop_ghost s g)))"
proof -
  have s: "s \<in> set (cg_segs g)" "length (cg_pool g s) = 63" using assms(2) by (simp_all add: full_segs_def)
  have d: "distinct (cg_segs g)" by (rule segs_bound(2) [OF c(1)])
  have q: "set (cg_segs (drop_ghost s g)) = set (cg_segs g) - {s}" by auto
  have "card (set (cg_segs g)) = Suc (card (set (cg_segs g) - {s}))" using card.remove [OF _ s(1)] by simp
  moreover have "card (set (cg_segs (drop_ghost s g))) = length (cg_segs (drop_ghost s g))"
    using d by (intro distinct_card) simp
  ultimately show "length (cg_segs g) = Suc (length (cg_segs (drop_ghost s g)))"
    using distinct_card [OF d] q by simp
  show "free_pages g = 63 + free_pages (drop_ghost s g)"
    unfolding free_pages_def q drop_ghost_simps(3) using sum.remove [of "set (cg_segs g)" s "\<lambda>s. length (cg_pool g s)"] s by simp
  have "full_segs (drop_ghost s g) = full_segs g - {s}" by (auto simp: full_segs_def)
  then show "card (full_segs g) = Suc (card (full_segs (drop_ghost s g)))"
    using card.remove [OF _ c(2)] by (simp add: full_segs_def)
qed

lemma drop_core:
  assumes c: "central_core st g L" "s \<in> full_segs g" "link_frame st st2"
    and l: "linked 0 (seg_nx st2) (cs_segments (st_central st2)) (filter (\<lambda>t. t \<noteq> s) (cg_segs g)) 0"
    and st': "\<And>t. t \<noteq> s \<Longrightarrow> get_seg t st' = get_seg t st2"
      "\<And>a i. a \<noteq> s \<Longrightarrow> get_page (PageAt a i) st' = get_page (PageAt a i) st2"
      "cs_segments (st_central st') = cs_segments (st_central st2)"
      "cs_abandoned (st_central st') = cs_abandoned (st_central st2)"
  shows "central_core st' (drop_ghost s g) L"
proof -
  have pa: "parts g L" using c(1) by (simp add: central_core_def)
  have "linked 0 (seg_nx st') p (filter (\<lambda>t. t \<noteq> s) (cg_segs g)) 0 = linked 0 (seg_nx st2) p (filter (\<lambda>t. t \<noteq> s) (cg_segs g)) 0" for p
    by (rule linked_cong) (use st'(1) in \<open>auto simp: seg_nx_def\<close>)
  moreover have nx: "pg_nx st' (PageAt a i) = pg_nx st (PageAt a i)" if "a \<noteq> s" for a i
    using st'(2) [OF that] link_frame_rest(4) [OF c(3)] by (simp add: pg_nx_def)
  have "linked NullPage (pg_nx st') p (cg_aband g) NullPage = linked NullPage (pg_nx st) p (cg_aband g) NullPage" for p
  proof (rule linked_cong)
    fix q assume q: "q \<in> set (cg_aband g)"
    then have "q \<in> pooled g \<union> set (cg_aband g) \<union> cg_out g \<union> L" by simp
    then obtain a i where "q = PageAt a i" by (rule page_core [OF c(1)])
    moreover from this have "a \<noteq> s" using q drop_parts(2) [OF c(1,2) pa, of i] by auto
    ultimately show "pg_nx st' q = pg_nx st q" using nx by simp
  qed
  moreover have "seg_inv st' t (cg_pool g t)" if t: "t \<in> set (cg_segs g)" "t \<noteq> s" for t
  proof -
    have "seg_inv st t (cg_pool g t)" using c(1) t by (simp add: central_core_def)
    then have i: "seg_inv st2 t (cg_pool g t)" by (rule link_frame_seg_inv [OF c(3)])
    then obtain x where x: "get_seg t st2 = Some x" by (auto simp: seg_inv_def)
    show ?thesis
      by (rule seg_inv_cong [OF i x]) (use st' t x in \<open>auto simp: pg_nx_def\<close>)
  qed
  ultimately show ?thesis
    using c(1) l st'(3,4) drop_parts(1) [OF c(1,2) pa] link_frame_central(1) [OF c(3)] by (simp add: central_core_def)
qed

lemma drop_world:
  assumes w: "world_ok K R st S" "s \<in> S" "get_seg s st = Some x" "sg_mmap_size x = SEGMENT_SIZE"
    and r: "region_unregister s (st_registry st) = Some r" "reg_inv r" "reg_keys r = reg_keys (st_registry st) - {s}"
    and st': "st' = drop_segment s (st\<lparr>st_registry := r, st_os := os_free K s (sg_mmap_size x) (st_os st)\<rparr>)"
  shows "world_ok K R st' (S - {s})" "st_mem st' = st_mem st" "outer_frame st st'" "reg_exact st \<longrightarrow> reg_exact st'"
proof -
  let ?Q = "reg_region K (st_registry st)"
  have q: "reg_region K r = ?Q" by (rule unregister_region [OF r(1)])
  have h: "os_holds K (st_os st) (seg_regions S \<union> R \<union> ?Q)" and d: "seg_regions S \<inter> R = {}" "(seg_regions S \<union> R) \<inter> ?Q = {}"
    using w(1) by (simp_all add: world_ok_def)
  have i: "(s, SEGMENT_SIZE) \<in> seg_regions S" using w(2) by (simp add: seg_regions_def)
  then have u: "seg_regions S \<union> R \<union> ?Q - {(s, SEGMENT_SIZE)} = seg_regions (S - {s}) \<union> R \<union> ?Q"
    using d by (auto simp: seg_regions_def)
  have "os_holds K (os_free K s SEGMENT_SIZE (st_os st)) (seg_regions S \<union> R \<union> ?Q - {(s, SEGMENT_SIZE)})"
    "mem (os_free K s SEGMENT_SIZE (st_os st)) = st_mem st"
    using os_holds_free [OF h] i by blast+
  note f = this [unfolded u]
  have sub: "seg_regions (S - {s}) \<subseteq> seg_regions S" by (auto simp: seg_regions_def)
  have gl: "get_large a st' = get_large a st" for a
    unfolding st' using w(3) by (subst get_large_drop) (simp_all add: get_large_def)
  have sg: "get_seg a st' \<noteq> None \<longleftrightarrow> a \<in> S - {s}" for a using w(1) by (simp add: st' world_ok_def)
  have rg: "st_registry st' = r" "st_os st' = os_free K s SEGMENT_SIZE (st_os st)" "dom (st_regions st') = dom (st_regions st) - {s}"
    by (simp_all add: st' w(4))
  show "world_ok K R st' (S - {s})"
    using w(1) f(1) d sub r(2,3) unfolding world_ok_def gl sg rg q by blast
  show "st_mem st' = st_mem st" using f(2) rg by simp
  show "outer_frame st st'" using gl by (simp add: outer_frame_def st')
  show "reg_exact st \<longrightarrow> reg_exact st'" using rg r(3) by (simp add: reg_exact_def)
qed

definition no_new_map :: "State \<Rightarrow> State \<Rightarrow> bool" where
  "no_new_map st st' \<longleftrightarrow> (\<forall>x. mapped (st_os st') x \<longrightarrow> mapped (st_os st) x)"

lemma no_new_map_same [simp]: "mapped (st_os st') = mapped (st_os st) \<Longrightarrow> no_new_map st st'"
  by (simp add: no_new_map_def)

lemma no_new_map_trans: "no_new_map st st1 \<Longrightarrow> no_new_map st1 st2 \<Longrightarrow> no_new_map st st2"
  by (simp add: no_new_map_def)

definition pool_frame :: "State \<Rightarrow> cghost \<Rightarrow> State \<Rightarrow> cghost \<Rightarrow> bool" where
  "pool_frame st g st' g' \<longleftrightarrow> outer_frame st st' \<and> st_mem st' = st_mem st \<and> (reg_exact st \<longrightarrow> reg_exact st') \<and>
     (roomy (st_registry st) \<longrightarrow> roomy (st_registry st')) \<and> (slack (st_registry st) \<longrightarrow> slack (st_registry st')) \<and>
     cg_out g' = cg_out g \<and> cg_aband g' = cg_aband g \<and> set (cg_segs g') \<subseteq> set (cg_segs g) \<and> no_new_map st st' \<and>
     (\<forall>p \<in> set (cg_aband g) \<union> cg_out g. get_page p st' = get_page p st)"

lemma pool_frame_trans: "pool_frame st g st1 g1 \<Longrightarrow> pool_frame st1 g1 st2 g2 \<Longrightarrow> pool_frame st g st2 g2"
  unfolding pool_frame_def by (auto intro: outer_frame_trans no_new_map_trans)

lemma aligned_live: "segment_aligned s \<Longrightarrow> s \<noteq> 0 \<Longrightarrow> live s"
  by (auto simp: live_def EMPTY_def TOMB_def segment_aligned_def unsigned_minus_1_eq_mask mask_eq_exp_minus_1)

lemma base_inv_facts:
  assumes "base_inv K R st g L"
  shows "central_core st g L" "avail_list st (cg_avail g)"
    "set (cg_avail g) = {s \<in> set (cg_segs g). cg_pool g s \<noteq> []}"
    "central_counts (st_central st) g (card (full_segs g))" "world_ok K R st (set (cg_segs g))"
    "\<forall>p \<in> set (cg_aband g). page_good st p" "\<forall>t \<in> set (cg_segs g). get_seg t st \<noteq> None" "reg_inv (st_registry st)"
  using assms by (simp_all add: base_inv_def central_lists_def world_ok_def)

text \<open>The segment leaves both lists.\<close>

lemma unlink_segment:
  assumes b: "base_inv K R st g L" and s: "s \<in> full_segs g"
  obtains st1 st2 where "avail_remove s st = Some st1" "all_remove s st1 = Some st2" "link_frame st st2"
    "avail_list st2 (cg_avail (drop_ghost s g))"
    "linked 0 (seg_nx st2) (cs_segments (st_central st2)) (cg_segs (drop_ghost s g)) 0"
proof -
  note f = base_inv_facts [OF b]
  have "s \<in> set (cg_segs g)" "length (cg_pool g s) = 63" using s by (simp_all add: full_segs_def)
  then have sS: "s \<in> set (cg_segs g)" "s \<in> set (cg_avail g)" unfolding f(3) by auto
  obtain as bs where ab: "cg_avail g = as @ s # bs" using sS(2) by (meson split_list)
  have da: "dlist 0 (av_nx st) (av_pv st) (cs_avail (st_central st)) (as @ s # bs)" using f(2) ab by (simp add: avail_list_def)
  have ea: "\<forall>t \<in> set (as @ s # bs). get_seg t st \<noteq> None" using f(3,7) ab by (metis (mono_tags, lifting) mem_Collect_eq)
  obtain st1 where 1: "avail_remove s st = Some st1" "avail_frame st st1" "avail_list st1 (as @ bs)"
    using avail_remove_spec [OF da ea] by (auto simp: avail_list_def)
  have f1: "link_frame st st1" using 1(2) by (simp add: avail_frame_def)
  obtain cs ds where cd: "cg_segs g = cs @ s # ds" using sS(1) by (meson split_list)
  have lc: "linked 0 (seg_nx st1) (cs_segments (st_central st1)) (cs @ s # ds) 0"
    using avail_frame_core [OF 1(2) f(1)] cd by (simp add: central_core_def)
  have ec: "\<forall>t \<in> set (cs @ s # ds). get_seg t st1 \<noteq> None" using f(7) cd link_frame_None [OF f1] by simp
  obtain st2 where 2: "all_remove s st1 = Some st2" "all_frame st1 st2"
    "linked 0 (seg_nx st2) (cs_segments (st_central st2)) (cs @ ds) 0" using all_remove_spec [OF lc ec] by blast
  have "link_frame st st2" using link_frame_trans [OF f1] 2(2) by (simp add: all_frame_def)
  moreover have "avail_list st2 (as @ bs)" using 1(3) 2(2) by (simp add: avail_list_def all_frame_def)
  moreover have "cg_avail (drop_ghost s g) = as @ bs" using filter_split [OF dlist_distinct [OF da]] ab by simp
  moreover have "cg_segs (drop_ghost s g) = cs @ ds" using filter_split [OF linked_distinct [OF lc]] cd by simp
  ultimately show thesis using that 1(1) 2(1,3) by presburger
qed

lemma upd_central_frames [simp]:
  "world_ok K R (upd_central f st) S = world_ok K R st S" "outer_frame (upd_central f st) st' = outer_frame st st'"
  "outer_frame st (upd_central f st') = outer_frame st st'" "reg_exact (upd_central f st) = reg_exact st"
  "page_good (upd_central f st) p = page_good st p" "pblocks (upd_central f st) p = pblocks st p"
  by (simp_all add: world_ok_def outer_frame_def reg_exact_def get_large_def page_good_def pblocks_def)

lemma link_frame_exact: "link_frame st st' \<Longrightarrow> reg_exact st' = reg_exact st"
  by (simp add: reg_exact_def link_frame_rest)

lemma base_page_ptr:
  assumes "central_core st g L" "p \<in> set (cg_aband g) \<union> cg_out g"
  obtains a i where "p = PageAt a i" "a \<in> set (cg_segs g)"
  by (rule page_core [OF assms(1), of p]) (use assms(2) that in auto)

lemma drop_central_counts:
  assumes c: "central_core st g L" "s \<in> full_segs g" and n: "central_counts C g (card (full_segs g))"
  shows "central_counts (C\<lparr>cs_num_segments := cs_num_segments C - 1, cs_free_segments := cs_free_segments C - 1,
    cs_free_page_count := cs_free_page_count C - USABLE_PAGES_PER_SEGMENT\<rparr>) (drop_ghost s g) (card (full_segs (drop_ghost s g)))"
  using n drop_counts [OF c] by (simp add: central_counts_def unat_sub word_le_nat_alt)

lemma pool_unmap_ok:
  assumes b: "base_inv K R st g {}" and s: "s \<in> full_segs g" and r: "roomy (st_registry st)"
  shows "\<exists>st'. pool_unmap K s st = Some st' \<and> base_inv K R st' (drop_ghost s g) {} \<and> pool_frame st g st' (drop_ghost s g)"
proof -
  note f = base_inv_facts [OF b]
  have sS: "s \<in> set (cg_segs g)" using s by (simp add: full_segs_def)
  obtain x where x: "get_seg s st = Some x" "sg_mmap_size x = SEGMENT_SIZE" "segment_aligned s" "s \<noteq> 0"
    by (rule segs_core [OF f(1) sS])
  obtain st1 st2 where 1: "avail_remove s st = Some st1" "all_remove s st1 = Some st2" and l: "link_frame st st2"
    and 2: "avail_list st2 (cg_avail (drop_ghost s g))"
      "linked 0 (seg_nx st2) (cs_segments (st_central st2)) (filter (\<lambda>t. t \<noteq> s) (cg_segs g)) 0"
    by (rule unlink_segment [OF b s, unfolded drop_ghost_simps(1)])
  obtain y where y: "get_seg s st2 = Some y" "seg_core y = seg_core x" by (rule link_frame_seg [OF l x(1)])
  have my: "sg_mmap_size y = SEGMENT_SIZE" using seg_core_fields(2) [OF y(2)] x(2) by simp
  let ?C = "\<lambda>g. g\<lparr>cs_num_segments := cs_num_segments g - 1, cs_free_segments := cs_free_segments g - 1,
       cs_free_page_count := cs_free_page_count g - USABLE_PAGES_PER_SEGMENT\<rparr>"
  obtain r' where r': "region_unregister s (st_registry st) = Some r'" "reg_inv r'" "reg_keys r' = reg_keys (st_registry st) - {s}"
    "roomy r'" "slack (st_registry st) \<longrightarrow> slack r'" by (rule unregister_roomy [OF f(8) r aligned_live [OF x(3,4)]])
  let ?st = "upd_central ?C st2"
  define st' where "st' = drop_segment s (?st\<lparr>st_registry := r', st_os := os_free K s (sg_mmap_size y) (st_os ?st)\<rparr>)"
  have e: "pool_unmap K s st = Some st'"
    using 1 y r'(1) link_frame_rest(2) [OF l] by (simp add: pool_unmap_def st'_def)
  have "world_ok K R ?st (set (cg_segs g))" "get_seg s ?st = Some y" "st_registry ?st = st_registry st"
    using f(5) y link_frame_world [OF l] link_frame_rest(2) [OF l] by simp_all
  note w = drop_world [OF this(1) sS this(2) my, unfolded this(3), OF r'(1-3) st'_def]
  have core: "central_core st' (drop_ghost s g) {}"
    by (rule drop_core [OF f(1) s l 2(2)]) (simp_all add: st'_def)
  have pages: "get_page p st' = get_page p st" if p: "p \<in> set (cg_aband g) \<union> cg_out g" for p
  proof -
    obtain a i where "p = PageAt a i" by (rule base_page_ptr [OF f(1) p])
    moreover have "parts g {}" using f(1) by (simp add: central_core_def)
    ultimately show ?thesis using drop_parts(2) [OF f(1) s, of i] p link_frame_rest(4) [OF l] by (auto simp: st'_def)
  qed
  have mem: "st_mem st' = st_mem st" using w(2) link_frame_rest(3) [OF l] by simp
  have "page_good st' p = page_good st p" if "p \<in> set (cg_aband g)" for p
    by (rule pblocks_cong(2)) (use pages that mem in \<open>simp_all add: same_area_def\<close>)
  moreover have "avail_list st' (cg_avail (drop_ghost s g))"
  proof -
    have "dlist 0 (av_nx st') (av_pv st') h (cg_avail (drop_ghost s g)) = dlist 0 (av_nx st2) (av_pv st2) h (cg_avail (drop_ghost s g))" for h
      by (rule dlist_cong) (simp_all add: st'_def link_defs)
    then show ?thesis using 2(1) by (simp add: avail_list_def st'_def)
  qed
  moreover have "central_counts (st_central st') (drop_ghost s g) (card (full_segs (drop_ghost s g)))"
    using drop_central_counts [OF f(1) s] link_frame_central(3) [OF l] f(4) by (simp add: st'_def)
  ultimately have "base_inv K R st' (drop_ghost s g) {}"
    using core f(3,6) w(1) by (auto simp: base_inv_def central_lists_def set_diff_eq)
  moreover have "no_new_map st st'"
    using link_frame_rest(3) [OF l] by (auto simp: no_new_map_def st'_def dest: os_free_mapped)
  moreover from this have "pool_frame st g st' (drop_ghost s g)"
    using w(3,4) link_frame_outer [OF l] link_frame_exact [OF l] r' pages mem outer_frame_trans
    by (auto simp: pool_frame_def) (simp_all add: st'_def)
  ultimately show ?thesis using e by blast
qed

end
