(* ===== verification/Central_Inv.thy ===== *)
theory Central_Inv
  imports Central_Lists
begin

text \<open>
  Correctness of the central heap (src/src/central.cpp): every operation returns and keeps the
  invariant of its lists, pools and counters, and what each does to the partition of the pages
  into pooled, abandoned and handed-out ones.
\<close>

section \<open>Returning a page to its pool\<close>

lemma upd_central_links [simp]:
  "seg_nx (upd_central f st) = seg_nx st" "av_nx (upd_central f st) = av_nx st" "av_pv (upd_central f st) = av_pv st"
  "pg_nx (upd_central f st) = pg_nx st" "pg_pv (upd_central f st) = pg_pv st"
  "seg_inv (upd_central f st) = seg_inv st"
proof -
  show l: "seg_nx (upd_central f st) = seg_nx st" "av_nx (upd_central f st) = av_nx st" "av_pv (upd_central f st) = av_pv st"
    "pg_nx (upd_central f st) = pg_nx st" "pg_pv (upd_central f st) = pg_pv st"
    by (simp_all add: link_defs fun_eq_iff)
  show "seg_inv (upd_central f st) = seg_inv st" by (simp add: fun_eq_iff seg_inv_def page_area_ok_def l)
qed

lemma upd_central_lists:
  assumes "cs_segments (f (st_central st)) = cs_segments (st_central st)" "cs_avail (f (st_central st)) = cs_avail (st_central st)"
    "cs_abandoned (f (st_central st)) = cs_abandoned (st_central st)"
  shows "central_lists (upd_central f st) g L = central_lists st g L"
  using assms by (simp add: central_lists_def central_core_def avail_list_def)

definition pool_ghost :: "addr \<Rightarrow> nat \<Rightarrow> cghost \<Rightarrow> cghost" where
  "pool_ghost s i g = g\<lparr>cg_pool := (cg_pool g)(s := i # cg_pool g s),
     cg_avail := if cg_pool g s = [] then s # cg_avail g else cg_avail g\<rparr>"

lemma pool_ghost_simps [simp]:
  "cg_segs (pool_ghost s i g) = cg_segs g" "cg_aband (pool_ghost s i g) = cg_aband g" "cg_out (pool_ghost s i g) = cg_out g"
  "cg_pool (pool_ghost s i g) = (cg_pool g)(s := i # cg_pool g s)"
  by (simp_all add: pool_ghost_def)

lemma pool_ghost_counts:
  assumes c: "central_core st g L" "s \<in> set (cg_segs g)"
  shows "free_pages (pool_ghost s i g) = Suc (free_pages g)"
    "length (cg_pool g s) = 62 \<Longrightarrow> card (full_segs (pool_ghost s i g)) = Suc (card (full_segs g))"
    "length (cg_pool g s) < 62 \<Longrightarrow> full_segs (pool_ghost s i g) = full_segs g"
    "length (cg_pool g s) = 62 \<longleftrightarrow> s \<in> full_segs (pool_ghost s i g)"
proof -
  have "free_pages (pool_ghost s i g) = Suc (length (cg_pool g s)) + (\<Sum>t \<in> set (cg_segs g) - {s}. length (cg_pool g t))"
    unfolding free_pages_def by (simp add: sum.remove [OF _ c(2)])
  also have "\<dots> = Suc (free_pages g)" unfolding free_pages_def by (simp add: sum.remove [OF _ c(2)])
  finally show "free_pages (pool_ghost s i g) = Suc (free_pages g)" .
  show "card (full_segs (pool_ghost s i g)) = Suc (card (full_segs g))" if "length (cg_pool g s) = 62"
  proof -
    have "full_segs (pool_ghost s i g) = insert s (full_segs g)" "s \<notin> full_segs g"
      using that c(2) by (auto simp: full_segs_def)
    then show ?thesis by (simp add: full_segs_def)
  qed
  show "length (cg_pool g s) < 62 \<Longrightarrow> full_segs (pool_ghost s i g) = full_segs g"
    by (auto simp: full_segs_def)
  show "length (cg_pool g s) = 62 \<longleftrightarrow> s \<in> full_segs (pool_ghost s i g)" using c(2) by (auto simp: full_segs_def)
qed

text \<open>The page is in its segment's free list, and the segment is on the \<open>avail\<close> list.\<close>

lemma pool_add_lists:
  assumes l: "central_lists st g {PageAt s i}" and c1: "central_core st1 (g\<lparr>cg_pool := (cg_pool g)(s := i # cg_pool g s)\<rparr>) {}"
    and s: "s \<in> set (cg_segs g)"
    and e: "av_nx st1 = av_nx st" "av_pv st1 = av_pv st" "cs_avail (st_central st1) = cs_avail (st_central st)"
  shows "\<exists>st2. (if cg_pool g s = [] then avail_push s st1 else Some st1) = Some st2 \<and> avail_frame st1 st2 \<and>
    central_lists st2 (pool_ghost s i g) {}"
proof -
  let ?g = "g\<lparr>cg_pool := (cg_pool g)(s := i # cg_pool g s)\<rparr>"
  have av: "avail_list st1 (cg_avail g)" "set (cg_avail g) = {s \<in> set (cg_segs g). cg_pool g s \<noteq> []}"
    using l by (simp_all add: central_lists_def avail_list_def e)
  have core: "central_core st (pool_ghost s i g) L = central_core st ?g L" for st L
    by (simp add: central_core_def parts_def pooled_def)
  show ?thesis
  proof (cases "cg_pool g s = []")
    case False
    then show ?thesis using c1 av s core by (auto simp: central_lists_def pool_ghost_def)
  next
    case True
    have "\<forall>t \<in> set (cg_segs ?g). get_seg t st1 \<noteq> None" using c1 by (fastforce simp: central_core_def seg_inv_def)
    then have ex: "\<forall>t \<in> set (s # cg_avail g). get_seg t st1 \<noteq> None" using av(2) s by auto
    have "s \<noteq> 0" by (rule segs_core [OF c1, of s]) (use s in simp_all)
    moreover have "s \<notin> set (cg_avail g)" using True av(2) by simp
    ultimately obtain st2 where "avail_push s st1 = Some st2" "avail_frame st1 st2" "avail_list st2 (s # cg_avail g)"
      using avail_push_spec [OF av(1) [unfolded avail_list_def] _ _ ex] unfolding avail_list_def by blast
    then show ?thesis using True av(2) s avail_frame_core [OF _ c1, of st2] core
      by (auto simp: central_lists_def pool_ghost_def)
  qed
qed

lemma set_twice [simp]:
  "set_page p a (set_page p b st) = set_page p a st" "set_seg s x (set_seg s y st) = set_seg s x st"
  by (simp_all add: set_page_def set_seg_def)

lemma set_frames [simp]:
  "world_ok K R (set_page p x st) S = world_ok K R st S" "reg_exact (set_page p x st) = reg_exact st"
  "get_large a (set_page p x st) = get_large a st" "get_large a (upd_central f st) = get_large a st"
  by (simp_all add: world_ok_def reg_exact_def get_large_def)

lemma set_page_links [simp]:
  "seg_nx (set_page p x st) = seg_nx st" "av_nx (set_page p x st) = av_nx st" "av_pv (set_page p x st) = av_pv st"
  by (simp_all add: link_defs fun_eq_iff)

lemma set_seg_frames:
  assumes "get_seg s st \<noteq> None"
  shows "world_ok K R (set_seg s x st) S = world_ok K R st S" "reg_exact (set_seg s x st) = reg_exact st"
    "get_large a (set_seg s x st) = get_large a st" "dom (st_regions (set_seg s x st)) = dom (st_regions st)"
proof -
  have r: "s \<in> dom (st_regions st)" "\<And>h. st_regions st s \<noteq> Some (LargeRegion h)"
    using assms by (auto simp: get_seg_def split: option.splits Region.splits)
  show d: "dom (st_regions (set_seg s x st)) = dom (st_regions st)" using r(1) by (auto simp: set_seg_def)
  show l: "get_large a (set_seg s x st) = get_large a st" for a
    using r(2) by (auto simp: get_large_def set_seg_def split: option.splits Region.splits)
  show "reg_exact (set_seg s x st) = reg_exact st" by (simp add: reg_exact_def d)
  show "world_ok K R (set_seg s x st) S = world_ok K R st S"
    using assms by (auto simp: world_ok_def d l)
qed

text \<open>The state after the page is linked in and the counter raised.\<close>

definition pool_add :: "addr \<Rightarrow> nat \<Rightarrow> Page \<Rightarrow> Segment \<Rightarrow> State \<Rightarrow> State" where
  "pool_add s i x y st = upd_central (\<lambda>g. g\<lparr>cs_free_page_count := cs_free_page_count g + 1\<rparr>)
     (set_seg s (y\<lparr>sg_free_list := PageAt s i, sg_free_count := sg_free_count y + 1\<rparr>)
       (set_page (PageAt s i) (x\<lparr>pg_in_use := False, pg_owner := NullHeap, pg_free := 0, pg_block_size := 0,
          pg_prev := NullPage, pg_next := sg_free_list y\<rparr>) st))"

lemma pool_return_unfold:
  assumes "get_page (PageAt s i) st = Some x" "segment_of (pg_area x) = s" "get_seg s st = Some y"
  shows "pool_return K (PageAt s i) st = do {
     st \<leftarrow> (if sg_free_count y = 0 then avail_push s (pool_add s i x y st) else Some (pool_add s i x y st));
     x \<leftarrow> get_seg s st;
     if ucast (sg_free_count x) = USABLE_PAGES_PER_SEGMENT then do {
       let st = upd_central (\<lambda>g. g\<lparr>cs_free_segments := cs_free_segments g + 1\<rparr>) st;
       if cs_free_segments (st_central st) > SEGMENT_CACHE then pool_unmap K s st else Some st }
     else Some st }"
  using assms by (simp add: pool_return_def pool_add_def upd_page_def upd_seg_def Let_def cong: if_cong)

lemma pool_add_ok:
  assumes b: "base_inv K R st g {PageAt s i}"
    and x: "get_page (PageAt s i) st = Some x" and y: "get_seg s st = Some y" and s: "s \<in> set (cg_segs g)"
  shows "\<exists>st2. (if sg_free_count y = 0 then avail_push s (pool_add s i x y st) else Some (pool_add s i x y st)) = Some st2 \<and>
    link_frame (pool_add s i x y st) st2 \<and> central_lists st2 (pool_ghost s i g) {}"
proof -
  note f = base_inv_facts [OF b]
  let ?st = "pool_add s i x y st"
  have c: "central_core ?st (g\<lparr>cg_pool := (cg_pool g)(s := i # cg_pool g s)\<rparr>) {}"
    by (rule pool_add_core [OF f(1) x y,
          where y' = "y\<lparr>sg_free_list := PageAt s i, sg_free_count := sg_free_count y + 1\<rparr>"]) (simp_all add: pool_add_def)
  have "unat (sg_free_count y) = length (cg_pool g s)" by (rule segs_core [OF f(1) s]) (use y in simp)
  then have "sg_free_count y = 0 \<longleftrightarrow> cg_pool g s = []" by (simp add: unat_eq_0 [symmetric])
  moreover have "central_lists st g {PageAt s i}" using b by (simp add: base_inv_def)
  then have "\<exists>st2. (if cg_pool g s = [] then avail_push s ?st else Some ?st) = Some st2 \<and> avail_frame ?st st2 \<and>
    central_lists st2 (pool_ghost s i g) {}"
    by (rule pool_add_lists [OF _ c s]) (use y in \<open>simp_all add: pool_add_def link_defs fun_eq_iff\<close>)
  ultimately show ?thesis unfolding avail_frame_def by auto
qed

lemma pool_frame_pages:
  assumes "pool_frame st g st' g'" "p \<in> set (cg_aband g) \<union> cg_out g"
  shows "pblocks st' p = pblocks st p" "page_good st' p = page_good st p"
  by (rule pblocks_cong; use assms in \<open>simp add: pool_frame_def same_area_def\<close>)+

lemma pool_frame_refl: "pool_frame st g st g"
  by (simp add: pool_frame_def)

text \<open>The page and its segment after the first half; the counter of fully free segments is still to be raised.\<close>

lemma pool_added:
  assumes b: "base_inv K R st g {PageAt s i}"
    and x: "get_page (PageAt s i) st = Some x" and y: "get_seg s st = Some y" and s: "s \<in> set (cg_segs g)"
    and l: "link_frame (pool_add s i x y st) st2"
  shows "world_ok K R st2 (set (cg_segs g))" "pool_frame st g st2 (pool_ghost s i g)"
    "central_counts (st_central st2) (pool_ghost s i g) (card (full_segs g))"
    "\<exists>z. get_seg s st2 = Some z \<and> (ucast (sg_free_count z) = USABLE_PAGES_PER_SEGMENT \<longleftrightarrow> length (cg_pool g s) = 62)"
proof -
  note f = base_inv_facts [OF b]
  let ?st = "pool_add s i x y st"
  note lf = link_frame_rest [OF l] link_frame_outer [OF l] link_frame_exact [OF l]
  have w: "world_ok K R ?st (set (cg_segs g))" "reg_exact ?st = reg_exact st" "outer_frame st ?st"
    using f(5) y set_seg_frames [of s "set_page (PageAt s i) _ st"] by (simp_all add: pool_add_def outer_frame_def)
  show "world_ok K R st2 (set (cg_segs g))" using w(1) link_frame_world [OF l] by simp
  have "PageAt s i \<notin> set (cg_aband g) \<union> cg_out g" using f(1) by (auto simp: central_core_def parts_def)
  then show "pool_frame st g st2 (pool_ghost s i g)"
    using outer_frame_trans [OF w(3)] lf w(2) by (auto simp: pool_frame_def pool_add_def)
  have "unat (cs_free_page_count (st_central st) + 1) = Suc (free_pages g)"
    using f(4) free_pages_bound(2) [OF f(1)] by (simp add: central_counts_def unat_word_ariths)
  then have "central_counts (st_central ?st) (pool_ghost s i g) (card (full_segs g))"
    using f(4) pool_ghost_counts(1) [OF f(1) s, of i] by (simp add: central_counts_def pool_add_def)
  then show "central_counts (st_central st2) (pool_ghost s i g) (card (full_segs g))"
    using link_frame_central(3) [OF l] by simp
  have "unat (sg_free_count y) = length (cg_pool g s) \<and> length (cg_pool g s) \<le> 63"
    by (rule segs_core [OF f(1) s]) (use y in simp)
  then have n: "unat (sg_free_count y + 1) = Suc (length (cg_pool g s))" by (simp add: unat_word_ariths)
  obtain z where z: "get_seg s st2 = Some z" "seg_core z = seg_core (y\<lparr>sg_free_list := PageAt s i, sg_free_count := sg_free_count y + 1\<rparr>)"
    by (rule link_frame_seg [OF l, of s]) (simp_all add: pool_add_def)
  have "unat (sg_free_count z) = Suc (length (cg_pool g s))" using n seg_core_fields(4) [OF z(2)] by simp
  then have "ucast (sg_free_count z) = (63 :: u64) \<longleftrightarrow> length (cg_pool g s) = 62"
    by (simp add: word_unat_eq_iff)
  then show "\<exists>z. get_seg s st2 = Some z \<and> (ucast (sg_free_count z) = USABLE_PAGES_PER_SEGMENT \<longleftrightarrow> length (cg_pool g s) = 62)"
    using z(1) by simp
qed

lemma pool_return_ok:
  assumes b: "base_inv K R st g {pg}" and r: "roomy (st_registry st)" and c: "cache_ok g"
  shows "\<exists>st' g'. pool_return K pg st = Some st' \<and> base_inv K R st' g' {} \<and> cache_ok g' \<and> pool_frame st g st' g'"
proof -
  note f = base_inv_facts [OF b]
  obtain s i x where pg: "pg = PageAt s i" and s: "s \<in> set (cg_segs g)" and x: "get_page pg st = Some x" "segment_of (pg_area x) = s"
    by (rule page_core [OF f(1), of pg]) auto
  obtain y where y: "get_seg s st = Some y" using f(7) s by blast
  note * = pg s x y b [unfolded pg] x(1) [unfolded pg]
  obtain st2 where 2: "(if sg_free_count y = 0 then avail_push s (pool_add s i x y st) else Some (pool_add s i x y st)) = Some st2"
    "link_frame (pool_add s i x y st) st2" "central_lists st2 (pool_ghost s i g) {}"
    using pool_add_ok [OF *(6,7) y s] by blast
  note a = pool_added [OF *(6,7) y s 2(2)]
  let ?g = "pool_ghost s i g"
  have ab: "\<forall>p \<in> set (cg_aband ?g). page_good st2 p" using f(6) pool_frame_pages(2) [OF a(2)] by simp
  obtain z where z: "get_seg s st2 = Some z" "ucast (sg_free_count z) = USABLE_PAGES_PER_SEGMENT \<longleftrightarrow> length (cg_pool g s) = 62"
    using a(4) by blast
  note u = pool_return_unfold [OF *(7) x(2) y, unfolded 2(1)]
  have le: "length (cg_pool g s) \<le> 62"
    by (rule segs_core [OF central_lists_def [THEN iffD1, OF 2(3), THEN conjunct1], of s]) (use s in simp_all)
  note n = pool_ghost_counts [OF f(1) s]
  show ?thesis
  proof (cases "length (cg_pool g s) = 62")
    case False
    then have "full_segs ?g = full_segs g" using n(3) le by simp
    then have "base_inv K R st2 ?g {}" "cache_ok ?g" using 2(3) a(1,3) ab c by (simp_all add: base_inv_def cache_ok_def)
    moreover have "pool_return K pg st = Some st2" using u z False pg by simp
    ultimately show ?thesis using a(2) by blast
  next
    case True
    let ?st = "upd_central (\<lambda>g. g\<lparr>cs_free_segments := cs_free_segments g + 1\<rparr>) st2"
    have k: "card (full_segs ?g) = Suc (card (full_segs g))" "card (full_segs g) \<le> 1"
      using n(2) True c by (simp_all add: cache_ok_def SEGMENT_CACHE_def)
    have fs: "unat (cs_free_segments (st_central st2)) = card (full_segs g)" using a(3) by (simp add: central_counts_def)
    then have fs': "unat (cs_free_segments (st_central st2) + 1) = Suc (card (full_segs g))"
      using k(2) by (simp add: unat_word_ariths)
    have b3: "base_inv K R ?st ?g {}"
      using 2(3) a(1,3) ab k fs' by (simp add: base_inv_def upd_central_lists central_counts_def)
    have p3: "pool_frame st g ?st ?g" using a(2) by (simp add: pool_frame_def no_new_map_def)
    have e: "pool_return K pg st = (if cs_free_segments (st_central st2) + 1 > SEGMENT_CACHE then pool_unmap K s ?st else Some ?st)"
      using u z True pg by simp
    show ?thesis
    proof (cases "cs_free_segments (st_central st2) + 1 > SEGMENT_CACHE")
      case False
      then have "card (full_segs g) = 0" using fs' by (simp add: word_less_nat_alt SEGMENT_CACHE_def)
      then have "cache_ok ?g" using k by (simp add: cache_ok_def SEGMENT_CACHE_def)
      then show ?thesis using e False b3 p3 by auto
    next
      case u: True
      have sf: "s \<in> full_segs ?g" using n(4) True by blast
      have "roomy (st_registry ?st)" using r a(2) by (simp add: pool_frame_def)
      then obtain st' where st': "pool_unmap K s ?st = Some st'" "base_inv K R st' (drop_ghost s ?g) {}" "pool_frame ?st ?g st' (drop_ghost s ?g)"
        using pool_unmap_ok [OF b3 sf] by blast
      have "cache_ok (drop_ghost s ?g)"
        using drop_counts(3) [OF base_inv_facts(1) [OF b3] sf] k by (simp add: cache_ok_def SEGMENT_CACHE_def)
      then show ?thesis using e u st' pool_frame_trans [OF p3] by auto
    qed
  qed
qed

section \<open>Working on one page\<close>

lemma area_recover:
  assumes "segment_aligned s" "i < 64" "in_region (s + of_nat i * PAGE_SIZE) PAGE_SIZE x"
  shows "region_base x = s" "unat (page_index_of x) = i" "x \<in> region_set (s, SEGMENT_SIZE)"
proof -
  define d where "d = unat (x - (s + of_nat i * PAGE_SIZE))"
  have d: "d < 65536" using assms(3) by (simp add: in_region_def d_def word_less_nat_alt)
  have "x = s + of_nat i * PAGE_SIZE + of_nat d" by (simp add: d_def)
  then have x: "x = s + of_nat (i * 65536 + d)" by simp
  have k: "i * 65536 + d < 2 ^ 22" using assms(2) d by simp
  show "region_base x = s" "unat (page_index_of x) = i"
    using region_base_offset(2,3) [OF assms(1) k] d unfolding x by simp_all
  have "x - s = of_nat (i * 65536 + d)" by (simp add: x)
  then have "unat (x - s) = i * 65536 + d"
    using k by (simp add: unsigned_of_nat take_bit_nat_eq_self del: of_nat_add of_nat_mult)
  then show "x \<in> region_set (s, SEGMENT_SIZE)"
    using k by (simp add: region_set_def in_region_def word_less_nat_alt)
qed

lemma area_disjoint:
  assumes c: "central_core st g L" and p: "p \<in> seg_pages (set (cg_segs g))" "q \<in> seg_pages (set (cg_segs g))" "p \<noteq> q"
    and x: "get_page p st = Some x" "get_page q st = Some y"
    and a: "in_region (pg_area x) PAGE_SIZE a"
  shows "\<not> in_region (pg_area y) PAGE_SIZE a"
proof
  assume b: "in_region (pg_area y) PAGE_SIZE a"
  have e: "seg_pages (set (cg_segs g)) = pooled g \<union> set (cg_aband g) \<union> cg_out g \<union> L"
    using c by (simp add: central_core_def parts_def)
  have al: "segment_aligned s" if "s \<in> set (cg_segs g)" for s using c that by (simp add: central_core_def seg_inv_def)
  obtain s i where 1: "p = PageAt s i" "s \<in> set (cg_segs g)" "i \<in> {1..<64}" "pg_area x = s + of_nat i * PAGE_SIZE"
    by (rule page_core [OF c p(1) [unfolded e]]) (use x in simp)
  obtain t j where 2: "q = PageAt t j" "t \<in> set (cg_segs g)" "j \<in> {1..<64}" "pg_area y = t + of_nat j * PAGE_SIZE"
    by (rule page_core [OF c p(2) [unfolded e]]) (use x in simp)
  have "region_base a = s" "unat (page_index_of a) = i"
    using area_recover [OF al [OF 1(2)], of i a] 1 a by simp_all
  moreover have "region_base a = t" "unat (page_index_of a) = j"
    using area_recover [OF al [OF 2(2)], of j a] 2 b by simp_all
  ultimately show False using p(3) 1(1) 2(1) by simp
qed

lemma area_region:
  assumes b: "base_inv K R st g L" and p: "p \<in> seg_pages (set (cg_segs g))" and x: "get_page p st = Some x"
    and a: "in_region (pg_area x) PAGE_SIZE a" and q: "q \<in> R \<union> reg_region K (st_registry st)"
  shows "a \<notin> region_set q"
proof -
  note f = base_inv_facts [OF b]
  have e: "seg_pages (set (cg_segs g)) = pooled g \<union> set (cg_aband g) \<union> cg_out g \<union> L"
    using f(1) by (simp add: central_core_def parts_def)
  obtain s i where 1: "s \<in> set (cg_segs g)" "i \<in> {1..<64}" "pg_area x = s + of_nat i * PAGE_SIZE"
    by (rule page_core [OF f(1) p [unfolded e]]) (use x in simp)
  have "segment_aligned s" using f(1) 1(1) by (simp add: central_core_def seg_inv_def)
  then have "a \<in> region_set (s, SEGMENT_SIZE)" using area_recover(3) [of s i a] 1 a by simp
  moreover have s: "(s, SEGMENT_SIZE) \<in> seg_regions (set (cg_segs g))" using 1(1) by (simp add: seg_regions_def)
  then have "(s, SEGMENT_SIZE) \<noteq> q" using q f(5) unfolding world_ok_def by blast
  then have "region_set (s, SEGMENT_SIZE) \<inter> region_set q = {}"
    using os_holds_disjoint s q f(5) unfolding world_ok_def by (metis UnCI UnE)
  ultimately show ?thesis by blast
qed

text \<open>A step on one page that is in no pool: new fields, and new bytes in the page's area only.\<close>

definition page_step :: "page_ptr \<Rightarrow> Page \<Rightarrow> memory \<Rightarrow> State \<Rightarrow> State" where
  "page_step p x m st = upd_mem m (set_page p x st)"

lemma page_step_simps [simp]:
  "get_seg t (page_step p x m st) = get_seg t st" "get_page q (page_step p x m st) = (if q = p then Some x else get_page q st)"
  "st_central (page_step p x m st) = st_central st" "st_registry (page_step p x m st) = st_registry st"
  "st_mem (page_step p x m st) = m" "st_heaps (page_step p x m st) = st_heaps st" "st_t_heap (page_step p x m st) = st_t_heap st"
  "st_regions (page_step p x m st) = st_regions st" "get_large a (page_step p x m st) = get_large a st"
  "world_ok K R (page_step p x m st) S = world_ok K R st S" "reg_exact (page_step p x m st) = reg_exact st"
  "no_new_map st (page_step p x m st)"
  by (simp_all add: page_step_def world_ok_def get_large_def reg_exact_def os_holds_mem)

lemma page_step_links [simp]:
  "seg_nx (page_step p x m st) = seg_nx st" "av_nx (page_step p x m st) = av_nx st" "av_pv (page_step p x m st) = av_pv st"
  by (simp_all add: link_defs fun_eq_iff)

lemma page_step_outer: "p \<noteq> EmptyPage \<Longrightarrow> outer_frame st (page_step p x m st)"
  by (simp add: outer_frame_def) (simp add: page_step_def)

lemma seg_pages_parts: "central_core st g L \<Longrightarrow> seg_pages (set (cg_segs g)) = pooled g \<union> set (cg_aband g) \<union> cg_out g \<union> L"
  by (simp add: central_core_def parts_def)

lemma core_change:
  assumes c: "central_core st g L" and seg: "\<And>t. get_seg t st' = get_seg t st" "cs_segments (st_central st') = cs_segments (st_central st)"
    and pg: "\<And>q. map_option pg_area (get_page q st') = map_option pg_area (get_page q st)"
      "\<And>q. q \<in> pooled g \<Longrightarrow> pg_nx st' q = pg_nx st q"
    and ab: "linked NullPage (pg_nx st') (cs_abandoned (st_central st')) (cg_aband g') NullPage" "parts g' L'"
    and g': "cg_segs g' = cg_segs g" "cg_pool g' = cg_pool g"
  shows "central_core st' g' L'"
proof -
  have "seg_nx st' = seg_nx st" by (simp add: seg_nx_def fun_eq_iff seg)
  moreover have "seg_inv st' s (cg_pool g s)" if s: "s \<in> set (cg_segs g)" for s
  proof -
    have i: "seg_inv st s (cg_pool g s)" using c s by (simp add: central_core_def)
    then obtain y where y: "get_seg s st = Some y" by (auto simp: seg_inv_def)
    show ?thesis
      by (rule seg_inv_cong [OF i y]) (use y seg pg s in \<open>auto simp: pooled_def\<close>)
  qed
  ultimately show ?thesis using c ab by (simp add: central_core_def seg g')
qed

lemma page_step_core:
  assumes c: "central_core st g L" and p: "p \<in> set (cg_aband g) \<union> cg_out g \<union> L" and x: "get_page p st = Some x"
    and x': "pg_area x' = pg_area x" "p \<in> set (cg_aband g) \<longrightarrow> pg_next x' = pg_next x"
  shows "central_core (page_step p x' m st) g L"
proof (rule core_change [OF c])
  let ?st = "page_step p x' m st"
  have np: "p \<notin> pooled g" using p c by (auto simp: central_core_def parts_def)
  have nx: "pg_nx ?st q = pg_nx st q" if "q \<noteq> p \<or> q \<in> set (cg_aband g)" for q
    using that x x'(2) by (auto simp: pg_nx_def)
  then show "pg_nx ?st q = pg_nx st q" if "q \<in> pooled g" for q using np that by metis
  have "linked NullPage (pg_nx ?st) h (cg_aband g) NullPage = linked NullPage (pg_nx st) h (cg_aband g) NullPage" for h
    by (rule linked_cong) (simp add: nx)
  then show "linked NullPage (pg_nx ?st) (cs_abandoned (st_central ?st)) (cg_aband g) NullPage"
    using c by (simp add: central_core_def)
qed (use c x x' in \<open>auto simp: central_core_def\<close>)

lemma page_step_others:
  assumes c: "central_core st g L" and p: "p \<in> seg_pages (set (cg_segs g))" and x: "get_page p st = Some x"
    and m: "\<forall>a. \<not> in_region (pg_area x) PAGE_SIZE a \<longrightarrow> m a = st_mem st a"
    and q: "q \<in> seg_pages (set (cg_segs g))" "q \<noteq> p"
  shows "pblocks (page_step p x' m st) q = pblocks st q" "page_good (page_step p x' m st) q = page_good st q"
    "get_page q st = Some y \<longrightarrow> same_area (pg_area y) (st_mem st) m"
proof -
  have a: "same_area (pg_area y) (st_mem st) m" if "get_page q st = Some y" for y
    using area_disjoint [OF c q(1) p q(2) that x] m by (auto simp: same_area_def)
  then show "get_page q st = Some y \<longrightarrow> same_area (pg_area y) (st_mem st) m" by blast
  show "pblocks (page_step p x' m st) q = pblocks st q" "page_good (page_step p x' m st) q = page_good st q"
    by (rule pblocks_cong; use a q(2) in simp)+
qed

lemma page_step_base:
  assumes b: "base_inv K R st g L" and p: "p \<in> set (cg_aband g) \<union> cg_out g \<union> L" and x: "get_page p st = Some x"
    and x': "pg_area x' = pg_area x" "p \<in> set (cg_aband g) \<longrightarrow> pg_next x' = pg_next x \<and> page_good (page_step p x' m st) p"
    and m: "\<forall>a. \<not> in_region (pg_area x) PAGE_SIZE a \<longrightarrow> m a = st_mem st a"
  shows "base_inv K R (page_step p x' m st) g L" "same_on (R \<union> reg_region K (st_registry st)) (st_mem st) m"
proof -
  note f = base_inv_facts [OF b]
  have ps: "p \<in> seg_pages (set (cg_segs g))" using p seg_pages_parts [OF f(1)] by auto
  have "page_good (page_step p x' m st) q" if "q \<in> set (cg_aband g)" for q
  proof (cases "q = p")
    case False
    moreover have "q \<in> seg_pages (set (cg_segs g))" using that seg_pages_parts [OF f(1)] by auto
    ultimately show ?thesis using page_step_others(2) [OF f(1) ps x m, of q x'] f(6) that by simp
  qed (use x'(2) that in simp)
  moreover have "central_core (page_step p x' m st) g L"
    by (rule page_step_core [OF f(1) p x]) (use x' in auto)
  moreover have "avail_list (page_step p x' m st) avl = avail_list st avl" for avl
    by (simp add: avail_list_def)
  ultimately show "base_inv K R (page_step p x' m st) g L"
    using b by (simp add: base_inv_def central_lists_def)
  show "same_on (R \<union> reg_region K (st_registry st)) (st_mem st) m"
    using area_region [OF b ps x] m unfolding same_on_def by blast
qed

text \<open>The bytes of the live blocks of all pages but those the step may write to.\<close>

lemma pblocks_area:
  assumes "get_page q st = Some x" "c \<in> pblocks st q" "a \<in> region_set c"
  shows "in_region (pg_area x) PAGE_SIZE a"
proof -
  obtain b fl tf where c: "c = (b, ucast (pg_block_size x))" and ok: "page_ok (st_mem st) x fl tf" "b \<in> page_live x fl tf"
    using assms(1,2) by (auto simp: pblocks_def)
  have g: "page_geometry x" "b \<in> page_blocks x" using ok by (auto simp: page_ok_def page_live_def)
  obtain j where "j < unat (pg_capacity x)" "b = block_addr x j" by (rule page_blocks_capacity [OF g])
  then show ?thesis using block_in_area [OF g(1)] assms(3) c by (simp add: region_set_def)
qed

lemma page_step_bytes:
  assumes c: "central_core st g L" and p: "p \<in> seg_pages (set (cg_segs g))" and x: "get_page p st = Some x"
    and m: "page_frame x B (st_mem st) m"
    and q: "q \<in> seg_pages (set (cg_segs g))" "blk \<in> pblocks st q" "q \<noteq> p \<or> fst blk \<in> B"
  shows "same_on {blk} (st_mem st) m"
proof (cases "q = p")
  case True
  then have "snd blk = ucast (pg_block_size x)" "fst blk \<in> B" using q x by (auto simp: pblocks_def)
  then show ?thesis using m by (auto simp: same_on_def region_set_def page_frame_def)
next
  case False
  obtain y where y: "get_page q st = Some y" using q(2) by (auto simp: pblocks_def)
  have "\<forall>a. \<not> in_region (pg_area x) PAGE_SIZE a \<longrightarrow> m a = st_mem st a" using m by (simp add: page_frame_def)
  then have "same_area (pg_area y) (st_mem st) m" using page_step_others(3) [OF c p x _ q(1) False] y by blast
  then show ?thesis using pblocks_area [OF y q(2)] by (auto simp: same_on_def same_area_def)
qed

lemma same_on_each: "(\<And>c. c \<in> B \<Longrightarrow> same_on {c} m m') \<Longrightarrow> same_on B m m'"
  by (simp add: same_on_def)

lemma page_ok_links [simp]:
  "page_ok m (x\<lparr>pg_next := v\<rparr>) fl tf = page_ok m x fl tf" "page_live (x\<lparr>pg_next := v\<rparr>) fl tf = page_live x fl tf"
  "page_ok m (x\<lparr>pg_prev := v\<rparr>) fl tf = page_ok m x fl tf" "page_live (x\<lparr>pg_prev := v\<rparr>) fl tf = page_live x fl tf"
  "page_ok m (x\<lparr>pg_owner := w\<rparr>) fl tf = page_ok m x fl tf" "page_live (x\<lparr>pg_owner := w\<rparr>) fl tf = page_live x fl tf"
proof -
  have "block_addr (x\<lparr>pg_next := v\<rparr>) = block_addr x" "block_addr (x\<lparr>pg_prev := v\<rparr>) = block_addr x"
    "block_addr (x\<lparr>pg_owner := w\<rparr>) = block_addr x"
    by (simp_all add: block_addr_def fun_eq_iff)
  then show "page_ok m (x\<lparr>pg_next := v\<rparr>) fl tf = page_ok m x fl tf" "page_live (x\<lparr>pg_next := v\<rparr>) fl tf = page_live x fl tf"
    "page_ok m (x\<lparr>pg_prev := v\<rparr>) fl tf = page_ok m x fl tf" "page_live (x\<lparr>pg_prev := v\<rparr>) fl tf = page_live x fl tf"
    "page_ok m (x\<lparr>pg_owner := w\<rparr>) fl tf = page_ok m x fl tf" "page_live (x\<lparr>pg_owner := w\<rparr>) fl tf = page_live x fl tf"
    by (simp_all add: page_ok_def page_live_def page_geometry_def page_blocks_def)
qed

text \<open>What the list a page is on and its owner do not change.\<close>

definition page_body :: "Page \<Rightarrow> Page" where
  "page_body x = x\<lparr>pg_next := NullPage, pg_prev := NullPage, pg_owner := NullHeap\<rparr>"

lemma page_body_ok: "page_ok m (page_body x) fl tf = page_ok m x fl tf" "page_live (page_body x) fl tf = page_live x fl tf"
  "pg_block_size (page_body x) = pg_block_size x"
  by (simp_all add: page_body_def)

lemma pblocks_body:
  assumes "map_option page_body (get_page q st') = map_option page_body (get_page q st)" "st_mem st' = st_mem st"
  shows "pblocks st' q = pblocks st q" "page_good st' q = page_good st q"
proof -
  have "pblocks st' q = pblocks st q \<and> page_good st' q = page_good st q"
  proof (cases "get_page q st")
    case None
    then show ?thesis using assms(1) by (simp add: pblocks_def page_good_def)
  next
    case (Some x)
    then obtain x' where x': "get_page q st' = Some x'" "page_body x' = page_body x" using assms(1) by auto
    have "page_ok m x' = page_ok m x" "page_live x' = page_live x" "pg_block_size x' = pg_block_size x" for m
      using page_body_ok [where x = x', unfolded x'(2)] page_body_ok [where x = x] by (simp_all add: fun_eq_iff)
    then show ?thesis unfolding pblocks_def page_good_def Some x'(1) assms(2) by simp
  qed
  then show "pblocks st' q = pblocks st q" "page_good st' q = page_good st q" by simp_all
qed

section \<open>Sweeping the abandoned pages\<close>

definition aband_blocks :: "State \<Rightarrow> cghost \<Rightarrow> (addr \<times> u64) set" where
  "aband_blocks st g = (\<Union>p \<in> set (cg_aband g). pblocks st p)"

text \<open>What the operations keep: the pages \<open>P\<close> with all their bytes and the regions \<open>R\<close>; that the
  registry has room and is exact; the live blocks of the abandoned pages.\<close>

definition keeps :: "(addr \<times> u64) set \<Rightarrow> page_ptr set \<Rightarrow> State \<Rightarrow> State \<Rightarrow> bool" where
  "keeps R P st st' \<longleftrightarrow> outer_frame st st' \<and> same_on R (st_mem st) (st_mem st') \<and>
     (\<forall>p \<in> P. get_page p st' = get_page p st \<and>
        (\<forall>x. get_page p st = Some x \<longrightarrow> same_area (pg_area x) (st_mem st) (st_mem st')))"

definition reg_frame :: "State \<Rightarrow> State \<Rightarrow> bool" where
  "reg_frame st st' \<longleftrightarrow> (reg_exact st \<longrightarrow> reg_exact st') \<and>
     (roomy (st_registry st) \<longrightarrow> roomy (st_registry st')) \<and> (slack (st_registry st) \<longrightarrow> slack (st_registry st')) \<and>
     no_new_map st st'"

text \<open>What a registration keeps.\<close>

definition registry_step :: "State \<Rightarrow> State \<Rightarrow> bool" where
  "registry_step st st' \<longleftrightarrow> (rg_slots (st_registry st') \<noteq> None \<longrightarrow> reg_exact st \<longrightarrow> reg_exact st') \<and>
     (slack (st_registry st) \<longrightarrow> roomy (st_registry st'))"

lemma reg_frame_step: "reg_frame st st' \<Longrightarrow> registry_step st st'"
  by (auto simp: reg_frame_def registry_step_def slack_roomy)

lemma reg_frame_step_trans: "reg_frame st st1 \<Longrightarrow> registry_step st1 st2 \<Longrightarrow> registry_step st st2"
  by (simp add: reg_frame_def registry_step_def)

definition page_owner :: "State \<Rightarrow> page_ptr \<Rightarrow> heap_ptr option" where
  "page_owner st p = map_option pg_owner (get_page p st)"

definition aband_frame :: "State \<Rightarrow> cghost \<Rightarrow> State \<Rightarrow> cghost \<Rightarrow> bool" where
  "aband_frame st g st' g' \<longleftrightarrow>
     (\<forall>p \<in> set (cg_aband g'). p \<in> set (cg_aband g) \<and> pblocks st' p = pblocks st p \<and> page_owner st' p = page_owner st p) \<and>
     aband_blocks st' g' = aband_blocks st g \<and> same_on (aband_blocks st g) (st_mem st) (st_mem st')"

definition sweep_frame :: "(addr \<times> u64) set \<Rightarrow> State \<Rightarrow> cghost \<Rightarrow> State \<Rightarrow> cghost \<Rightarrow> bool" where
  "sweep_frame R st g st' g' \<longleftrightarrow> keeps R (cg_out g) st st' \<and> reg_frame st st' \<and> cg_out g' = cg_out g \<and>
     aband_frame st g st' g'"

lemmas sweep_frame_defs = sweep_frame_def keeps_def reg_frame_def aband_frame_def

lemma same_area_trans: "same_area a m m1 \<Longrightarrow> same_area a m1 m2 \<Longrightarrow> same_area a m m2"
  by (simp add: same_area_def)

lemma sweep_frame_refl: "sweep_frame R st g st g"
  by (simp add: sweep_frame_defs same_area_def)

lemma keeps_trans:
  assumes "keeps R P st st1" "keeps R P st1 st2"
  shows "keeps R P st st2"
proof -
  note u = assms [unfolded keeps_def]
  have "outer_frame st st2" by (rule outer_frame_trans [of st st1]) (use u in blast)+
  moreover have "same_on R (st_mem st) (st_mem st2)" by (rule same_on_trans [of _ _ "st_mem st1"]) (use u in blast)+
  moreover have "get_page p st2 = get_page p st \<and>
      (\<forall>x. get_page p st = Some x \<longrightarrow> same_area (pg_area x) (st_mem st) (st_mem st2))" if p: "p \<in> P" for p
  proof -
    have 1: "get_page p st1 = get_page p st" "\<forall>x. get_page p st = Some x \<longrightarrow> same_area (pg_area x) (st_mem st) (st_mem st1)"
      using u(1) p by blast+
    have 2: "get_page p st2 = get_page p st1" "\<forall>x. get_page p st1 = Some x \<longrightarrow> same_area (pg_area x) (st_mem st1) (st_mem st2)"
      using u(2) p by blast+
    show ?thesis using 1 2 same_area_trans [of _ "st_mem st" "st_mem st1" "st_mem st2"] by simp
  qed
  ultimately show ?thesis unfolding keeps_def by blast
qed

lemma keeps_mono: "keeps R P st st' \<Longrightarrow> R' \<subseteq> R \<Longrightarrow> P' \<subseteq> P \<Longrightarrow> keeps R' P' st st'"
  unfolding keeps_def same_on_def by blast

lemma aband_frame_trans:
  assumes "aband_frame st g st1 g1" "aband_frame st1 g1 st2 g2"
  shows "aband_frame st g st2 g2"
proof -
  note u = assms [unfolded aband_frame_def]
  have e: "aband_blocks st1 g1 = aband_blocks st g" using u(1) by blast
  have "p \<in> set (cg_aband g) \<and> pblocks st2 p = pblocks st p \<and> page_owner st2 p = page_owner st p" if p: "p \<in> set (cg_aband g2)" for p
  proof -
    have "p \<in> set (cg_aband g1)" "pblocks st2 p = pblocks st1 p" "page_owner st2 p = page_owner st1 p" using u(2) p by blast+
    moreover from this have "p \<in> set (cg_aband g)" "pblocks st1 p = pblocks st p" "page_owner st1 p = page_owner st p" using u(1) by blast+
    ultimately show ?thesis by simp
  qed
  moreover have "aband_blocks st2 g2 = aband_blocks st g" using u(2) e by blast
  moreover have "same_on (aband_blocks st g) (st_mem st) (st_mem st1)" using u(1) by blast
  moreover have "same_on (aband_blocks st1 g1) (st_mem st1) (st_mem st2)" using u(2) by blast
  ultimately show ?thesis unfolding aband_frame_def e using same_on_trans by blast
qed

lemma reg_frame_trans: "reg_frame st st1 \<Longrightarrow> reg_frame st1 st2 \<Longrightarrow> reg_frame st st2"
  unfolding reg_frame_def using no_new_map_trans by blast

lemma sweep_frame_trans:
  assumes "sweep_frame R st g st1 g1" "sweep_frame R st1 g1 st2 g2"
  shows "sweep_frame R st g st2 g2"
proof -
  have e: "cg_out g1 = cg_out g" using assms(1) by (simp add: sweep_frame_def)
  show ?thesis using assms keeps_trans [of R "cg_out g" st st1 st2] reg_frame_trans [of st st1 st2]
      aband_frame_trans [of st g st1 g1 st2 g2] unfolding sweep_frame_def e by blast
qed

lemma pool_frame_sweep:
  assumes "pool_frame st g st' g'"
  shows "sweep_frame R st g st' g'"
proof -
  have "aband_blocks st' g' = aband_blocks st g"
    using assms pool_frame_pages(1) [OF assms] by (simp add: aband_blocks_def pool_frame_def)
  then show ?thesis using assms pool_frame_pages(1) [OF assms]
    by (simp add: pool_frame_def sweep_frame_defs same_area_def page_owner_def)
qed

text \<open>The pointer to the link before the rest of the list.\<close>

definition link_of :: "page_ptr list \<Rightarrow> page_ptr option" where
  "link_of xs = (if xs = [] then None else Some (last xs))"

lemma sweep_link_at:
  assumes "central_core st g L" "cg_aband g = xs @ ys"
  shows "sweep_link (link_of xs) st = Some (case ys of [] \<Rightarrow> NullPage | y # _ \<Rightarrow> y)"
proof -
  have l: "linked NullPage (pg_nx st) (cs_abandoned (st_central st)) (xs @ ys) NullPage"
    using assms by (simp add: central_core_def)
  show ?thesis
  proof (cases xs rule: rev_cases)
    case Nil
    then show ?thesis using l by (cases ys) (auto simp: sweep_link_def link_of_def)
  next
    case (snoc zs q)
    then have "q \<in> pooled g \<union> set (cg_aband g) \<union> cg_out g \<union> L" using assms(2) by simp
    then obtain x where x: "get_page q st = Some x" by (rule page_core [OF assms(1)])
    then have "pg_nx st q = pg_next x" by (simp add: pg_nx_def)
    then show ?thesis using l snoc x by (cases ys) (auto simp: sweep_link_def link_of_def)
  qed
qed

lemma sweep_unlink:
  assumes c: "central_core st g {}" and ab: "cg_aband g = xs @ y # ys" and y: "get_page y st = Some p"
  obtains st' where "sweep_set_link (link_of xs) (pg_next p) st = Some st'"
    "central_core st' (g\<lparr>cg_aband := xs @ ys\<rparr>) {y}" "avail_list st' (cg_avail g) = avail_list st (cg_avail g)"
    "world_ok K R st' S = world_ok K R st S" "\<exists>v. st_central st' = (st_central st)\<lparr>cs_abandoned := v\<rparr>"
    "outer_frame st st'" "reg_exact st' = reg_exact st" "st_os st' = st_os st" "st_registry st' = st_registry st"
    "\<forall>q. map_option page_body (get_page q st') = map_option page_body (get_page q st)"
    "\<forall>q \<in> cg_out g. get_page q st' = get_page q st" "\<forall>q. page_owner st' q = page_owner st q"
proof -
  have l: "linked NullPage (pg_nx st) (cs_abandoned (st_central st)) (xs @ y # ys) NullPage" and pa: "parts g {}"
    using c ab by (simp_all add: central_core_def)
  have d: "distinct (xs @ y # ys)" by (rule linked_distinct [OF l])
  have ny: "pg_nx st y = pg_next p" using y by (simp add: pg_nx_def)
  have pa': "parts (g\<lparr>cg_aband := xs @ ys\<rparr>) {y}" using pa ab d by (auto simp: parts_def pooled_def)
  show thesis
  proof (cases xs rule: rev_cases)
    case Nil
    let ?st = "upd_central (\<lambda>g. g\<lparr>cs_abandoned := pg_next p\<rparr>) st"
    have "central_core ?st (g\<lparr>cg_aband := xs @ ys\<rparr>) {y}"
      by (rule core_change [OF c]) (use pa' l ny Nil in simp_all)
    then show thesis using that [of ?st] Nil by (auto simp: sweep_set_link_def link_of_def avail_list_def page_owner_def)
  next
    case (snoc zs q)
    then have "q \<in> pooled g \<union> set (cg_aband g) \<union> cg_out g \<union> {}" using ab by simp
    then obtain x a j where x: "get_page q st = Some x" "q = PageAt a j" by (rule page_core [OF c])
    let ?st = "set_page q (x\<lparr>pg_next := pg_next p\<rparr>) st"
    have nx: "pg_nx ?st = (pg_nx st)(q := pg_next p)" by (simp add: pg_nx_def fun_eq_iff)
    have nq: "q \<notin> pooled g" "q \<notin> cg_out g" using pa ab snoc by (auto simp: parts_def)
    have "central_core ?st (g\<lparr>cg_aband := xs @ ys\<rparr>) {y}"
    proof (rule core_change [OF c])
      show "linked NullPage (pg_nx ?st) (cs_abandoned (st_central ?st)) (cg_aband (g\<lparr>cg_aband := xs @ ys\<rparr>)) NullPage"
        using l d snoc ny by (auto simp: nx)
      show "pg_nx ?st r = pg_nx st r" if "r \<in> pooled g" for r using that nq nx by auto
    qed (use pa' x in simp_all)
    moreover have "avail_list ?st avl = avail_list st avl" for avl by (simp add: avail_list_def)
    moreover have "\<exists>v. st_central ?st = (st_central st)\<lparr>cs_abandoned := v\<rparr>"
      by (rule exI [of _ "cs_abandoned (st_central st)"]) simp
    moreover have "sweep_set_link (link_of xs) (pg_next p) st = Some ?st"
      using snoc x by (simp add: sweep_set_link_def link_of_def upd_page_def)
    moreover have "get_page r ?st = get_page r st" if "r \<in> cg_out g" for r using that nq by auto
    ultimately show thesis using that [of ?st] x by (simp add: outer_frame_def page_body_def page_owner_def)
  qed
qed

text \<open>Collecting a page of the list.\<close>

lemma collect_locked_page: "collect_locked = page_collect"
  by (simp add: fun_eq_iff collect_locked_def page_collect_def)

lemma sweep_collect:
  assumes b: "base_inv K R st g L" and y: "y \<in> set (cg_aband g)"
  obtains st' p where "on_page collect_locked y st = Some st'" "get_page y st' = Some p" "base_inv K R st' g L"
    "sweep_frame R st g st' g" "pg_used p = 0 \<longleftrightarrow> pblocks st' y = {}"
proof -
  note f = base_inv_facts [OF b]
  obtain x fl tf where x: "get_page y st = Some x" and ok: "page_ok (st_mem st) x fl tf"
    using f(6) y by (auto simp: page_good_def)
  obtain x' m where c: "page_collect x (st_mem st) = Some (x', m)" and ok': "page_ok m x' (tf @ fl) []"
    and lv: "page_live x' (tf @ fl) [] = page_live x fl tf" and fr: "page_frame x (page_live x fl tf) (st_mem st) m"
    and sc: "page_static x' = page_static x" by (rule collect_ok [OF ok])
  let ?st = "page_step y x' m st"
  note sf = page_static_fields [OF sc]
  have ys: "y \<in> seg_pages (set (cg_segs g))" using y seg_pages_parts [OF f(1)] by auto
  have m: "\<forall>a. \<not> in_region (pg_area x) PAGE_SIZE a \<longrightarrow> m a = st_mem st a" using fr by (simp add: page_frame_def)
  have good: "page_good ?st y" using ok' by (auto simp: page_good_def)
  have base: "base_inv K R ?st g L" "same_on (R \<union> reg_region K (st_registry st)) (st_mem st) m"
    by (rule page_step_base [OF b _ x sf(1) _ m]; use y sf(7) good in simp)+
  have blk: "pblocks ?st y = pblocks st y"
    using pblocks_eq [of y ?st x', simplified, OF ok'] pblocks_eq [OF x ok] lv sf(2) by simp
  have others: "pblocks ?st q = pblocks st q" if "q \<in> set (cg_aband g)" for q
    using page_step_others(1) [OF f(1) ys x m, of q x'] that seg_pages_parts [OF f(1)] blk by (cases "q = y") auto
  then have ab: "aband_blocks ?st g = aband_blocks st g" by (simp add: aband_blocks_def)
  have same: "same_on (aband_blocks st g) (st_mem st) m"
  proof (rule same_on_each)
    fix c assume "c \<in> aband_blocks st g"
    then obtain q where q: "q \<in> set (cg_aband g)" "c \<in> pblocks st q" by (auto simp: aband_blocks_def)
    then have "q \<in> seg_pages (set (cg_segs g))" using seg_pages_parts [OF f(1)] by auto
    moreover have "q \<noteq> y \<or> fst c \<in> page_live x fl tf" using q(2) pblocks_eq [OF x ok] by auto
    ultimately show "same_on {c} (st_mem st) m" by (rule page_step_bytes [OF f(1) ys x fr _ q(2)])
  qed
  have "same_area (pg_area z) (st_mem st) m \<and> q \<noteq> y" if "q \<in> cg_out g" "get_page q st = Some z" for q z
  proof -
    have "q \<in> seg_pages (set (cg_segs g))" "q \<noteq> y" using that y f(1) seg_pages_parts [OF f(1)] by (auto simp: central_core_def parts_def)
    then show ?thesis using page_step_others(3) [OF f(1) ys x m, of q z] that by simp
  qed
  moreover have "y \<notin> cg_out g" using y f(1) by (auto simp: central_core_def parts_def)
  moreover have "y \<noteq> EmptyPage" using ys by (auto simp: seg_pages_def)
  ultimately have "sweep_frame R st g ?st g"
    using base(2) ab same others x sf
    by (auto simp: sweep_frame_defs page_step_outer same_on_def page_owner_def)
  moreover have "on_page collect_locked y st = Some ?st"
    using x c by (simp add: on_page_def collect_locked_page page_step_def)
  moreover have "pg_used x' = 0 \<longleftrightarrow> pblocks ?st y = {}"
  proof -
    have "card (page_live x' (tf @ fl) []) = unat (pg_used x')" "finite (page_live x' (tf @ fl) [])"
      using page_ok_count(2) [OF ok'] by (simp_all add: page_live_def page_blocks_def)
    then have "pg_used x' = 0 \<longleftrightarrow> page_live x' (tf @ fl) [] = {}" by (metis card_eq_0_iff unat_eq_0)
    then show ?thesis using pblocks_eq [of y ?st x', simplified, OF ok'] by simp
  qed
  ultimately show thesis using that [of ?st x'] base(1) by simp
qed

text \<open>One turn of the loop for a page without live blocks.\<close>

lemma sweep_reclaim:
  assumes b: "base_inv K R st g {}" and r: "roomy (st_registry st)" and c: "cache_ok g"
    and ab: "cg_aband g = xs @ y # ys" and y: "get_page y st = Some p" "pblocks st y = {}"
  obtains st1 st' g' where "sweep_set_link (link_of xs) (pg_next p) st = Some st1"
    "pool_return K y (upd_central (\<lambda>g. g\<lparr>cs_abandoned_count := cs_abandoned_count g - 1\<rparr>) st1) = Some st'"
    "base_inv K R st' g' {}" "cache_ok g'" "sweep_frame R st g st' g'" "cg_aband g' = xs @ ys"
proof -
  note f = base_inv_facts [OF b]
  let ?g = "g\<lparr>cg_aband := xs @ ys\<rparr>"
  obtain st1 where 1: "sweep_set_link (link_of xs) (pg_next p) st = Some st1"
    "central_core st1 ?g {y}" "avail_list st1 (cg_avail g) = avail_list st (cg_avail g)"
    "world_ok K R st1 (set (cg_segs g)) = world_ok K R st (set (cg_segs g))" "\<exists>v. st_central st1 = (st_central st)\<lparr>cs_abandoned := v\<rparr>"
    "outer_frame st st1" "reg_exact st1 = reg_exact st" "st_os st1 = st_os st" "st_registry st1 = st_registry st"
    "\<forall>q. map_option page_body (get_page q st1) = map_option page_body (get_page q st)"
    "\<forall>q \<in> cg_out g. get_page q st1 = get_page q st" "\<forall>q. page_owner st1 q = page_owner st q"
    by (rule sweep_unlink [OF f(1) ab y(1), where K = K and R = R and S = "set (cg_segs g)"])
  let ?st = "upd_central (\<lambda>g. g\<lparr>cs_abandoned_count := cs_abandoned_count g - 1\<rparr>) st1"
  have pb: "pblocks ?st q = pblocks st q" "page_good ?st q = page_good st q" for q
    using pblocks_body [OF 1(10) [rule_format], of q] 1(8) by simp_all
  have e: "free_pages ?g = free_pages g" "full_segs ?g = full_segs g" by (simp_all add: free_pages_def full_segs_def)
  have "central_counts (st_central ?st) ?g (card (full_segs g))"
  proof -
    have "unat (cs_abandoned_count (st_central st)) = Suc (length (xs @ ys))" using f(4) ab by (simp add: central_counts_def)
    then have "unat (cs_abandoned_count (st_central st) - 1) = length (xs @ ys)" by (simp add: unat_sub word_le_nat_alt)
    then show ?thesis using f(4) 1(5) by (auto simp: central_counts_def e)
  qed
  moreover have "central_core ?st ?g {y}" using 1(2) by (simp add: central_core_def)
  moreover have "avail_list ?st (cg_avail g)" using 1(3) f(2) by (simp add: avail_list_def)
  moreover have "world_ok K R ?st (set (cg_segs g))" using 1(4) f(5) by simp
  moreover have "\<forall>p \<in> set (xs @ ys). page_good ?st p" using f(6) ab unfolding pb by simp
  ultimately have b2: "base_inv K R ?st ?g {y}" using f(3) by (simp add: base_inv_def central_lists_def e)
  have "aband_blocks ?st ?g = aband_blocks st g" using ab y(2) unfolding aband_blocks_def pb by simp
  moreover have "page_owner ?st q = page_owner st q" for q
    using 1(12) by (simp add: page_owner_def)
  ultimately have s2: "sweep_frame R st g ?st ?g"
    using 1(6-9,11) ab unfolding sweep_frame_defs pb by (simp add: same_area_def)
  have "roomy (st_registry ?st)" "cache_ok ?g" using r c 1(9) e by (simp_all add: cache_ok_def)
  then obtain st' g' where "pool_return K y ?st = Some st'" "base_inv K R st' g' {}" "cache_ok g'" "pool_frame ?st ?g st' g'"
    using pool_return_ok [OF b2] by blast
  moreover from this have "cg_aband g' = xs @ ys" by (simp add: pool_frame_def)
  ultimately show thesis using that [OF 1(1), of st' g'] sweep_frame_trans [OF s2 pool_frame_sweep] by blast
qed

lemma sweep_loop_ok:
  assumes "base_inv K R st g {}" "roomy (st_registry st)" "cache_ok g" "cg_aband g = xs @ ys"
  shows "\<exists>st' g'. sweep_loop K (link_of xs) st = Some st' \<and> base_inv K R st' g' {} \<and> cache_ok g' \<and> sweep_frame R st g st' g' \<and>
    cg_aband g' = xs @ filter (\<lambda>p. pblocks st p \<noteq> {}) ys"
  using assms
proof (induction ys arbitrary: st g xs)
  case Nil
  have "sweep_loop K (link_of xs) st = Some st"
    using sweep_link_at [OF base_inv_facts(1) [OF Nil(1)] Nil(4)] by (subst sweep_loop.simps) simp
  then show ?case using Nil sweep_frame_refl by auto
next
  case (Cons y ys)
  note b = Cons.prems(1) and ab = Cons.prems(4)
  have yn: "y \<noteq> NullPage" "y \<in> set (cg_aband g)" using base_inv_facts(1) [OF b] linked_nonnul ab by (fastforce simp: central_core_def)+
  obtain st1 p where 1: "on_page collect_locked y st = Some st1" "get_page y st1 = Some p" "base_inv K R st1 g {}"
    "sweep_frame R st g st1 g" "pg_used p = 0 \<longleftrightarrow> pblocks st1 y = {}" by (rule sweep_collect [OF b yn(2)])
  have l: "sweep_link (link_of xs) st = Some y" using sweep_link_at [OF base_inv_facts(1) [OF b] ab] by simp
  have r1: "roomy (st_registry st1)" using 1(4) Cons.prems(2) by (simp add: sweep_frame_defs)
  have pb: "pblocks st1 q = pblocks st q" if "q \<in> set (cg_aband g)" for q using 1(4) that by (simp add: sweep_frame_defs)
  show ?case
  proof (cases "pg_used p = 0")
    case True
    then have y0: "pblocks st1 y = {}" using 1(5) by simp
    obtain st2 st3 g3 where 3: "sweep_set_link (link_of xs) (pg_next p) st1 = Some st2"
      "pool_return K y (upd_central (\<lambda>g. g\<lparr>cs_abandoned_count := cs_abandoned_count g - 1\<rparr>) st2) = Some st3"
      "base_inv K R st3 g3 {}" "cache_ok g3" "sweep_frame R st1 g st3 g3" "cg_aband g3 = xs @ ys"
      by (rule sweep_reclaim [OF 1(3) r1 Cons.prems(3) ab 1(2) y0])
    have "sweep_loop K (link_of xs) st = sweep_loop K (link_of xs) st3"
      using l yn 1(1,2) 3(1,2) True by (subst sweep_loop.simps) simp
    moreover have r3: "roomy (st_registry st3)" using r1 3(5) by (simp add: sweep_frame_defs)
    obtain st' g' where "sweep_loop K (link_of xs) st3 = Some st'" "base_inv K R st' g' {}" "cache_ok g'" "sweep_frame R st3 g3 st' g'"
      "cg_aband g' = xs @ filter (\<lambda>p. pblocks st3 p \<noteq> {}) ys" using Cons.IH [OF 3(3) r3 3(4,6)] by blast
    moreover have "filter (\<lambda>p. pblocks st3 p \<noteq> {}) ys = filter (\<lambda>p. pblocks st p \<noteq> {}) (y # ys)"
      using 3(5,6) pb y0 yn ab by (auto simp: sweep_frame_defs intro!: filter_cong)
    ultimately show ?thesis
      using sweep_frame_trans [OF sweep_frame_trans [OF 1(4) 3(5)], of st' g'] by (intro exI [of _ st'] exI [of _ g']) simp
  next
    case False
    have "link_of (xs @ [y]) = Some y" by (simp add: link_of_def)
    then have "sweep_loop K (link_of xs) st = sweep_loop K (link_of (xs @ [y])) st1"
      using l yn 1(1,2) False by (subst sweep_loop.simps) simp
    moreover have "filter (\<lambda>p. pblocks st1 p \<noteq> {}) ys = filter (\<lambda>p. pblocks st p \<noteq> {}) ys" "pblocks st y \<noteq> {}"
      using pb ab 1(5) False yn(2) by (auto intro!: filter_cong)
    moreover have "cg_aband g = (xs @ [y]) @ ys" using ab by simp
    then obtain st' g' where "sweep_loop K (link_of (xs @ [y])) st1 = Some st'" "base_inv K R st' g' {}" "cache_ok g'"
      "sweep_frame R st1 g st' g'" "cg_aband g' = (xs @ [y]) @ filter (\<lambda>p. pblocks st1 p \<noteq> {}) ys"
      using Cons.IH [OF 1(3) r1 Cons.prems(3)] by blast
    ultimately show ?thesis using sweep_frame_trans [OF 1(4), of st' g'] by (intro exI [of _ st'] exI [of _ g']) simp
  qed
qed

end
