(* ===== verification/Central_Correct.thy ===== *)
theory Central_Correct
  imports Central_Inv
begin

text \<open>
  The entry points of the central heap (src/src/central.cpp): mapping a segment, acquiring,
  releasing and abandoning a page. Each returns, keeps the invariant and the cache bound, and
  leaves the pages of the heaps, the live blocks and all other regions alone.
\<close>

section \<open>Mapping a segment\<close>

text \<open>The loop over the usable pages pushes them in turn on the free list.\<close>

lemma init_pages_ok:
  assumes "get_seg s st = Some x" "linked NullPage (pg_nx st) (sg_free_list x) (map (PageAt s) acc) NullPage"
    "unat (sg_free_count x) = length acc" "distinct (acc @ is)" "length acc + length is < 2 ^ 32"
    "\<forall>i \<in> set is. get_page (PageAt s i) st \<noteq> None"
    "\<forall>i \<in> set acc. page_area_ok st s i"
  shows "\<exists>st' x'. init_pages s is st = Some st' \<and>
    st'\<lparr>st_pages := st_pages st, st_regions := st_regions st\<rparr> = st \<and>
    st_regions st' = (st_regions st)(s \<mapsto> SegmentRegion x') \<and>
    (\<forall>q. (\<forall>i \<in> set is. q \<noteq> PageAt s i) \<longrightarrow> get_page q st' = get_page q st) \<and>
    x'\<lparr>sg_free_list := sg_free_list x, sg_free_count := sg_free_count x\<rparr> = x \<and>
    unat (sg_free_count x') = length (rev is @ acc) \<and>
    linked NullPage (pg_nx st') (sg_free_list x') (map (PageAt s) (rev is @ acc)) NullPage \<and>
    (\<forall>i \<in> set (rev is @ acc). page_area_ok st' s i)"
  using assms
proof (induction "is" arbitrary: st x acc)
  case Nil
  have "(st_regions st)(s \<mapsto> SegmentRegion x) = st_regions st"
    using get_seg_region [OF Nil(1)] by (simp add: fun_upd_idem)
  then show ?case using Nil by (intro exI [of _ st] exI [of _ x]) simp
next
  case (Cons i "is")
  obtain p where p: "get_page (PageAt s i) st = Some p" using Cons.prems(6) by auto
  let ?p = "p\<lparr>pg_area := s + of_nat i * PAGE_SIZE, pg_in_use := False, pg_next := sg_free_list x\<rparr>"
  let ?x = "x\<lparr>sg_free_list := PageAt s i, sg_free_count := sg_free_count x + 1\<rparr>"
  let ?st = "set_seg s ?x (set_page (PageAt s i) ?p st)"
  have e: "init_pages s (i # is) st = init_pages s is ?st"
    using p Cons.prems(1) by (simp add: upd_page_def upd_seg_def)
  have nx: "pg_nx ?st = (pg_nx st)(PageAt s i := sg_free_list x)" by (auto simp: pg_nx_def fun_eq_iff)
  have "PageAt s i \<notin> set (map (PageAt s) acc)" using Cons.prems(4) by auto
  then have l: "linked NullPage (pg_nx ?st) (sg_free_list ?x) (map (PageAt s) (i # acc)) NullPage"
    using Cons.prems(2) unfolding nx by simp
  have n: "unat (sg_free_count ?x) = length (i # acc)"
    using Cons.prems(3,5) by (simp add: unat_word_ariths)
  have ar: "\<forall>j \<in> set (i # acc). page_area_ok ?st s j" using Cons.prems(7) by (auto simp: page_area_ok_def)
  have pg: "\<forall>j \<in> set is. get_page (PageAt s j) ?st \<noteq> None" using Cons.prems(6) by simp
  have sg: "get_seg s ?st = Some ?x" by simp
  have ds: "distinct ((i # acc) @ is)" "length (i # acc) + length is < 2 ^ 32" using Cons.prems(4,5) by auto
  obtain st' x' where *: "init_pages s is ?st = Some st'" "st'\<lparr>st_pages := st_pages ?st, st_regions := st_regions ?st\<rparr> = ?st"
    "st_regions st' = (st_regions ?st)(s \<mapsto> SegmentRegion x')"
    "\<forall>q. (\<forall>i \<in> set is. q \<noteq> PageAt s i) \<longrightarrow> get_page q st' = get_page q ?st"
    "x'\<lparr>sg_free_list := sg_free_list ?x, sg_free_count := sg_free_count ?x\<rparr> = ?x"
    "unat (sg_free_count x') = length (rev is @ i # acc)"
    "linked NullPage (pg_nx st') (sg_free_list x') (map (PageAt s) (rev is @ i # acc)) NullPage"
    "\<forall>i \<in> set (rev is @ i # acc). page_area_ok st' s i"
    using Cons.IH [OF sg l n ds pg ar] by blast
  have "st'\<lparr>st_pages := st_pages st, st_regions := st_regions st\<rparr> =
      (st'\<lparr>st_pages := st_pages ?st, st_regions := st_regions ?st\<rparr>)\<lparr>st_pages := st_pages st, st_regions := st_regions st\<rparr>" by simp
  also have "\<dots> = st" unfolding *(2) by (simp add: set_seg_def set_page_def)
  finally have 1: "st'\<lparr>st_pages := st_pages st, st_regions := st_regions st\<rparr> = st" .
  have "x'\<lparr>sg_free_list := sg_free_list x, sg_free_count := sg_free_count x\<rparr> =
      (x'\<lparr>sg_free_list := sg_free_list ?x, sg_free_count := sg_free_count ?x\<rparr>)\<lparr>sg_free_list := sg_free_list x, sg_free_count := sg_free_count x\<rparr>" by simp
  also have "\<dots> = x" unfolding *(5) by simp
  finally have 2: "x'\<lparr>sg_free_list := sg_free_list x, sg_free_count := sg_free_count x\<rparr> = x" .
  have 3: "st_regions st' = (st_regions st)(s \<mapsto> SegmentRegion x')" using *(3) by (simp add: set_seg_def)
  show ?case using e *(1,4,6-8) 1 2 3 by (intro exI [of _ st'] exI [of _ x']) simp
qed

definition usable_pages :: "nat list" where
  "usable_pages = [unat FIRST_USABLE_PAGE..<unat PAGES_PER_SEGMENT]"

lemma usable_pages: "set usable_pages = {1..<64}" "distinct usable_pages" "length usable_pages = 63"
proof -
  have "unat FIRST_USABLE_PAGE = 1" "unat PAGES_PER_SEGMENT = 64" by simp_all
  then have e: "usable_pages = [1..<64]" by (simp only: usable_pages_def)
  show "set usable_pages = {1..<64}" "distinct usable_pages" "length usable_pages = 63"
    unfolding e by (simp_all only: set_upt distinct_upt length_upt)
qed

lemma new_segment_simps [simp]:
  "get_seg t (new_segment s st) = (if t = s then Some (zero_segment\<lparr>sg_kind := Small, sg_page_count := ucast PAGES_PER_SEGMENT,
     sg_mmap_size := SEGMENT_SIZE, sg_free_list := NullPage, sg_free_count := 0\<rparr>) else get_seg t st)"
  "get_page (PageAt a i) (new_segment s st) = (if a = s \<and> i < 64 then Some zero_page else get_page (PageAt a i) st)"
  "get_page EmptyPage (new_segment s st) = get_page EmptyPage st"
  "st_central (new_segment s st) = st_central st" "st_registry (new_segment s st) = st_registry st"
  "st_os (new_segment s st) = st_os st"
  "st_heaps (new_segment s st) = st_heaps st" "st_t_heap (new_segment s st) = st_t_heap st"
  "st_g_registry (new_segment s st) = st_g_registry st" "st_large_count (new_segment s st) = st_large_count st"
  "st_large_bytes (new_segment s st) = st_large_bytes st"
  by (auto simp add: new_segment_def get_seg_def get_page_def)

text \<open>The OS hands out a segment that overlaps nothing the allocator holds.\<close>

lemma fresh_segment:
  assumes b: "base_inv K R st g L" and e: "os_alloc_aligned K SEGMENT_SIZE SEGMENT_SIZE (st_os st) = (s, os)" "s \<noteq> 0"
  shows "segment_aligned s" "st_regions st s = None" "s \<notin> set (cg_segs g)" "(s, SEGMENT_SIZE) \<notin> R"
    "os_holds K os (seg_regions (insert s (set (cg_segs g))) \<union> R \<union> reg_region K (st_registry st))"
    "(s, SEGMENT_SIZE) \<notin> reg_region K (st_registry st)"
    "same_on (seg_regions (set (cg_segs g)) \<union> R) (st_mem st) (mem os)"
proof -
  let ?H = "seg_regions (set (cg_segs g)) \<union> R \<union> reg_region K (st_registry st)"
  have w: "world_ok K R st (set (cg_segs g))" by (rule base_inv_facts(5) [OF b])
  then have h: "os_holds K (st_os st) ?H" by (simp add: world_ok_def)
  note a = os_holds_alloc [OF h e]
  show "segment_aligned s" using a(2) by (simp add: segment_aligned_def)
  have n: "(s, k) \<notin> ?H" for k
  proof
    assume i: "(s, k) \<in> ?H"
    then have "s \<in> region_set (s, k)" using os_holds_region(2) [OF h] region_set_nonempty by blast
    then show False using a(4) [OF i, of s] region_set_nonempty [of SEGMENT_SIZE s] by simp
  qed
  then show "(s, SEGMENT_SIZE) \<notin> R" "(s, SEGMENT_SIZE) \<notin> reg_region K (st_registry st)" by blast+
  show ns: "s \<notin> set (cg_segs g)" using n [of SEGMENT_SIZE] by (auto simp: seg_regions_def)
  show "st_regions st s = None"
  proof (cases "st_regions st s")
    case (Some r)
    have "get_seg s st = None" using w ns by (auto simp: world_ok_def)
    then obtain h where "get_large s st = Some h"
      using Some by (cases r) (simp_all add: get_seg_def get_large_def)
    then have "(s, lh_mmap_size h) \<in> R" using w by (simp add: world_ok_def)
    then show ?thesis using n by blast
  qed
  have "insert (s, SEGMENT_SIZE) ?H = seg_regions (insert s (set (cg_segs g))) \<union> R \<union> reg_region K (st_registry st)"
    by (auto simp: seg_regions_def)
  then show "os_holds K os (seg_regions (insert s (set (cg_segs g))) \<union> R \<union> reg_region K (st_registry st))" using a(1) by simp
  show "same_on (seg_regions (set (cg_segs g)) \<union> R) (st_mem st) (mem os)" using a(4) unfolding same_on_def by blast
qed

definition seg_ghost :: "addr \<Rightarrow> cghost \<Rightarrow> cghost" where
  "seg_ghost s g = g\<lparr>cg_segs := s # cg_segs g, cg_avail := s # cg_avail g, cg_pool := (cg_pool g)(s := rev usable_pages)\<rparr>"

lemma seg_ghost_simps [simp]:
  "cg_segs (seg_ghost s g) = s # cg_segs g" "cg_avail (seg_ghost s g) = s # cg_avail g"
  "cg_pool (seg_ghost s g) = (cg_pool g)(s := rev usable_pages)" "cg_aband (seg_ghost s g) = cg_aband g"
  "cg_out (seg_ghost s g) = cg_out g"
  by (simp_all add: seg_ghost_def)

lemma seg_ghost_parts:
  assumes "parts g L" "s \<notin> set (cg_segs g)"
  shows "parts (seg_ghost s g) L"
proof -
  have u: "seg_pages (set (cg_segs (seg_ghost s g))) = seg_pages (set (cg_segs g)) \<union> seg_pages {s}"
    by (auto simp: seg_pages_def)
  have p: "pooled (seg_ghost s g) = pooled g \<union> seg_pages {s}"
    using assms(2) by (auto simp: pooled_def seg_pages_def usable_pages(1))
  have d: "seg_pages (set (cg_segs g)) \<inter> seg_pages {s} = {}" using assms(2) by (auto simp: seg_pages_def)
  show ?thesis using assms(1) d unfolding parts_def u p seg_ghost_simps(4,5) by blast
qed

lemma seg_ghost_counts:
  assumes "s \<notin> set (cg_segs g)"
  shows "free_pages (seg_ghost s g) = free_pages g + 63" "card (full_segs (seg_ghost s g)) = Suc (card (full_segs g))"
proof -
  have "(\<Sum>t \<in> set (cg_segs g). length (((cg_pool g)(s := rev usable_pages)) t)) = (\<Sum>t \<in> set (cg_segs g). length (cg_pool g t))"
    by (rule sum.cong) (use assms in auto)
  then show "free_pages (seg_ghost s g) = free_pages g + 63"
    using assms by (simp add: free_pages_def usable_pages(3))
  have "full_segs (seg_ghost s g) = insert s (full_segs g)" "s \<notin> full_segs g"
    using assms by (auto simp: full_segs_def usable_pages(3))
  then show "card (full_segs (seg_ghost s g)) = Suc (card (full_segs g))" by (simp add: full_segs_def)
qed

text \<open>The new segment in the list of all segments, its pages in its pool.\<close>

lemma seg_added_core:
  assumes c: "central_core st g L" "s \<notin> set (cg_segs g)" "segment_aligned s" "s \<noteq> 0"
    and y: "get_seg s st' = Some y" "sg_kind y = Small" "sg_mmap_size y = SEGMENT_SIZE" "unat (sg_free_count y) = 63"
      "sg_next y = cs_segments (st_central st)"
      "linked NullPage (pg_nx st') (sg_free_list y) (map (PageAt s) (rev usable_pages)) NullPage"
      "\<forall>i \<in> {1..<64}. page_area_ok st' s i"
    and st': "\<And>t. t \<noteq> s \<Longrightarrow> get_seg t st' = get_seg t st"
      "\<And>a i. a \<noteq> s \<Longrightarrow> get_page (PageAt a i) st' = get_page (PageAt a i) st"
      "cs_segments (st_central st') = s" "cs_abandoned (st_central st') = cs_abandoned (st_central st)"
  shows "central_core st' (seg_ghost s g) L"
proof -
  have ne: "t \<noteq> s" if "t \<in> set (cg_segs g)" for t using that c(2) by blast
  have nx: "pg_nx st' (PageAt a i) = pg_nx st (PageAt a i)" if "a \<noteq> s" for a i using st'(2) that by (simp add: pg_nx_def)
  have "linked 0 (seg_nx st') h (cg_segs g) 0 = linked 0 (seg_nx st) h (cg_segs g) 0" for h
    by (rule linked_cong) (use st'(1) ne in \<open>simp add: seg_nx_def\<close>)
  moreover have "seg_nx st' s = cs_segments (st_central st)" using y(1,5) by (simp add: seg_nx_def)
  ultimately have "linked 0 (seg_nx st') (cs_segments (st_central st')) (s # cg_segs g) 0"
    using c(1,4) st'(3) by (simp add: central_core_def)
  moreover have "linked NullPage (pg_nx st') h (cg_aband g) NullPage = linked NullPage (pg_nx st) h (cg_aband g) NullPage" for h
  proof (rule linked_cong)
    fix q assume "q \<in> set (cg_aband g)"
    then obtain a i where "q = PageAt a i" "a \<in> set (cg_segs g)" by (rule base_page_ptr [OF c(1) UnI1])
    then show "pg_nx st' q = pg_nx st q" using nx ne by simp
  qed
  moreover have "seg_inv st' s (rev usable_pages)"
    using c(3) y usable_pages by (auto simp: seg_inv_def)
  moreover have "seg_inv st' t (cg_pool g t)" if t: "t \<in> set (cg_segs g)" for t
  proof -
    have i: "seg_inv st t (cg_pool g t)" using c(1) t by (simp add: central_core_def)
    then obtain x where x: "get_seg t st = Some x" by (auto simp: seg_inv_def)
    show ?thesis by (rule seg_inv_cong [OF i x]) (use st' ne [OF t] x nx in auto)
  qed
  moreover have "parts (seg_ghost s g) L" using seg_ghost_parts c(1,2) by (simp add: central_core_def)
  ultimately show ?thesis using c(1,2) st'(4) by (auto simp: central_core_def)
qed

text \<open>A change of the OS state and the registry that leaves the segments' bytes alone.\<close>

lemma segs_same_area:
  assumes c: "central_core st g L" and p: "p \<in> seg_pages (set (cg_segs g))" "get_page p st = Some x"
    and m: "same_on (seg_regions (set (cg_segs g))) m m'"
  shows "same_area (pg_area x) m m'"
  unfolding same_area_def
proof (intro allI impI)
  fix a assume a: "in_region (pg_area x) PAGE_SIZE a"
  obtain s i where 1: "s \<in> set (cg_segs g)" "i \<in> {1..<64}" "pg_area x = s + of_nat i * PAGE_SIZE"
    by (rule page_core [OF c p(1) [unfolded seg_pages_parts [OF c]]]) (use p(2) in simp)
  have "segment_aligned s" using c 1(1) by (simp add: central_core_def seg_inv_def)
  then have "a \<in> region_set (s, SEGMENT_SIZE)" using area_recover(3) [of s i a] 1 a by simp
  then show "m' a = m a" using m 1(1) unfolding same_on_def seg_regions_def by blast
qed

lemma blocks_same_on:
  assumes c: "central_core st g L" and P: "P \<subseteq> seg_pages (set (cg_segs g))"
    and m: "same_on (seg_regions (set (cg_segs g))) m m'"
  shows "same_on (\<Union>p \<in> P. pblocks st p) m m'"
proof (rule same_on_each)
  fix b assume "b \<in> (\<Union>p \<in> P. pblocks st p)"
  then obtain p where p: "p \<in> P" "b \<in> pblocks st p" by blast
  then obtain x where x: "get_page p st = Some x" by (auto simp: pblocks_def)
  have "same_area (pg_area x) m m'" using segs_same_area [OF c _ x m] P p(1) by blast
  then show "same_on {b} m m'" using pblocks_area [OF x p(2)] by (auto simp: same_on_def same_area_def)
qed

lemma os_change:
  assumes b: "base_inv K R st g L" and r: "reg_inv r" "reg_keys r \<subseteq> dom (st_regions st)"
    and h: "os_holds K os (seg_regions (set (cg_segs g)) \<union> R' \<union> reg_region K r)"
      "seg_regions (set (cg_segs g)) \<inter> R' = {}" "(seg_regions (set (cg_segs g)) \<union> R') \<inter> reg_region K r = {}"
    and R': "\<forall>a h. get_large a st = Some h \<longrightarrow> (a, lh_mmap_size h) \<in> R'"
    and m: "same_on (seg_regions (set (cg_segs g)) \<union> Q) (st_mem st) (mem os)"
  defines "st' \<equiv> st\<lparr>st_registry := r, st_os := os\<rparr>"
  shows "base_inv K R' st' g L" "keeps Q (seg_pages (set (cg_segs g))) st st'" "aband_frame st g st' g"
proof -
  note f = base_inv_facts [OF b]
  have ms: "same_on (seg_regions (set (cg_segs g))) (st_mem st) (st_mem st')" "same_on Q (st_mem st) (st_mem st')"
    using m by (auto simp: same_on_def st'_def)
  have gp: "get_page p st' = get_page p st" "get_seg s st' = get_seg s st" "get_large a st' = get_large a st" for p s a
    by (simp_all add: st'_def get_large_def)
  have ar: "same_area (pg_area x) (st_mem st) (st_mem st')" if "p \<in> seg_pages (set (cg_segs g))" "get_page p st = Some x" for p x
    by (rule segs_same_area [OF f(1) that ms(1)])
  have ab: "set (cg_aband g) \<subseteq> seg_pages (set (cg_segs g))" using seg_pages_parts [OF f(1)] by blast
  have pb: "pblocks st' p = pblocks st p" "page_good st' p = page_good st p" if "p \<in> seg_pages (set (cg_segs g))" for p
    by (rule pblocks_cong; use gp ar that in simp)+
  show "keeps Q (seg_pages (set (cg_segs g))) st st'"
    using ms(2) ar gp by (simp add: keeps_def outer_frame_def) (simp add: st'_def)
  have "aband_blocks st' g = aband_blocks st g" using pb(1) ab unfolding aband_blocks_def by blast
  then show "aband_frame st g st' g"
    using pb(1) ab gp(1) blocks_same_on [OF f(1) ab ms(1)] by (auto simp: aband_frame_def aband_blocks_def page_owner_def)
  have l: "seg_nx st' = seg_nx st" "av_nx st' = av_nx st" "av_pv st' = av_pv st" "pg_nx st' = pg_nx st"
    by (simp_all add: link_defs fun_eq_iff gp)
  have "st_central st' = st_central st" by (simp add: st'_def)
  then have "central_lists st' g L = central_lists st g L"
    by (simp add: central_lists_def central_core_def avail_list_def seg_inv_def page_area_ok_def l gp)
  moreover have "world_ok K R' st' (set (cg_segs g))" using r h R' f(5) by (simp add: world_ok_def gp) (simp add: st'_def)
  moreover have "\<forall>p \<in> set (cg_aband g). page_good st' p" using pb(2) ab f(6) by blast
  moreover have "st_central st' = st_central st" by (simp add: st'_def)
  ultimately show "base_inv K R' st' g L" using b by (simp add: base_inv_def)
qed

text \<open>The state before the new segment goes on the \<open>avail\<close> list.\<close>

definition seg_added :: "addr \<Rightarrow> Segment \<Rightarrow> State \<Rightarrow> State" where
  "seg_added s x st = upd_central (\<lambda>g. g\<lparr>cs_segments := s, cs_num_segments := cs_num_segments g + 1,
       cs_free_segments := cs_free_segments g + 1\<rparr>)
     (set_seg s (x\<lparr>sg_next := cs_segments (st_central st)\<rparr>)
       (upd_central (\<lambda>g. g\<lparr>cs_free_page_count := cs_free_page_count g + ucast (sg_free_count x)\<rparr>) st))"

lemma map_segment_unfold:
  assumes "os_alloc_aligned K SEGMENT_SIZE SEGMENT_SIZE (st_os st) = (s, os)" "s \<noteq> 0"
    "init_pages s usable_pages (new_segment s (st\<lparr>st_os := os\<rparr>)) = Some st2" "get_seg s st2 = Some x"
  shows "map_segment K st = do {
     st \<leftarrow> avail_push s (seg_added s x st2);
     (r, os) \<leftarrow> region_register K s (st_registry st) (st_os st);
     Some (True, st\<lparr>st_registry := r, st_os := os\<rparr>) }"
  using assms unfolding map_segment_def usable_pages_def seg_added_def
  by (simp del: constants_value upt_rec_numeral add: upd_seg_def Let_def)

text \<open>The new segment's pages, written by the loop.\<close>

lemma new_segment_pages:
  assumes b: "base_inv K R st g L" and e: "os_alloc_aligned K SEGMENT_SIZE SEGMENT_SIZE (st_os st) = (s, os)" "s \<noteq> 0"
  obtains st2 x where "init_pages s usable_pages (new_segment s (st\<lparr>st_os := os\<rparr>)) = Some st2" "get_seg s st2 = Some x"
    "sg_kind x = Small" "sg_mmap_size x = SEGMENT_SIZE" "unat (sg_free_count x) = 63"
    "linked NullPage (pg_nx st2) (sg_free_list x) (map (PageAt s) (rev usable_pages)) NullPage"
    "\<forall>i \<in> {1..<64}. page_area_ok st2 s i" "st_central st2 = st_central st" "st_os st2 = os" "st_registry st2 = st_registry st"
    "st_regions st2 = (st_regions st)(s \<mapsto> SegmentRegion x)"
    "\<forall>q. (\<forall>i. q \<noteq> PageAt s i) \<longrightarrow> get_page q st2 = get_page q st" "outer_frame st st2"
proof -
  let ?st = "new_segment s (st\<lparr>st_os := os\<rparr>)"
  let ?x = "zero_segment\<lparr>sg_kind := Small, sg_page_count := ucast PAGES_PER_SEGMENT, sg_mmap_size := SEGMENT_SIZE,
    sg_free_list := NullPage, sg_free_count := 0\<rparr>"
  note fr = fresh_segment [OF b e]
  have "get_seg s ?st = Some ?x" by (simp del: constants_value)
  moreover have "\<forall>i \<in> set usable_pages. get_page (PageAt s i) ?st \<noteq> None" by (simp add: usable_pages(1))
  moreover have "distinct ([] @ usable_pages)" "length [] + length usable_pages < 2 ^ 32" using usable_pages by simp_all
  moreover have "linked NullPage (pg_nx ?st) (sg_free_list ?x) (map (PageAt s) []) NullPage"
    "unat (sg_free_count ?x) = length []" "\<forall>i \<in> set []. page_area_ok ?st s i" by simp_all
  ultimately obtain st2 x where *: "init_pages s usable_pages ?st = Some st2"
    "st2\<lparr>st_pages := st_pages ?st, st_regions := st_regions ?st\<rparr> = ?st"
    "st_regions st2 = (st_regions ?st)(s \<mapsto> SegmentRegion x)"
    "\<forall>q. (\<forall>i \<in> set usable_pages. q \<noteq> PageAt s i) \<longrightarrow> get_page q st2 = get_page q ?st"
    "x\<lparr>sg_free_list := sg_free_list ?x, sg_free_count := sg_free_count ?x\<rparr> = ?x"
    "unat (sg_free_count x) = length (rev usable_pages @ [])"
    "linked NullPage (pg_nx st2) (sg_free_list x) (map (PageAt s) (rev usable_pages @ [])) NullPage"
    "\<forall>i \<in> set (rev usable_pages @ []). page_area_ok st2 s i"
    using init_pages_ok [of s ?st ?x "[]" usable_pages] by blast
  have fld: "st_central st2 = st_central st" "st_os st2 = os" "st_registry st2 = st_registry st" "st_heaps st2 = st_heaps st"
    "st_t_heap st2 = st_t_heap st" "st_g_registry st2 = st_g_registry st" "st_large_count st2 = st_large_count st"
    "st_large_bytes st2 = st_large_bytes st"
    using arg_cong [OF *(2), of st_central] arg_cong [OF *(2), of st_os] arg_cong [OF *(2), of st_registry]
      arg_cong [OF *(2), of st_heaps] arg_cong [OF *(2), of st_t_heap] arg_cong [OF *(2), of st_g_registry]
      arg_cong [OF *(2), of st_large_count] arg_cong [OF *(2), of st_large_bytes] by simp_all
  have sx: "sg_kind x = Small" "sg_mmap_size x = SEGMENT_SIZE"
    using arg_cong [OF *(5), of sg_kind] arg_cong [OF *(5), of sg_mmap_size] by simp_all
  have rg: "st_regions st2 = (st_regions st)(s \<mapsto> SegmentRegion x)" using *(3) by (simp add: new_segment_def)
  have pg: "get_page q st2 = get_page q st" if "\<forall>i. q \<noteq> PageAt s i" for q
    using *(4) that by (cases q) (auto simp: get_page_def new_segment_def)
  have "get_large a st2 = get_large a st" for a using fr(2) by (simp add: get_large_def rg)
  then have "outer_frame st st2" using fld pg [of EmptyPage] by (simp add: outer_frame_def)
  moreover have "get_seg s st2 = Some x" using rg by (simp add: get_seg_def)
  ultimately show thesis using that * sx fld rg pg usable_pages by (simp del: constants_value)
qed

lemma seg_added_counts:
  assumes b: "base_inv K R st g L" and s: "s \<notin> set (cg_segs g)" and x: "unat (sg_free_count x) = 63"
    and e: "st_central st2 = st_central st"
  shows "central_counts (st_central (seg_added s x st2)) (seg_ghost s g) (card (full_segs (seg_ghost s g)))"
proof -
  note f = base_inv_facts [OF b] and sc = seg_ghost_counts [OF s]
  have n: "length (cg_segs g) < 2 ^ 42" "free_pages g < 2 ^ 48" using segs_bound(1) [OF f(1)] free_pages_bound(2) [OF f(1)] .
  have "card (full_segs g) \<le> length (cg_segs g)"
    using card_mono [of "set (cg_segs g)" "full_segs g"] card_length [of "cg_segs g"] by (force simp: full_segs_def)
  then have k: "card (full_segs g) < 2 ^ 42" using n by simp
  show ?thesis using f(4) n k sc x e
    by (simp add: central_counts_def seg_added_def unat_word_ariths)
qed

lemma seg_added_base:
  assumes b: "base_inv K R st g L" and e: "os_alloc_aligned K SEGMENT_SIZE SEGMENT_SIZE (st_os st) = (s, os)" "s \<noteq> 0"
  obtains st2 x st' where "init_pages s usable_pages (new_segment s (st\<lparr>st_os := os\<rparr>)) = Some st2" "get_seg s st2 = Some x"
    "avail_push s (seg_added s x st2) = Some st'" "base_inv K R st' (seg_ghost s g) L"
    "keeps R (seg_pages (set (cg_segs g))) st st'" "aband_frame st g st' (seg_ghost s g)"
    "st_registry st' = st_registry st" "dom (st_regions st') = insert s (dom (st_regions st))"
proof -
  note f = base_inv_facts [OF b] and fr = fresh_segment [OF b e]
  obtain st2 x where 1: "init_pages s usable_pages (new_segment s (st\<lparr>st_os := os\<rparr>)) = Some st2" "get_seg s st2 = Some x"
    and x: "sg_kind x = Small" "sg_mmap_size x = SEGMENT_SIZE" "unat (sg_free_count x) = 63"
    and l: "linked NullPage (pg_nx st2) (sg_free_list x) (map (PageAt s) (rev usable_pages)) NullPage"
      "\<forall>i \<in> {1..<64}. page_area_ok st2 s i"
    and f2: "st_central st2 = st_central st" "st_os st2 = os" "st_registry st2 = st_registry st"
      "st_regions st2 = (st_regions st)(s \<mapsto> SegmentRegion x)"
      "\<forall>q. (\<forall>i. q \<noteq> PageAt s i) \<longrightarrow> get_page q st2 = get_page q st" "outer_frame st st2"
    by (rule new_segment_pages [OF b e])
  let ?st = "seg_added s x st2"
  have sg: "get_seg t ?st = (if t = s then Some (x\<lparr>sg_next := cs_segments (st_central st)\<rparr>) else get_seg t st)" for t
    using f2(1,4) by (simp add: seg_added_def) (simp add: get_seg_def)
  have pg: "get_page q ?st = get_page q st2" for q by (simp add: seg_added_def)
  have core: "central_core ?st (seg_ghost s g) L"
  proof (rule seg_added_core [OF f(1) fr(3,1) e(2), of _ "x\<lparr>sg_next := cs_segments (st_central st)\<rparr>"])
    have "pg_nx ?st = pg_nx st2" by (simp add: pg_nx_def fun_eq_iff pg)
    then show "linked NullPage (pg_nx ?st) (sg_free_list (x\<lparr>sg_next := cs_segments (st_central st)\<rparr>)) (map (PageAt s) (rev usable_pages)) NullPage"
      using l(1) by simp
  qed (use x l(2) sg pg f2 in \<open>simp_all add: page_area_ok_def\<close>, simp_all add: seg_added_def f2)
  have sub: "t \<noteq> s" if "t \<in> set (cg_avail g)" for t using that fr(3) unfolding f(3) by auto
  have "dlist 0 (av_nx ?st) (av_pv ?st) h (cg_avail g) = dlist 0 (av_nx st) (av_pv st) h (cg_avail g)" for h
    by (rule dlist_cong) (use sub in \<open>simp_all add: link_defs sg\<close>)
  then have av: "dlist 0 (av_nx ?st) (av_pv ?st) (cs_avail (st_central ?st)) (cg_avail g)"
    using f(2) f2(1) by (simp add: avail_list_def seg_added_def)
  have ex: "\<forall>t \<in> set (s # cg_avail g). get_seg t ?st \<noteq> None" using f(7) sg unfolding set_simps f(3) by simp
  obtain st' where st': "avail_push s ?st = Some st'" "avail_frame ?st st'" "avail_list st' (s # cg_avail g)"
    using avail_push_spec [OF av _ e(2) ex] sub unfolding avail_list_def by blast
  have lf: "link_frame ?st st'" using st'(2) by (simp add: avail_frame_def)
  note lr = link_frame_rest [OF lf]
  have gp: "get_page p st' = get_page p st" if "p \<in> seg_pages (set (cg_segs g))" for p
  proof -
    have "\<forall>i. p \<noteq> PageAt s i" using that fr(3) by (auto simp: seg_pages_def)
    then show ?thesis using f2(5) pg lr(4) by simp
  qed
  have mm: "st_mem st' = mem os" using lr(3) f2(2) by (simp add: seg_added_def)
  have ms: "same_on (seg_regions (set (cg_segs g))) (st_mem st) (st_mem st')" "same_on R (st_mem st) (st_mem st')"
    using fr(7) unfolding mm same_on_def by blast+
  have ar: "same_area (pg_area y) (st_mem st) (st_mem st')" if "p \<in> seg_pages (set (cg_segs g))" "get_page p st = Some y" for p y
    by (rule segs_same_area [OF f(1) that ms(1)])
  have ab: "set (cg_aband g) \<subseteq> seg_pages (set (cg_segs g))" using seg_pages_parts [OF f(1)] by blast
  have pb: "pblocks st' p = pblocks st p" "page_good st' p = page_good st p" if "p \<in> seg_pages (set (cg_segs g))" for p
    by (rule pblocks_cong; use gp ar that in simp)+
  have out: "outer_frame st st'"
    using outer_frame_trans [OF f2(6)] link_frame_outer [OF lf] 1(2) set_seg_frames(3) [of s "upd_central _ st2"]
    by (simp add: outer_frame_def seg_added_def)
  then have k: "keeps R (seg_pages (set (cg_segs g))) st st'" using ms(2) gp ar by (simp add: keeps_def)
  have "aband_blocks st' (seg_ghost s g) = aband_blocks st g" using pb(1) ab unfolding aband_blocks_def by auto
  then have af: "aband_frame st g st' (seg_ghost s g)"
    using pb(1) ab gp(1) blocks_same_on [OF f(1) ab ms(1)] by (auto simp: aband_frame_def aband_blocks_def page_owner_def)
  have dm: "dom (st_regions st') = insert s (dom (st_regions st))"
    using lr(6) f2(4) by (auto simp: seg_added_def set_seg_def)
  have rg: "st_registry st' = st_registry st" "st_os st' = os" using lr(2,3) f2(2,3) by (simp_all add: seg_added_def)
  have gl: "get_large a st' = get_large a st" for a using out by (simp add: outer_frame_def)
  have "get_seg a st' \<noteq> None \<longleftrightarrow> a \<in> set (cg_segs (seg_ghost s g))" for a
    using f(5) link_frame_None [OF lf, of a] sg [of a] by (simp add: world_ok_def)
  moreover have "seg_regions (set (cg_segs (seg_ghost s g))) = insert (s, SEGMENT_SIZE) (seg_regions (set (cg_segs g)))"
    by (simp add: seg_regions_def)
  ultimately have "world_ok K R st' (set (cg_segs (seg_ghost s g)))"
    using f(5) fr(4-6) unfolding world_ok_def rg gl dm by (simp del: constants_value) blast
  moreover have "central_counts (st_central st') (seg_ghost s g) (card (full_segs (seg_ghost s g)))"
    using seg_added_counts [OF b fr(3) x(3) f2(1)] link_frame_central(3) [OF lf] by simp
  moreover have "rev usable_pages \<noteq> []" using usable_pages(3) by auto
  then have "set (s # cg_avail g) = {t \<in> set (s # cg_segs g). ((cg_pool g)(s := rev usable_pages)) t \<noteq> []}"
    using fr(3) unfolding set_simps f(3) by auto
  then have "central_lists st' (seg_ghost s g) L"
    using avail_frame_core [OF st'(2) core] st'(3) by (simp only: central_lists_def seg_ghost_simps simp_thms)
  moreover have "\<forall>p \<in> set (cg_aband (seg_ghost s g)). page_good st' p" using f(6) pb(2) ab by auto
  ultimately have "base_inv K R st' (seg_ghost s g) L" by (simp add: base_inv_def)
  then show thesis using that 1 st'(1) k af dm rg(1) by blast
qed

text \<open>The kernel refused a segment although no more was mapped than now.\<close>

definition seg_refused :: "kernel \<Rightarrow> State \<Rightarrow> bool" where
  "seg_refused K st \<longleftrightarrow> (\<exists>os. (\<forall>x. mapped os x \<longrightarrow> mapped (st_os st) x) \<and>
     fst (os_alloc_aligned K SEGMENT_SIZE SEGMENT_SIZE os) = 0)"

lemma seg_refused_back: "no_new_map st st' \<Longrightarrow> seg_refused K st' \<Longrightarrow> seg_refused K st"
  unfolding seg_refused_def no_new_map_def by blast

lemma map_segment_ok:
  assumes b: "base_inv K R st g {}" and r: "roomy (st_registry st)" and av: "cg_avail g = []"
  shows "\<exists>ok st' g'. map_segment K st = Some (ok, st') \<and> base_inv K R st' g' {} \<and> cache_ok g' \<and>
    keeps R (cg_out g) st st' \<and> cg_out g' = cg_out g \<and> aband_frame st g st' g' \<and>
    (ok \<longleftrightarrow> cg_avail g' \<noteq> []) \<and> (\<not> ok \<longrightarrow> reg_frame st st' \<and> seg_refused K st) \<and>
    registry_step st st'"
proof -
  note f = base_inv_facts [OF b]
  have "full_segs g = {}" using f(3) av by (auto simp: full_segs_def)
  then have fs: "card (full_segs g) = 0" by simp
  have out: "cg_out g \<subseteq> seg_pages (set (cg_segs g))" using seg_pages_parts [OF f(1)] by blast
  obtain s os where e: "os_alloc_aligned K SEGMENT_SIZE SEGMENT_SIZE (st_os st) = (s, os)" by fastforce
  show ?thesis
  proof (cases "s = 0")
    case True
    let ?st = "st\<lparr>st_registry := st_registry st, st_os := os\<rparr>"
    have w: "world_ok K R st (set (cg_segs g))" by (rule f(5))
    then have "os_holds K (st_os st) (seg_regions (set (cg_segs g)) \<union> R \<union> reg_region K (st_registry st))" by (simp add: world_ok_def)
    note h = os_holds_refused [OF this e [unfolded True]]
    have "base_inv K R ?st g {}" "keeps R (seg_pages (set (cg_segs g))) st ?st" "aband_frame st g ?st g"
      by (rule os_change [OF b, where R' = R and Q = R]; use w h in \<open>simp add: world_ok_def\<close>)+
    moreover have "map_segment K st = Some (False, ?st)" using e True by (simp add: map_segment_def)
    moreover have "mapped os = mapped (st_os st)"
      using os_alloc_contract [OF os_holds_kernel e] w True by (auto simp: world_ok_def os_refused_def)
    then have "reg_frame st ?st" by (simp add: reg_frame_def reg_exact_def)
    moreover have "seg_refused K st" using e True unfolding seg_refused_def by (intro exI [of _ "st_os st"]) simp
    ultimately show ?thesis using out keeps_mono [of R _ st ?st R "cg_out g"] av fs
      by (intro exI [of _ False] exI [of _ ?st] exI [of _ g]) (simp add: cache_ok_def reg_frame_step)
  next
    case False
    obtain st2 x st3 where 1: "init_pages s usable_pages (new_segment s (st\<lparr>st_os := os\<rparr>)) = Some st2" "get_seg s st2 = Some x"
      "avail_push s (seg_added s x st2) = Some st3" and b3: "base_inv K R st3 (seg_ghost s g) {}"
      and k3: "keeps R (seg_pages (set (cg_segs g))) st st3" "aband_frame st g st3 (seg_ghost s g)"
      and r3: "st_registry st3 = st_registry st" "dom (st_regions st3) = insert s (dom (st_regions st))"
      by (rule seg_added_base [OF b e False])
    note fr = fresh_segment [OF b e False] and w3 = base_inv_facts(5) [OF b3]
    obtain r' os' where r': "region_register K s (st_registry st3) (st_os st3) = Some (r', os')" "reg_inv r'"
      "reg_keys (st_registry st3) \<subseteq> reg_keys r'" "reg_keys r' \<subseteq> insert s (reg_keys (st_registry st3))"
      "rg_slots r' = None \<or> reg_keys r' = insert s (reg_keys (st_registry st3))"
      "slack (st_registry st3) \<longrightarrow> roomy r'"
      by (rule register_returns [OF base_inv_facts(8) [OF b3], of s K "st_os st3"])
        (use r r3(1) aligned_live [OF fr(1) False] in simp_all)
    let ?S = "seg_regions (set (cg_segs (seg_ghost s g)))"
    let ?st = "st3\<lparr>st_registry := r', st_os := os'\<rparr>"
    have t: "os_holds K os' (?S \<union> R \<union> reg_region K r') \<and> (?S \<union> R) \<inter> reg_region K r' = {} \<and> same_on (?S \<union> R) (st_mem st3) (mem os')"
      by (rule register_tracks [OF _ _ r'(1)]) (use w3 in \<open>simp_all add: world_ok_def\<close>)
    have kd: "reg_keys r' \<subseteq> dom (st_regions st3)" using r'(4) r3 w3 by (auto simp: world_ok_def)
    have n: "base_inv K R ?st (seg_ghost s g) {}" "keeps R (seg_pages (set (cg_segs (seg_ghost s g)))) st3 ?st"
      "aband_frame st3 (seg_ghost s g) ?st (seg_ghost s g)"
      by (rule os_change [OF b3 r'(2) kd, where R' = R and Q = R]; use w3 t in \<open>simp add: world_ok_def\<close>)+
    have "seg_pages (set (cg_segs g)) \<subseteq> seg_pages (set (cg_segs (seg_ghost s g)))" by (auto simp: seg_pages_def)
    then have "keeps R (cg_out g) st ?st"
      using keeps_trans [OF keeps_mono [OF k3(1) order_refl out] keeps_mono [OF n(2) order_refl]] out by blast
    moreover have "map_segment K st = Some (True, ?st)"
      using map_segment_unfold [OF e False 1(1,2)] 1(3) r'(1) by simp
    moreover have "cache_ok (seg_ghost s g)" using seg_ghost_counts(2) [OF fr(3)] fs by (simp add: cache_ok_def SEGMENT_CACHE_def)
    moreover have "registry_step st ?st" using r'(5,6) r3 by (auto simp: registry_step_def reg_exact_def)
    ultimately show ?thesis using n(1) aband_frame_trans [OF k3(2) n(3)]
      by (intro exI [of _ True] exI [of _ ?st] exI [of _ "seg_ghost s g"]) simp
  qed
qed

section \<open>Taking a page from its pool\<close>

definition take_ghost :: "addr \<Rightarrow> nat \<Rightarrow> cghost \<Rightarrow> cghost" where
  "take_ghost s i g = g\<lparr>cg_pool := (cg_pool g)(s := tl (cg_pool g s)), cg_out := insert (PageAt s i) (cg_out g),
     cg_avail := if tl (cg_pool g s) = [] then tl (cg_avail g) else cg_avail g\<rparr>"

lemma take_ghost_simps [simp]:
  "cg_segs (take_ghost s i g) = cg_segs g" "cg_aband (take_ghost s i g) = cg_aband g"
  "cg_pool (take_ghost s i g) = (cg_pool g)(s := tl (cg_pool g s))" "cg_out (take_ghost s i g) = insert (PageAt s i) (cg_out g)"
  by (simp_all add: take_ghost_def)

lemma pooled_iff [simp]:
  "PageAt t j \<in> pooled g \<longleftrightarrow> t \<in> set (cg_segs g) \<and> j \<in> set (cg_pool g t)" "NullPage \<notin> pooled g" "EmptyPage \<notin> pooled g"
  by (auto simp: pooled_def)

lemma pooled_upd [simp]: "pooled (g\<lparr>cg_out := X\<rparr>) = pooled g" "pooled (g\<lparr>cg_aband := Y\<rparr>) = pooled g"
  by (simp_all add: pooled_def)

lemma pool_take_core:
  assumes c: "central_core st g {}" and s: "s \<in> set (cg_segs g)" "cg_pool g s = i # is" and y: "get_seg s st = Some y"
    and y': "seg_core y' = seg_core (y\<lparr>sg_free_list := pg_nx st (PageAt s i), sg_free_count := sg_free_count y - 1\<rparr>)"
      "sg_next y' = sg_next y"
    and st': "\<And>q. get_page q st' = get_page q st" "\<And>t. get_seg t st' = (if t = s then Some y' else get_seg t st)"
      "cs_segments (st_central st') = cs_segments (st_central st)"
      "cs_abandoned (st_central st') = cs_abandoned (st_central st)"
  shows "central_core st' (g\<lparr>cg_pool := (cg_pool g)(s := is)\<rparr>) {PageAt s i}"
proof -
  let ?g = "g\<lparr>cg_pool := (cg_pool g)(s := is)\<rparr>"
  have pl: "unat (sg_free_count y) = length (cg_pool g s) \<and> distinct (cg_pool g s) \<and>
      linked NullPage (pg_nx st) (sg_free_list y) (map (PageAt s) (cg_pool g s)) NullPage"
    by (rule segs_core [OF c s(1)]) (use y in simp)
  have pa: "parts g {}" using c by (simp add: central_core_def)
  have "q \<in> pooled g \<longleftrightarrow> q \<in> insert (PageAt s i) (pooled ?g)" for q using s by (cases q) auto
  then have "pooled g = insert (PageAt s i) (pooled ?g)" by blast
  moreover have "PageAt s i \<notin> pooled ?g" using s pl by simp
  ultimately have p: "parts ?g {PageAt s i}" using pa by (auto simp: parts_def)
  have nx: "pg_nx st' = pg_nx st" by (simp add: fun_eq_iff pg_nx_def st')
  have "seg_nx st' = seg_nx st" using y'(2) y by (simp add: fun_eq_iff seg_nx_def st')
  moreover have "seg_inv st' t (cg_pool ?g t)" if t: "t \<in> set (cg_segs g)" for t
  proof -
    have it: "seg_inv st t (cg_pool g t)" using c t by (simp add: central_core_def)
    have ar: "page_area_ok st' = page_area_ok st" by (simp add: fun_eq_iff page_area_ok_def st')
    have "unat (sg_free_count y - 1) = length is" if "t = s" using pl s(2) by (simp add: unat_sub word_le_nat_alt)
    then show ?thesis using it pl s(2) y seg_core_fields [OF y'(1)]
      by (cases "t = s") (auto simp: seg_inv_def ar nx st')
  qed
  ultimately show ?thesis using c p by (simp add: central_core_def st' nx)
qed

lemma take_ghost_counts:
  assumes c: "central_core st g L" "s \<in> set (cg_segs g)" "cg_pool g s = i # is"
  shows "free_pages g = Suc (free_pages (take_ghost s i g))"
    "length (cg_pool g s) = 63 \<Longrightarrow> card (full_segs g) = Suc (card (full_segs (take_ghost s i g)))"
    "length (cg_pool g s) \<noteq> 63 \<Longrightarrow> full_segs (take_ghost s i g) = full_segs g"
proof -
  have "free_pages (take_ghost s i g) = length is + (\<Sum>t \<in> set (cg_segs g) - {s}. length (cg_pool g t))"
    unfolding free_pages_def by (simp add: sum.remove [OF _ c(2)] c(3))
  moreover have "free_pages g = Suc (length is) + (\<Sum>t \<in> set (cg_segs g) - {s}. length (cg_pool g t))"
    unfolding free_pages_def by (simp add: sum.remove [OF _ c(2)] c(3))
  ultimately show "free_pages g = Suc (free_pages (take_ghost s i g))" by simp
  have l: "length (cg_pool g s) \<le> 63" by (rule segs_core [OF c(1,2)])
  then have d: "full_segs (take_ghost s i g) = full_segs g - {s}" using c(3) by (auto simp: full_segs_def)
  show "card (full_segs g) = Suc (card (full_segs (take_ghost s i g)))" if "length (cg_pool g s) = 63"
  proof -
    have "s \<in> full_segs g" using that c(2) by (simp add: full_segs_def)
    then show ?thesis unfolding d using card.remove [of "full_segs g" s] by (simp add: full_segs_def)
  qed
  show "length (cg_pool g s) \<noteq> 63 \<Longrightarrow> full_segs (take_ghost s i g) = full_segs g"
    unfolding d by (auto simp: full_segs_def)
qed

text \<open>The state after the page is unlinked, and the fields it is handed out with.\<close>

definition pool_taken :: "addr \<Rightarrow> Segment \<Rightarrow> Page \<Rightarrow> State \<Rightarrow> State" where
  "pool_taken s x p st = upd_central (\<lambda>g. g\<lparr>cs_free_page_count := cs_free_page_count g - 1\<rparr>)
     (set_seg s (x\<lparr>sg_free_list := pg_next p, sg_free_count := sg_free_count x - 1\<rparr>)
       (if ucast (sg_free_count x) = USABLE_PAGES_PER_SEGMENT
        then upd_central (\<lambda>g. g\<lparr>cs_free_segments := cs_free_segments g - 1\<rparr>) st else st))"

definition fresh_page :: "heap_ptr \<Rightarrow> u32 \<Rightarrow> u32 \<Rightarrow> Page \<Rightarrow> Page" where
  "fresh_page owner cls bs p = p\<lparr>pg_free := 0, pg_used := 0, pg_capacity := ucast (PAGE_SIZE div ucast bs), pg_reserved := 0,
     pg_block_size := bs, pg_size_class := cls, pg_in_use := True, pg_owner := owner, pg_next := NullPage, pg_prev := NullPage,
     pg_thread_free := 0\<rparr>"

lemma take_page_unfold:
  assumes "get_seg (cs_avail (st_central st)) st = Some x" "sg_free_list x = PageAt (cs_avail (st_central st)) i"
    "get_page (PageAt (cs_avail (st_central st)) i) st = Some p" "bs \<noteq> 0"
    "(if sg_free_count x - 1 = 0 then avail_remove (cs_avail (st_central st)) (pool_taken (cs_avail (st_central st)) x p st)
      else Some (pool_taken (cs_avail (st_central st)) x p st)) = Some st2"
    "link_frame (pool_taken (cs_avail (st_central st)) x p st) st2"
  shows "take_page owner cls bs st = Some (PageAt (cs_avail (st_central st)) i,
    set_page (PageAt (cs_avail (st_central st)) i) (fresh_page owner cls bs p)
      (upd_central (\<lambda>g. g\<lparr>cs_pages_in_use := cs_pages_in_use g + 1\<rparr>) st2))"
proof -
  have "get_page (PageAt (cs_avail (st_central st)) i) st2 = Some p"
    using assms(3) link_frame_rest(4) [OF assms(6)] by (simp add: pool_taken_def)
  then show ?thesis using assms(1-5)
    by (cases "sg_free_count x = 1"; cases "ucast (sg_free_count x) = USABLE_PAGES_PER_SEGMENT")
      (auto simp: take_page_def upd_page_def upd_seg_def fresh_page_def pool_taken_def Let_def)
qed

text \<open>The page handed out satisfies the precondition of the page operations.\<close>

definition class_size_ok :: "u32 \<Rightarrow> bool" where
  "class_size_ok bs \<longleftrightarrow> 16 \<le> unat bs \<and> 16 dvd unat bs \<and> unat bs \<le> 16384"

lemma fresh_page_unused:
  assumes b: "base_inv K R st g L" and p: "q \<in> seg_pages (set (cg_segs g))" "get_page q st = Some p" and bs: "class_size_ok bs"
  shows "page_unused (fresh_page owner cls bs p)"
proof -
  note f = base_inv_facts [OF b]
  obtain s i where 1: "s \<in> set (cg_segs g)" "i \<in> {1..<64}" "pg_area p = s + of_nat i * PAGE_SIZE"
    by (rule page_core [OF f(1) p(1) [unfolded seg_pages_parts [OF f(1)]]]) (use p(2) in simp)
  have "(s, SEGMENT_SIZE) \<in> seg_regions (set (cg_segs g)) \<union> R \<union> reg_region K (st_registry st)"
    using 1(1) by (simp add: seg_regions_def)
  moreover have "os_holds K (st_os st) (seg_regions (set (cg_segs g)) \<union> R \<union> reg_region K (st_registry st))"
    using f(5) by (simp add: world_ok_def)
  ultimately have "unat s + unat SEGMENT_SIZE < 2 ^ 64" by (intro os_holds_region(3))
  then have lim: "unat s + 4194304 < 2 ^ 64" by simp
  have "unat (of_nat i * PAGE_SIZE) = i * 65536"
    using 1(2) by (simp add: unat_word_ariths unsigned_of_nat take_bit_nat_eq_self)
  then have "unat (pg_area p) = unat s + i * 65536" using lim 1(2,3) by (simp add: unat_word_ariths)
  then have a: "0 < unat (pg_area p)" "unat (pg_area p) + 65536 < 2 ^ 64" using lim 1(2) by simp_all
  have "unat (PAGE_SIZE div ucast bs) = 65536 div unat bs" by (simp add: unat_div)
  moreover have "65536 div unat bs < 2 ^ 32" by (rule le_less_trans [OF div_le_dividend]) simp
  ultimately have "unat (ucast (PAGE_SIZE div ucast bs :: u64) :: u32) = 65536 div unat bs"
    by (simp add: unsigned_ucast_eq take_bit_nat_eq_self)
  then show ?thesis using a bs by (simp add: page_unused_def page_geometry_def fresh_page_def class_size_ok_def)
qed

lemma take_page_lists:
  assumes b: "base_inv K R st g {}" and ne: "cg_avail g = s # avl"
  obtains i "is" x p st2 where "cs_avail (st_central st) = s" "s \<in> set (cg_segs g)" "cg_pool g s = i # is" "get_seg s st = Some x"
    "sg_free_list x = PageAt s i" "get_page (PageAt s i) st = Some p" "unat (sg_free_count x) = length (cg_pool g s)"
    "(if sg_free_count x - 1 = 0 then avail_remove s (pool_taken s x p st) else Some (pool_taken s x p st)) = Some st2"
    "link_frame (pool_taken s x p st) st2" "central_core st2 (g\<lparr>cg_pool := (cg_pool g)(s := is)\<rparr>) {PageAt s i}"
    "avail_list st2 (cg_avail (take_ghost s i g))"
    "set (cg_avail (take_ghost s i g)) = {t \<in> set (cg_segs g). cg_pool (take_ghost s i g) t \<noteq> []}"
proof -
  note f = base_inv_facts [OF b]
  have h: "cs_avail (st_central st) = s" using f(2) ne by (simp add: avail_list_def dlist_def)
  have "s \<in> {t \<in> set (cg_segs g). cg_pool g t \<noteq> []}" using ne unfolding f(3) [symmetric] by simp
  then obtain i "is" where s: "s \<in> set (cg_segs g)" "cg_pool g s = i # is" by (cases "cg_pool g s") auto
  obtain x where x: "get_seg s st = Some x" "unat (sg_free_count x) = length (cg_pool g s)"
    "linked NullPage (pg_nx st) (sg_free_list x) (map (PageAt s) (cg_pool g s)) NullPage"
    by (rule segs_core [OF f(1) s(1)])
  have "PageAt s i \<in> pooled g \<union> set (cg_aband g) \<union> cg_out g \<union> {}" using s by simp
  then obtain p where p: "get_page (PageAt s i) st = Some p" by (rule page_core [OF f(1)])
  have fl: "sg_free_list x = PageAt s i" "pg_nx st (PageAt s i) = pg_next p" using x(3) s(2) p by (simp_all add: pg_nx_def)
  let ?st = "pool_taken s x p st" and ?g = "g\<lparr>cg_pool := (cg_pool g)(s := is)\<rparr>"
  have sg: "get_seg t ?st = (if t = s then Some (x\<lparr>sg_free_list := pg_next p, sg_free_count := sg_free_count x - 1\<rparr>) else get_seg t st)" for t
    by (simp add: pool_taken_def)
  have c: "central_core ?st ?g {PageAt s i}"
    by (rule pool_take_core [OF f(1) s x(1), where y' = "x\<lparr>sg_free_list := pg_next p, sg_free_count := sg_free_count x - 1\<rparr>"])
      (simp_all add: sg fl(2), simp_all add: pool_taken_def)
  have "av_nx ?st = av_nx st" "av_pv ?st = av_pv st" using x(1) by (simp_all add: link_defs fun_eq_iff sg)
  then have av: "avail_list ?st (s # avl)" using f(2) ne by (simp add: avail_list_def pool_taken_def)
  have ds: "s \<notin> set avl" using av dlist_distinct unfolding avail_list_def by fastforce
  have e0: "sg_free_count x - 1 = 0 \<longleftrightarrow> is = []"
    using x(2) s(2) by (simp add: unat_eq_0 [symmetric] unat_sub word_le_nat_alt del: unat_eq_0)
  have sa: "set avl \<union> {s} = {t \<in> set (cg_segs g). cg_pool g t \<noteq> []}" using ne unfolding f(3) [symmetric] by simp
  note that' = that [OF h s x(1) fl(1) p x(2)]
  show thesis
  proof (cases "is = []")
    case True
    have ex: "\<forall>t \<in> set ([] @ s # avl). get_seg t ?st \<noteq> None" using f(7) sa sg by auto
    obtain st2 where 2: "avail_remove s ?st = Some st2" "avail_frame ?st st2" "avail_list st2 ([] @ avl)"
      using avail_remove_spec [of ?st "[]" s avl] av ex unfolding avail_list_def by auto
    have "set (cg_avail (take_ghost s i g)) = {t \<in> set (cg_segs g). cg_pool (take_ghost s i g) t \<noteq> []}"
      using sa ds True s(2) ne by (auto simp: take_ghost_def)
    moreover have "link_frame ?st st2" using 2(2) by (simp add: avail_frame_def)
    ultimately show thesis using that' [of st2] 2 e0 True avail_frame_core [OF 2(2) c] s(2) ne by (simp add: take_ghost_def)
  next
    case False
    have "set (cg_avail (take_ghost s i g)) = {t \<in> set (cg_segs g). cg_pool (take_ghost s i g) t \<noteq> []}"
      using sa False s ne by (auto simp: take_ghost_def)
    moreover have "link_frame ?st ?st" by (simp add: link_frame_def)
    ultimately show thesis using that' [of ?st] e0 False c s(2) ne av by (simp add: take_ghost_def)
  qed
qed

lemma take_counts:
  assumes b: "base_inv K R st g {}" and s: "s \<in> set (cg_segs g)" "cg_pool g s = i # is"
    and x: "unat (sg_free_count x) = length (cg_pool g s)"
  shows "central_counts ((st_central (pool_taken s x p st))\<lparr>cs_pages_in_use := cs_pages_in_use (st_central (pool_taken s x p st)) + 1\<rparr>)
    (take_ghost s i g) (card (full_segs (take_ghost s i g)))"
proof -
  note f = base_inv_facts [OF b] and t = take_ghost_counts [OF f(1) s]
  have pa: "parts g {}" using f(1) by (simp add: central_core_def)
  have os: "cg_out g \<subseteq> seg_pages (set (cg_segs g))" using pa by (auto simp: parts_def)
  note k = pages_bound [OF f(1) os]
  have "PageAt s i \<in> pooled g" using s by simp
  then have "PageAt s i \<notin> cg_out g" using pa unfolding parts_def by blast
  then have o: "card (insert (PageAt s i) (cg_out g)) = Suc (card (cg_out g))" using k(1) by simp
  have full: "ucast (sg_free_count x) = (63 :: u64) \<longleftrightarrow> length (cg_pool g s) = 63"
    using x by (simp add: word_unat_eq_iff)
  note c = f(4) [unfolded central_counts_def]
  have "unat (cs_pages_in_use (st_central st) + 1) = Suc (card (cg_out g))"
    using c k(3) by (simp add: unat_word_ariths)
  moreover have "unat (cs_free_page_count (st_central st) - 1) = free_pages (take_ghost s i g)"
    using c t(1) by (simp add: unat_sub word_le_nat_alt)
  moreover have "unat (cs_free_segments (st_central st) - 1) = card (full_segs (take_ghost s i g))" if "length (cg_pool g s) = 63"
    using c t(2) [OF that] by (simp add: unat_sub word_le_nat_alt)
  ultimately show ?thesis using c o t(3) full
    by (cases "length (cg_pool g s) = 63") (simp_all add: central_counts_def pool_taken_def)
qed

lemma take_page_ok:
  assumes b: "base_inv K R st g {}" and c: "cache_ok g" and ne: "cg_avail g \<noteq> []" and bs: "class_size_ok bs"
  shows "\<exists>pg x st' g'. take_page owner cls bs st = Some (pg, st') \<and> base_inv K R st' g' {} \<and> cache_ok g' \<and>
    pg \<in> pooled g \<and> cg_out g' = insert pg (cg_out g) \<and> cg_aband g' = cg_aband g \<and>
    get_page pg st' = Some (fresh_page owner cls bs x) \<and> page_unused (fresh_page owner cls bs x) \<and>
    (\<forall>q. q \<noteq> pg \<longrightarrow> get_page q st' = get_page q st) \<and> outer_frame st st' \<and> st_os st' = st_os st \<and>
    st_registry st' = st_registry st \<and> reg_exact st' = reg_exact st"
proof -
  note f = base_inv_facts [OF b]
  obtain s avl where sa: "cg_avail g = s # avl" using ne by (cases "cg_avail g") auto
  obtain i "is" x p st2 where 1: "cs_avail (st_central st) = s" "s \<in> set (cg_segs g)" "cg_pool g s = i # is" "get_seg s st = Some x"
    "sg_free_list x = PageAt s i" "get_page (PageAt s i) st = Some p" "unat (sg_free_count x) = length (cg_pool g s)"
    "(if sg_free_count x - 1 = 0 then avail_remove s (pool_taken s x p st) else Some (pool_taken s x p st)) = Some st2"
    and lf: "link_frame (pool_taken s x p st) st2" and core: "central_core st2 (g\<lparr>cg_pool := (cg_pool g)(s := is)\<rparr>) {PageAt s i}"
    and av: "avail_list st2 (cg_avail (take_ghost s i g))"
      "set (cg_avail (take_ghost s i g)) = {t \<in> set (cg_segs g). cg_pool (take_ghost s i g) t \<noteq> []}"
    by (rule take_page_lists [OF b sa])
  let ?pg = "PageAt s i" and ?x = "fresh_page owner cls bs p" and ?g = "take_ghost s i g"
  let ?st1 = "pool_taken s x p st" and ?st3 = "upd_central (\<lambda>g. g\<lparr>cs_pages_in_use := cs_pages_in_use g + 1\<rparr>) st2"
  let ?st = "set_page ?pg ?x ?st3"
  note lr = link_frame_rest [OF lf]
  have "bs \<noteq> 0" using bs by (auto simp: class_size_ok_def)
  then have e: "take_page owner cls bs st = Some (?pg, ?st)"
    by (rule take_page_unfold [of st x i p bs st2, unfolded 1(1), OF 1(4-6) _ 1(8) lf])
  have pq: "get_page q st2 = get_page q st" for q using lr(4) by (simp add: pool_taken_def)
  have st1: "outer_frame st ?st1" "reg_exact ?st1 = reg_exact st" "world_ok K R ?st1 (set (cg_segs g))" "st_os ?st1 = st_os st"
    "st_registry ?st1 = st_registry st"
    using 1(4) f(5) by (simp_all add: pool_taken_def outer_frame_def set_seg_frames)
  have out: "outer_frame st ?st"
    using outer_frame_trans [OF st1(1) link_frame_outer [OF lf]] by (simp add: outer_frame_def)
  have os: "st_os ?st = st_os st" "st_registry ?st = st_registry st" "reg_exact ?st = reg_exact st"
    using lr(2,3) st1 link_frame_exact [OF lf] by simp_all
  have pin: "?pg \<in> pooled g" using 1(2,3) by simp
  have pa: "parts g {}" using f(1) by (simp add: central_core_def)
  have no: "?pg \<notin> set (cg_aband g)" "?pg \<notin> cg_out g" using pa pin unfolding parts_def by blast+
  have pl: "pooled ?g = pooled (g\<lparr>cg_pool := (cg_pool g)(s := is)\<rparr>)" using 1(3) by (simp add: pooled_def)
  have core': "central_core ?st ?g {}"
  proof (rule core_change [OF core])
    have np: "?pg \<notin> pooled (g\<lparr>cg_pool := (cg_pool g)(s := is)\<rparr>)" using core by (auto simp: central_core_def parts_def)
    then show "pg_nx ?st q = pg_nx st2 q" if "q \<in> pooled (g\<lparr>cg_pool := (cg_pool g)(s := is)\<rparr>)" for q
      using that by (auto simp: pg_nx_def)
    have "linked NullPage (pg_nx ?st) h (cg_aband g) NullPage = linked NullPage (pg_nx st2) h (cg_aband g) NullPage" for h
      by (rule linked_cong) (use no in \<open>auto simp: pg_nx_def\<close>)
    then show "linked NullPage (pg_nx ?st) (cs_abandoned (st_central ?st)) (cg_aband ?g) NullPage"
      using core by (simp add: central_core_def)
    show "parts ?g {}" using core no unfolding central_core_def parts_def pl by auto
  qed (use 1(3,6) pq in \<open>auto simp: fresh_page_def\<close>)
  have lists: "central_lists ?st ?g {}" using core' av by (simp add: central_lists_def avail_list_def)
  have "central_counts (st_central ?st) ?g (card (full_segs ?g))"
  proof -
    have "(st_central st2)\<lparr>cs_segments := 0, cs_avail := 0\<rparr> = (st_central ?st1)\<lparr>cs_segments := 0, cs_avail := 0\<rparr>"
      using lf by (simp add: link_frame_def)
    from arg_cong [OF this, of "\<lambda>C. central_counts (C\<lparr>cs_pages_in_use := cs_pages_in_use C + 1\<rparr>) ?g (card (full_segs ?g))"]
    show ?thesis using take_counts [OF b 1(2,3,7), of p] by (simp add: central_counts_def)
  qed
  moreover have "world_ok K R ?st (set (cg_segs ?g))" using st1(3) link_frame_world [OF lf] by simp
  moreover have "page_good ?st q" if "q \<in> set (cg_aband g)" for q
  proof -
    have "page_good ?st q = page_good st q"
      by (rule pblocks_cong(2)) (use that no pq os(1) in \<open>auto simp: same_area_def\<close>)
    then show ?thesis using f(6) that by simp
  qed
  ultimately have b': "base_inv K R ?st ?g {}" using lists by (simp add: base_inv_def)
  have "cache_ok ?g" using c take_ghost_counts(2,3) [OF f(1) 1(2,3)]
    by (cases "length (cg_pool g s) = 63") (simp_all add: cache_ok_def)
  moreover have "page_unused ?x"
    by (rule fresh_page_unused [OF b _ 1(6) bs]) (use pin seg_pages_parts [OF f(1)] in blast)
  ultimately show ?thesis using e b' pin out os pq
    by (intro exI [of _ ?pg] exI [of _ p] exI [of _ ?st] exI [of _ ?g]) auto
qed

section \<open>The entry points\<close>

definition acquired :: "heap_ptr \<Rightarrow> u32 \<Rightarrow> u32 \<Rightarrow> State \<Rightarrow> page_ptr \<Rightarrow> bool" where
  "acquired owner cls bs st pg \<longleftrightarrow> (\<exists>x. get_page pg st = Some x \<and> page_unused x \<and> pg_owner x = owner \<and>
     pg_size_class x = cls \<and> pg_block_size x = bs \<and> pg_next x = NullPage \<and> pg_prev x = NullPage \<and> pg_in_use x)"

lemma keeps_refl: "keeps R P st st"
  by (simp add: keeps_def same_area_def)

lemma reg_frame_refl: "reg_frame st st"
  by (simp add: reg_frame_def)

lemma take_keeps:
  assumes "outer_frame st st'" "st_os st' = st_os st" "\<forall>q. q \<noteq> pg \<longrightarrow> get_page q st' = get_page q st"
    "pg \<notin> P" "pg \<notin> set (cg_aband g)" "cg_aband g' = cg_aband g"
  shows "keeps R P st st'" "aband_frame st g st' g'"
proof -
  have "get_page p st' = get_page p st" if "p \<in> P \<union> set (cg_aband g)" for p
    by (rule assms(3) [rule_format]) (use assms(4,5) that in auto)
  then show "keeps R P st st'" using assms(1,2) by (simp add: keeps_def same_area_def)
  have "pblocks st' p = pblocks st p \<and> page_owner st' p = page_owner st p" if "p \<in> set (cg_aband g)" for p
  proof
    show "pblocks st' p = pblocks st p" by (rule pblocks_cong(1)) (use assms that in \<open>auto simp: same_area_def\<close>)
    have "p \<noteq> pg" using that assms(5) by blast
    then show "page_owner st' p = page_owner st p" using assms(3) by (simp add: page_owner_def)
  qed
  then show "aband_frame st g st' g'" using assms(2,6) by (simp add: aband_frame_def aband_blocks_def)
qed

text \<open>The first part: make a segment available.\<close>

definition make_avail :: "kernel \<Rightarrow> State \<Rightarrow> (bool \<times> State) option" where
  "make_avail K st = (if cs_avail (st_central st) = 0 then do {
       st \<leftarrow> sweep_abandoned K st;
       if cs_avail (st_central st) = 0 then map_segment K st else Some (True, st) }
     else Some (True, st))"

lemma avail_null: "base_inv K R st g L \<Longrightarrow> cs_avail (st_central st) = 0 \<longleftrightarrow> cg_avail g = []"
  using base_inv_facts(2) dlist_nul linked_nonnul unfolding avail_list_def dlist_def
  by (metis linked.simps(1) linked_start list.distinct(1))

lemma make_avail_ok:
  assumes b: "base_inv K R st g {}" and r: "roomy (st_registry st)" and c: "cache_ok g"
  shows "\<exists>ok st' g'. make_avail K st = Some (ok, st') \<and> base_inv K R st' g' {} \<and> cache_ok g' \<and>
    keeps R (cg_out g) st st' \<and> cg_out g' = cg_out g \<and> aband_frame st g st' g' \<and>
    (ok \<longleftrightarrow> cg_avail g' \<noteq> []) \<and> (\<not> ok \<longrightarrow> reg_frame st st' \<and> seg_refused K st) \<and>
    registry_step st st'"
proof (cases "cs_avail (st_central st) = 0")
  case False
  then have "make_avail K st = Some (True, st)" "cg_avail g \<noteq> []" using avail_null [OF b] by (simp_all add: make_avail_def)
  then show ?thesis using b c keeps_refl sweep_frame_refl [of R st g]
    by (intro exI [of _ True] exI [of _ st] exI [of _ g]) (simp add: sweep_frame_def reg_frame_step)
next
  case True
  obtain st1 g1 where 1: "sweep_loop K (link_of []) st = Some st1" "base_inv K R st1 g1 {}" "cache_ok g1" "sweep_frame R st g st1 g1"
    using sweep_loop_ok [OF b r c, of "[]" "cg_aband g"] by auto
  have e1: "sweep_abandoned K st = Some st1" using 1(1) by (simp add: sweep_abandoned_def link_of_def)
  have s1: "keeps R (cg_out g) st st1" "reg_frame st st1" "cg_out g1 = cg_out g" "aband_frame st g st1 g1"
    using 1(4) by (simp_all add: sweep_frame_def)
  show ?thesis
  proof (cases "cs_avail (st_central st1) = 0")
    case False
    then have "make_avail K st = Some (True, st1)" "cg_avail g1 \<noteq> []"
      using True e1 avail_null [OF 1(2)] by (simp_all add: make_avail_def)
    then show ?thesis using 1 s1
      by (intro exI [of _ True] exI [of _ st1] exI [of _ g1]) (simp add: reg_frame_step)
  next
    case a: True
    then have n: "cg_avail g1 = []" using avail_null [OF 1(2)] by simp
    have r1: "roomy (st_registry st1)" using r s1(2) by (simp add: reg_frame_def)
    obtain ok st2 g2 where 2: "map_segment K st1 = Some (ok, st2)" "base_inv K R st2 g2 {}" "cache_ok g2"
      "keeps R (cg_out g1) st1 st2" "cg_out g2 = cg_out g1" "aband_frame st1 g1 st2 g2" "ok \<longleftrightarrow> cg_avail g2 \<noteq> []"
      "\<not> ok \<longrightarrow> reg_frame st1 st2 \<and> seg_refused K st1" "registry_step st1 st2"
      using map_segment_ok [OF 1(2) r1 n] by blast
    have "make_avail K st = Some (ok, st2)" using True a e1 2(1) by (simp add: make_avail_def)
    moreover have "keeps R (cg_out g) st st2" using keeps_trans [OF s1(1)] 2(4) s1(3) by simp
    moreover have "aband_frame st g st2 g2" by (rule aband_frame_trans [OF s1(4) 2(6)])
    moreover have "reg_frame st st2 \<and> seg_refused K st" if "\<not> ok"
      using reg_frame_trans [OF s1(2)] seg_refused_back [of st st1] s1(2) 2(8) that by (auto simp: reg_frame_def)
    ultimately show ?thesis using 2 s1 reg_frame_step_trans [OF s1(2) 2(9)]
      by (intro exI [of _ ok] exI [of _ st2] exI [of _ g2]) simp
  qed
qed

lemma central_acquire_page_ok:
  assumes b: "base_inv K R st g {}" and r: "roomy (st_registry st)" and c: "cache_ok g" and bs: "class_size_ok bs"
  shows "\<exists>pg st' g'. central_acquire_page K owner cls bs st = Some (pg, st') \<and> base_inv K R st' g' {} \<and> cache_ok g' \<and>
    keeps R (cg_out g) st st' \<and> aband_frame st g st' g' \<and>
    (if pg = NullPage then cg_out g' = cg_out g \<and> reg_frame st st' \<and> seg_refused K st
     else pg \<notin> cg_out g \<and> cg_out g' = insert pg (cg_out g) \<and> acquired owner cls bs st' pg) \<and>
    registry_step st st'"
proof -
  obtain ok st1 g1 where 1: "make_avail K st = Some (ok, st1)" "base_inv K R st1 g1 {}" "cache_ok g1"
    "keeps R (cg_out g) st st1" "cg_out g1 = cg_out g" "aband_frame st g st1 g1"
    "ok \<longleftrightarrow> cg_avail g1 \<noteq> []" "\<not> ok \<longrightarrow> reg_frame st st1 \<and> seg_refused K st"
    "registry_step st st1"
    using make_avail_ok [OF b r c] by blast
  have e: "central_acquire_page K owner cls bs st = (if \<not> ok then Some (NullPage, st1) else take_page owner cls bs st1)"
    unfolding central_acquire_page_def make_avail_def [symmetric] using 1(1) by simp
  show ?thesis
  proof (cases ok)
    case False
    then show ?thesis using e 1 by (intro exI [of _ NullPage] exI [of _ st1] exI [of _ g1]) simp
  next
    case True
    obtain pg x st2 g2 where 2: "take_page owner cls bs st1 = Some (pg, st2)" "base_inv K R st2 g2 {}" "cache_ok g2"
      "pg \<in> pooled g1" "cg_out g2 = insert pg (cg_out g1)" "cg_aband g2 = cg_aband g1"
      "get_page pg st2 = Some (fresh_page owner cls bs x)" "page_unused (fresh_page owner cls bs x)"
      "\<forall>q. q \<noteq> pg \<longrightarrow> get_page q st2 = get_page q st1" "outer_frame st1 st2" "st_os st2 = st_os st1"
      "st_registry st2 = st_registry st1" "reg_exact st2 = reg_exact st1"
      using take_page_ok [OF 1(2,3) _ bs] True 1(7) by blast
    have pa: "parts g1 {}" using base_inv_facts(1) [OF 1(2)] by (simp add: central_core_def)
    then have no: "pg \<notin> cg_out g" "pg \<notin> set (cg_aband g1)" using 2(4) 1(5) unfolding parts_def by blast+
    have nn: "pg \<noteq> NullPage" using 2(4) by (cases pg) auto
    note t = take_keeps [OF 2(10,11,9) no(1) no(2) 2(6)]
    have ks: "keeps R (cg_out g) st st2" "aband_frame st g st2 g2"
      using keeps_trans [OF 1(4) t(1)] aband_frame_trans [OF 1(6) t(2)] by simp_all
    have "registry_step st st2" using 1(9) 2(12,13) by (simp add: registry_step_def)
    moreover have "acquired owner cls bs st2 pg" using 2(7,8) by (simp add: acquired_def fresh_page_def)
    ultimately show ?thesis using e True 1(5) 2 no nn ks
      by (intro exI [of _ pg] exI [of _ st2] exI [of _ g2]) simp
  qed
qed

lemma central_release_page_ok:
  assumes b: "base_inv K R st g {}" and r: "roomy (st_registry st)" and c: "cache_ok g" and p: "p \<in> cg_out g"
  shows "\<exists>st' g'. central_release_page K p st = Some st' \<and> base_inv K R st' g' {} \<and> cache_ok g' \<and>
    cg_out g' = cg_out g - {p} \<and> cg_aband g' = cg_aband g \<and> keeps R (cg_out g - {p}) st st' \<and>
    aband_frame st g st' g' \<and> reg_frame st st' \<and> st_mem st' = st_mem st"
proof -
  note f = base_inv_facts [OF b]
  let ?st = "upd_central (\<lambda>g. g\<lparr>cs_pages_in_use := cs_pages_in_use g - 1\<rparr>) st" and ?g = "g\<lparr>cg_out := cg_out g - {p}\<rparr>"
  have pa: "parts g {}" using f(1) by (simp add: central_core_def)
  then have "parts ?g {p}" using p by (auto simp: parts_def)
  then have core: "central_core ?st ?g {p}" using f(1) by (simp add: central_core_def)
  have fin: "finite (cg_out g)" by (rule pages_bound(1) [OF f(1)]) (use pa in \<open>auto simp: parts_def\<close>)
  then have "card (cg_out g) = Suc (card (cg_out g - {p}))" using card.remove [OF _ p] by simp
  then have "unat (cs_pages_in_use (st_central st) - 1) = card (cg_out g - {p})"
    using f(4) by (simp add: central_counts_def unat_sub word_le_nat_alt)
  then have "central_counts (st_central ?st) ?g (card (full_segs ?g))"
    using f(4) by (simp add: central_counts_def free_pages_def full_segs_def)
  then have b': "base_inv K R ?st ?g {p}"
    using core f(2,3,5,6) by (simp add: base_inv_def central_lists_def avail_list_def)
  have "roomy (st_registry ?st)" "cache_ok ?g" using r c by (simp_all add: cache_ok_def full_segs_def)
  then obtain st' g' where 1: "pool_return K p ?st = Some st'" "base_inv K R st' g' {}" "cache_ok g'" "pool_frame ?st ?g st' g'"
    using pool_return_ok [OF b'] by blast
  have "sweep_frame R ?st ?g st' g'" by (rule pool_frame_sweep [OF 1(4)])
  moreover have "aband_blocks ?st ?g = aband_blocks st g" by (simp add: aband_blocks_def)
  ultimately have "keeps R (cg_out g - {p}) st st'" "reg_frame st st'" "aband_frame st g st' g'"
    by (simp_all add: sweep_frame_defs page_owner_def no_new_map_def)
  moreover have "cg_out g' = cg_out g - {p}" "cg_aband g' = cg_aband g" "st_mem st' = st_mem st"
    using 1(4) by (simp_all add: pool_frame_def)
  ultimately show ?thesis using 1 by (intro exI [of _ st'] exI [of _ g']) (simp add: central_release_page_def)
qed

lemma central_abandon_page_ok:
  assumes b: "base_inv K R st g {}" and c: "cache_ok g" and p: "p \<in> cg_out g" "page_good st p"
  shows "\<exists>st' x. central_abandon_page p st = Some st' \<and>
    base_inv K R st' (g\<lparr>cg_out := cg_out g - {p}, cg_aband := p # cg_aband g\<rparr>) {} \<and>
    outer_frame st st' \<and> st_os st' = st_os st \<and> st_registry st' = st_registry st \<and> reg_exact st' = reg_exact st \<and>
    (\<forall>q. q \<noteq> p \<longrightarrow> get_page q st' = get_page q st) \<and>
    get_page p st' = Some x \<and> pg_owner x = AbandonedOwner \<and> (\<forall>q. pblocks st' q = pblocks st q)"
proof -
  note f = base_inv_facts [OF b]
  let ?g = "g\<lparr>cg_out := cg_out g - {p}, cg_aband := p # cg_aband g\<rparr>"
  obtain x where x: "get_page p st = Some x" using p(2) by (auto simp: page_good_def)
  let ?x = "x\<lparr>pg_owner := AbandonedOwner, pg_prev := NullPage, pg_next := cs_abandoned (st_central st)\<rparr>"
  let ?st = "upd_central (\<lambda>g. g\<lparr>cs_abandoned := p, cs_abandoned_count := cs_abandoned_count g + 1,
       cs_pages_in_use := cs_pages_in_use g - 1\<rparr>) (set_page p ?x st)"
  have e: "central_abandon_page p st = Some ?st" using x by (simp add: central_abandon_page_def upd_page_def)
  have pa: "parts g {}" using f(1) by (simp add: central_core_def)
  have no: "p \<notin> pooled g" "p \<notin> set (cg_aband g)" using pa p(1) unfolding parts_def by blast+
  have "p \<in> pooled g \<union> set (cg_aband g) \<union> cg_out g \<union> {}" using p(1) by simp
  then obtain a j where pp: "p = PageAt a j" by (rule page_core [OF f(1)])
  have nx: "pg_nx ?st = (pg_nx st)(p := cs_abandoned (st_central st))" by (simp add: pg_nx_def fun_eq_iff)
  have core: "central_core ?st ?g {}"
  proof (rule core_change [OF f(1)])
    show "parts ?g {}" using pa p(1) by (auto simp: parts_def)
    show "linked NullPage (pg_nx ?st) (cs_abandoned (st_central ?st)) (cg_aband ?g) NullPage"
      using f(1) no(2) pp unfolding nx by (simp add: central_core_def)
    show "pg_nx ?st q = pg_nx st q" if "q \<in> pooled g" for q using that no nx by auto
  qed (use x in auto)
  have body: "map_option page_body (get_page q ?st) = map_option page_body (get_page q st)" for q
    using x by (simp add: page_body_def)
  have pb: "pblocks ?st q = pblocks st q" "page_good ?st q = page_good st q" for q
    using pblocks_body [OF body] by simp_all
  have sub: "cg_out g \<subseteq> seg_pages (set (cg_segs g))" "set (cg_aband g) \<subseteq> seg_pages (set (cg_segs g))" using pa by (auto simp: parts_def)
  have "card (cg_out g) = Suc (card (cg_out g - {p}))" using card.remove [OF pages_bound(1) [OF f(1) sub(1)] p(1)] by simp
  then have "unat (cs_pages_in_use (st_central st) - 1) = card (cg_out g - {p})"
    using f(4) by (simp add: central_counts_def unat_sub word_le_nat_alt)
  moreover have "distinct (cg_aband g)" using f(1) linked_distinct [of NullPage "pg_nx st"] unfolding central_core_def by blast
  then have "length (cg_aband g) < 2 ^ 48" using pages_bound(3) [OF f(1) sub(2)] by (simp add: distinct_card)
  then have "unat (cs_abandoned_count (st_central st) + 1) = Suc (length (cg_aband g))"
    using f(4) by (simp add: central_counts_def unat_word_ariths)
  ultimately have "central_counts (st_central ?st) ?g (card (full_segs ?g))"
    using f(4) by (simp add: central_counts_def free_pages_def full_segs_def)
  then have "base_inv K R ?st ?g {}"
    using core f(2,3,5,6) p(2) pb(2) by (simp add: base_inv_def central_lists_def avail_list_def)
  then show ?thesis using e pb(1) pp by (intro exI [of _ ?st] exI [of _ ?x]) (simp add: outer_frame_def)
qed

section \<open>The contract towards the heaps\<close>

text \<open>What a client of the central heap relies on: an acquired page is not one of those it holds, and
  a page it gives back is no longer held.\<close>

locale page_source =
  fixes holds :: "'s \<Rightarrow> page_ptr set \<Rightarrow> bool" and room :: "'s \<Rightarrow> bool"
    and acquire :: "'s \<Rightarrow> (page_ptr \<times> 's) option" and release :: "page_ptr \<Rightarrow> 's \<Rightarrow> 's option"
  assumes acquire_ok: "holds s P \<Longrightarrow> room s \<Longrightarrow>
      \<exists>p s'. acquire s = Some (p, s') \<and> (if p = NullPage then holds s' P else p \<notin> P \<and> holds s' (insert p P))"
    and release_ok: "holds s P \<Longrightarrow> room s \<Longrightarrow> p \<in> P \<Longrightarrow> \<exists>s'. release p s = Some s' \<and> holds s' (P - {p}) \<and> room s'"
begin

lemma acquire_release:
  assumes "holds s P" "room s" "acquire s = Some (p, s')" "p \<noteq> NullPage" "room s'"
  shows "\<exists>s''. release p s' = Some s'' \<and> holds s'' P \<and> room s''"
proof -
  have "p \<notin> P" "holds s' (insert p P)" using acquire_ok [OF assms(1,2)] assms(3,4) by auto
  then show ?thesis using release_ok [of s' "insert p P" p] assms(5) by simp
qed

lemma release_pages:
  assumes "holds s P" "room s" "distinct ps" "set ps \<subseteq> P"
  shows "\<exists>s'. run_ops release ps s = Some s' \<and> holds s' (P - set ps) \<and> room s'"
  using assms
proof (induction ps arbitrary: s P)
  case (Cons p ps)
  then obtain s' where 1: "release p s = Some s'" "holds s' (P - {p})" "room s'" using release_ok [OF Cons.prems(1,2), of p] by auto
  have "set ps \<subseteq> P - {p}" using Cons.prems(3,4) by auto
  then obtain s'' where "run_ops release ps s' = Some s''" "holds s'' (P - {p} - set ps)" "room s''"
    using Cons.IH [OF 1(2,3)] Cons.prems(3) by auto
  moreover have "P - {p} - set ps = P - set (p # ps)" by auto
  ultimately show ?case using 1(1) by simp
qed simp

end

definition central_holds :: "kernel \<Rightarrow> (addr \<times> u64) set \<Rightarrow> u32 \<Rightarrow> State \<Rightarrow> page_ptr set \<Rightarrow> bool" where
  "central_holds K R bs st P \<longleftrightarrow> class_size_ok bs \<and> (\<exists>g. base_inv K R st g {} \<and> cache_ok g \<and> cg_out g = P)"

lemma central_holds_count: "central_holds K R bs st P \<Longrightarrow> unat (cs_pages_in_use (st_central st)) = card P"
  using base_inv_facts(4) unfolding central_holds_def by (fastforce simp: central_counts_def)

interpretation pages: page_source "central_holds K R bs" "\<lambda>st. roomy (st_registry st)"
  "central_acquire_page K owner cls bs" "central_release_page K" for K R owner cls bs
proof (unfold_locales, goal_cases)
  case (1 s P)
  then obtain g where g: "class_size_ok bs" "base_inv K R s g {}" "cache_ok g" "cg_out g = P" by (auto simp: central_holds_def)
  obtain p s' g' where p: "central_acquire_page K owner cls bs s = Some (p, s')" "base_inv K R s' g' {}" "cache_ok g'"
    "if p = NullPage then cg_out g' = P else p \<notin> P \<and> cg_out g' = insert p P"
    using central_acquire_page_ok [OF g(2) 1(2) g(3,1), of owner cls] g(4) by (auto split: if_splits)
  then show ?case using g(1) unfolding central_holds_def by (intro exI [of _ p] exI [of _ s']) auto
next
  case (2 s P p)
  then obtain g where g: "class_size_ok bs" "base_inv K R s g {}" "cache_ok g" "cg_out g = P" by (auto simp: central_holds_def)
  obtain s' g' where "central_release_page K p s = Some s'" "base_inv K R s' g' {}" "cache_ok g'" "cg_out g' = P - {p}" "reg_frame s s'"
    using central_release_page_ok [OF g(2) 2(2) g(3), of p] 2(3) g(4) by blast
  then show ?case using g(1) 2(2) unfolding central_holds_def reg_frame_def by blast
qed

end
