(* ===== verification/Heap_Inv.thy ===== *)
theory Heap_Inv
  imports Central_Correct Thread_Heap
begin

text \<open>
  The invariant of the thread heaps (src/src/heap.h, src/src/heap.cpp): every page handed out
  is on exactly one list, that of its owner and its class; the heads of the lists serve the
  fast path; the heaps are on the registry of heaps. The lemmas relate it to the central
  heap's invariant and to the live blocks.
\<close>

section \<open>The invariant\<close>

definition heap_regs :: "kernel \<Rightarrow> State \<Rightarrow> (addr \<times> u64) set" where
  "heap_regs K st = (\<lambda>a. (a, heap_bytes K)) ` dom (st_heaps st)"

definition large_regs :: "State \<Rightarrow> (addr \<times> u64) set" where
  "large_regs st = {(a, lh_mmap_size h) |a h. get_large a st = Some h}"

abbreviation regs :: "kernel \<Rightarrow> State \<Rightarrow> (addr \<times> u64) set" where
  "regs K st \<equiv> heap_regs K st \<union> large_regs st"

text \<open>The lists of one heap, and the pages on them.\<close>

definition heap_lists :: "State \<Rightarrow> Heap \<Rightarrow> (nat \<Rightarrow> page_ptr list) \<Rightarrow> bool" where
  "heap_lists st x ls \<longleftrightarrow> length (hp_pages x) = 36 \<and>
     (\<forall>c < 36. if ls c = [] then hp_pages x ! c = EmptyPage
       else dlist NullPage (pg_nx st) (pg_pv st) (hp_pages x ! c) (ls c))"

definition owned :: "State \<Rightarrow> addr \<Rightarrow> nat \<Rightarrow> page_ptr \<Rightarrow> bool" where
  "owned st a c p \<longleftrightarrow> page_good st p \<and> (\<exists>x. get_page p st = Some x \<and> pg_owner x = HeapAt a \<and>
     unat (pg_size_class x) = c \<and> pg_block_size x = class_sizes ! c)"

type_synonym hghost = "addr \<Rightarrow> nat \<Rightarrow> page_ptr list"

definition heaps_ok :: "State \<Rightarrow> page_ptr set \<Rightarrow> hghost \<Rightarrow> bool" where
  "heaps_ok st P hl \<longleftrightarrow> (\<forall>a x. st_heaps st a = Some x \<longrightarrow> heap_lists st x (hl a)) \<and>
     (\<forall>a \<in> dom (st_heaps st). \<forall>c < 36. \<forall>p \<in> set (hl a c). owned st a c p) \<and>
     P = {p. \<exists>a \<in> dom (st_heaps st). \<exists>c < 36. p \<in> set (hl a c)} \<and>
     get_page EmptyPage st = Some zero_page"

definition hp_nx :: "State \<Rightarrow> heap_ptr \<Rightarrow> heap_ptr" where
  "hp_nx st h = (case get_heap h st of Some (a, x) \<Rightarrow> hp_reg_next x | None \<Rightarrow> NullHeap)"

definition threads_ok :: "State \<Rightarrow> bool" where
  "threads_ok st \<longleftrightarrow> (\<forall>t. st_t_heap st t \<noteq> NullHeap \<longrightarrow> (\<exists>a \<in> dom (st_heaps st). st_t_heap st t = HeapAt a)) \<and>
     (\<forall>t u. st_t_heap st t = st_t_heap st u \<longrightarrow> st_t_heap st t \<noteq> NullHeap \<longrightarrow> t = u) \<and>
     (\<exists>hs. linked NullHeap (hp_nx st) (st_g_registry st) (map HeapAt hs) NullHeap \<and> set hs = dom (st_heaps st))"

text \<open>No thread owns an abandoned page.\<close>

definition aband_owned :: "State \<Rightarrow> cghost \<Rightarrow> bool" where
  "aband_owned st g \<longleftrightarrow> (\<forall>p \<in> set (cg_aband g). page_owner st p = Some AbandonedOwner)"

definition heap_inv :: "kernel \<Rightarrow> State \<Rightarrow> cghost \<Rightarrow> hghost \<Rightarrow> bool" where
  "heap_inv K st g hl \<longleftrightarrow> base_inv K (regs K st) st g {} \<and> cache_ok g \<and> heaps_ok st (cg_out g) hl \<and>
     threads_ok st \<and> heap_regs K st \<inter> large_regs st = {} \<and> aband_owned st g"

text \<open>The live small blocks.\<close>

definition small_live :: "State \<Rightarrow> cghost \<Rightarrow> (addr \<times> u64) set" where
  "small_live st g = (\<Union>p \<in> cg_out g. pblocks st p) \<union> aband_blocks st g"

section \<open>Frames\<close>

lemma outer_regs: "outer_frame st st' \<Longrightarrow> heap_regs K st' = heap_regs K st \<and> large_regs st' = large_regs st"
  by (simp add: outer_frame_def heap_regs_def large_regs_def)

lemma outer_threads: "outer_frame st st' \<Longrightarrow> threads_ok st' = threads_ok st"
proof -
  assume o: "outer_frame st st'"
  then have "hp_nx st' = hp_nx st" by (simp add: fun_eq_iff hp_nx_def get_heap_def outer_frame_def split: heap_ptr.splits)
  then show ?thesis using o by (simp add: threads_ok_def outer_frame_def)
qed

lemma heaps_in:
  assumes "heaps_ok st P hl" "st_heaps st a = Some x" "c < 36" "p \<in> set (hl a c)"
  shows "p \<in> P" "owned st a c p"
proof -
  have "a \<in> dom (st_heaps st)" using assms(2) by blast
  then show "p \<in> P" "owned st a c p" using assms unfolding heaps_ok_def by blast+
qed

lemma heaps_out:
  assumes "heaps_ok st P hl" "p \<in> P"
  obtains a c h x where "st_heaps st a = Some h" "c < 36" "p \<in> set (hl a c)" "page_good st p" "get_page p st = Some x"
    "pg_owner x = HeapAt a" "unat (pg_size_class x) = c" "pg_block_size x = class_sizes ! c"
proof -
  obtain a h c where 1: "st_heaps st a = Some h" "c < 36" "p \<in> set (hl a c)" using assms by (auto simp: heaps_ok_def)
  have "owned st a c p" by (rule heaps_in(2) [OF assms(1) 1])
  then show thesis using that 1 by (auto simp: owned_def)
qed

text \<open>A change that keeps the list links, the owner and class of the pages handed out, and
  that they are well formed.\<close>

lemma heaps_ok_cong:
  assumes h: "heaps_ok st P hl" and hp: "st_heaps st' = st_heaps st" "get_page EmptyPage st' = get_page EmptyPage st"
    and pg: "\<And>p x. p \<in> P \<Longrightarrow> get_page p st = Some x \<Longrightarrow> \<exists>x'. get_page p st' = Some x' \<and> pg_next x' = pg_next x \<and>
      pg_prev x' = pg_prev x \<and> pg_owner x' = pg_owner x \<and> pg_size_class x' = pg_size_class x \<and> pg_block_size x' = pg_block_size x"
    and good: "\<And>p. p \<in> P \<Longrightarrow> page_good st' p"
  shows "heaps_ok st' P hl"
proof -
  have "owned st' a c p" if p: "a \<in> dom (st_heaps st)" "c < 36" "p \<in> set (hl a c)" for a c p
  proof -
    obtain y where y: "st_heaps st a = Some y" using p(1) by blast
    note i = heaps_in [OF h y p(2,3)]
    obtain x where x: "get_page p st = Some x" "pg_owner x = HeapAt a" "unat (pg_size_class x) = c" "pg_block_size x = class_sizes ! c"
      using i(2) by (auto simp: owned_def)
    then show ?thesis using pg [OF i(1) x(1)] good [OF i(1)] by (auto simp: owned_def)
  qed
  moreover have "heap_lists st' x (hl a)" if a: "st_heaps st a = Some x" for a x
  proof -
    have l: "pg_nx st' p = pg_nx st p" "pg_pv st' p = pg_pv st p" if "c < 36" "p \<in> set (hl a c)" for c p
    proof -
      note i = heaps_in [OF h a that]
      obtain y where "get_page p st = Some y" using i(2) by (auto simp: owned_def)
      then show "pg_nx st' p = pg_nx st p" "pg_pv st' p = pg_pv st p" using pg [OF i(1)] by (auto simp: pg_nx_def pg_pv_def)
    qed
    have "dlist NullPage (pg_nx st') (pg_pv st') h (hl a c) = dlist NullPage (pg_nx st) (pg_pv st) h (hl a c)" if "c < 36" for c h
      by (rule dlist_cong) (use l that in auto)
    moreover have "heap_lists st x (hl a)" using h a by (simp add: heaps_ok_def)
    ultimately show ?thesis by (simp add: heap_lists_def)
  qed
  ultimately show ?thesis using h hp by (simp add: heaps_ok_def)
qed

lemma keeps_heaps:
  assumes h: "heaps_ok st P hl" and k: "keeps R P st st'"
  shows "heaps_ok st' P hl"
proof (rule heaps_ok_cong [OF h])
  have o: "outer_frame st st'" and p: "\<And>p. p \<in> P \<Longrightarrow> get_page p st' = get_page p st"
    "\<And>p x. p \<in> P \<Longrightarrow> get_page p st = Some x \<Longrightarrow> same_area (pg_area x) (st_mem st) (st_mem st')"
    using k by (auto simp: keeps_def)
  show "st_heaps st' = st_heaps st" "get_page EmptyPage st' = get_page EmptyPage st" using o by (simp_all add: outer_frame_def)
  show "page_good st' q" if "q \<in> P" for q
  proof -
    have "page_good st q" by (rule heaps_out [OF h that])
    then show ?thesis using pblocks_cong(2) [of q st' st] p that by blast
  qed
  show "\<exists>x'. get_page q st' = Some x' \<and> pg_next x' = pg_next x \<and> pg_prev x' = pg_prev x \<and> pg_owner x' = pg_owner x \<and>
      pg_size_class x' = pg_size_class x \<and> pg_block_size x' = pg_block_size x" if "q \<in> P" "get_page q st = Some x" for q x
    using p(1) that by simp
qed

section \<open>Live blocks\<close>

definition used_pages :: "cghost \<Rightarrow> page_ptr set" where
  "used_pages g = cg_out g \<union> set (cg_aband g)"

lemma small_live_used: "small_live st g = (\<Union>p \<in> used_pages g. pblocks st p)"
  by (auto simp: small_live_def aband_blocks_def used_pages_def)

lemma used_seg_pages: "central_core st g L \<Longrightarrow> used_pages g \<subseteq> seg_pages (set (cg_segs g))"
  using seg_pages_parts by (auto simp: used_pages_def)

lemma pblocks_nonempty:
  assumes "c \<in> pblocks st p"
  shows "fst c \<in> region_set c" "snd c \<noteq> 0"
proof -
  obtain b x fl tf where c: "c = (b, ucast (pg_block_size x))" "page_ok (st_mem st) x fl tf"
    using assms by (auto simp: pblocks_def)
  then have "16 \<le> unat (pg_block_size x)" by (simp add: page_ok_def page_geometry_def)
  then have "unat (ucast (pg_block_size x) :: u64) \<noteq> 0" by simp
  then show "snd c \<noteq> 0" using c(1) by (metis snd_conv unat_0)
  then show "fst c \<in> region_set c" using region_set_nonempty [of "snd c" "fst c"] by simp
qed

text \<open>Any two live blocks are disjoint.\<close>

lemma blocks_disjoint:
  assumes c: "central_core st g L" and p: "p \<in> seg_pages (set (cg_segs g))" "q \<in> seg_pages (set (cg_segs g))"
    and b: "b \<in> pblocks st p" "d \<in> pblocks st q" "b \<noteq> d \<or> p \<noteq> q"
  shows "region_set b \<inter> region_set d = {}"
proof (rule ccontr)
  assume "region_set b \<inter> region_set d \<noteq> {}"
  then obtain a where a: "a \<in> region_set b" "a \<in> region_set d" by blast
  obtain x where x: "get_page p st = Some x" using b(1) by (auto simp: pblocks_def)
  obtain y where y: "get_page q st = Some y" using b(2) by (auto simp: pblocks_def)
  note ar = pblocks_area [OF x b(1) a(1)] pblocks_area [OF y b(2) a(2)]
  show False
  proof (cases "p = q")
    case False
    then show False using area_disjoint [OF c p False x y ar(1)] ar(2) by simp
  next
    case True
    obtain fl tf where ok: "page_ok (st_mem st) x fl tf" using b(1) x by (auto simp: pblocks_def)
    obtain u v where uv: "b = (u, ucast (pg_block_size x))" "d = (v, ucast (pg_block_size x))" "u \<in> page_blocks x" "v \<in> page_blocks x"
      using b(1,2) pblocks_eq [OF x ok] True by (auto simp: page_live_def)
    have g: "page_geometry x" using ok by (simp add: page_ok_def)
    obtain i where i: "i < unat (pg_capacity x)" "u = block_addr x i" by (rule page_blocks_capacity [OF g uv(3)])
    obtain j where j: "j < unat (pg_capacity x)" "v = block_addr x j" by (rule page_blocks_capacity [OF g uv(4)])
    have "u \<noteq> v" using b(3) True uv by auto
    then show False using block_disjoint [OF g i(1) j(1), of a] a uv i(2) j(2) by (auto simp: region_set_def)
  qed
qed

lemma small_live_disjoint:
  assumes "central_core st g L" "b \<in> small_live st g" "d \<in> small_live st g" "b \<noteq> d"
  shows "region_set b \<inter> region_set d = {}"
proof -
  obtain p where p: "p \<in> used_pages g" "b \<in> pblocks st p" using assms(2) by (auto simp: small_live_used)
  obtain q where q: "q \<in> used_pages g" "d \<in> pblocks st q" using assms(3) by (auto simp: small_live_used)
  show ?thesis using blocks_disjoint [OF assms(1) _ _ p(2) q(2)] p(1) q(1) used_seg_pages [OF assms(1)] assms(4) by blast
qed

lemma small_live_regs:
  assumes b: "base_inv K R st g L" and d: "d \<in> small_live st g" and r: "r \<in> R"
  shows "region_set d \<inter> region_set r = {}"
proof -
  obtain p where p: "p \<in> used_pages g" "d \<in> pblocks st p" using d by (auto simp: small_live_used)
  obtain x where x: "get_page p st = Some x" using p(2) by (auto simp: pblocks_def)
  have "p \<in> seg_pages (set (cg_segs g))" using used_seg_pages [OF base_inv_facts(1) [OF b]] p(1) by blast
  then show ?thesis using area_region [OF b _ x] pblocks_area [OF x p(2)] r by blast
qed

text \<open>The live blocks after the blocks of one page have changed.\<close>

lemma small_live_change:
  assumes c: "central_core st g {}" and p: "p \<in> used_pages g"
    and o: "\<And>q. q \<in> used_pages g \<Longrightarrow> q \<noteq> p \<Longrightarrow> pblocks st' q = pblocks st q"
  shows "small_live st' g = (small_live st g - pblocks st p) \<union> pblocks st' p"
proof -
  have dis: "pblocks st p \<inter> pblocks st q = {}" if "q \<in> used_pages g" "q \<noteq> p" for q
  proof (rule ccontr)
    assume "pblocks st p \<inter> pblocks st q \<noteq> {}"
    then obtain b where b: "b \<in> pblocks st p" "b \<in> pblocks st q" by blast
    have "region_set b \<inter> region_set b = {}"
      using blocks_disjoint [OF c _ _ b] that p used_seg_pages [OF c] by blast
    then show False using pblocks_nonempty(1) [OF b(1)] by blast
  qed
  have s: "small_live st g = (\<Union>q \<in> used_pages g - {p}. pblocks st q) \<union> pblocks st p" for st
    using p by (auto simp: small_live_used)
  have "(\<Union>q \<in> used_pages g - {p}. pblocks st' q) = (\<Union>q \<in> used_pages g - {p}. pblocks st q)"
    using o by (intro SUP_cong) auto
  then show ?thesis unfolding s [of st'] s [of st] using dis by blast
qed

section \<open>Steps on a page in use\<close>

text \<open>What the heap operations keep of the large allocations, and the bytes of \<open>X\<close>.\<close>

definition hframe :: "(addr \<times> u64) set \<Rightarrow> State \<Rightarrow> State \<Rightarrow> bool" where
  "hframe X st st' \<longleftrightarrow> (\<forall>a. get_large a st' = get_large a st) \<and> st_large_count st' = st_large_count st \<and>
     st_large_bytes st' = st_large_bytes st \<and> same_on X (st_mem st) (st_mem st')"

lemma hframe_refl: "hframe X st st"
  by (simp add: hframe_def)

lemma hframe_trans: "hframe X st st1 \<Longrightarrow> hframe X st1 st2 \<Longrightarrow> hframe X st st2"
  unfolding hframe_def by (metis same_on_trans)

lemma hframe_mono: "hframe X st st' \<Longrightarrow> Y \<subseteq> X \<Longrightarrow> hframe Y st st'"
  unfolding hframe_def same_on_def by blast

lemma outer_hframe: "outer_frame st st' \<Longrightarrow> same_on X (st_mem st) (st_mem st') \<Longrightarrow> hframe X st st'"
  by (simp add: outer_frame_def hframe_def)

lemma heap_inv_facts:
  assumes "heap_inv K st g hl"
  shows "base_inv K (regs K st) st g {}" "cache_ok g" "heaps_ok st (cg_out g) hl" "threads_ok st"
    "heap_regs K st \<inter> large_regs st = {}" "central_core st g {}" "aband_owned st g"
  using assms base_inv_facts(1) by (auto simp: heap_inv_def)

lemma aband_owned_frame: "aband_owned st g \<Longrightarrow> aband_frame st g st' g' \<Longrightarrow> aband_owned st' g'"
  by (simp add: aband_owned_def aband_frame_def)

lemma heap_inv_outer:
  assumes "base_inv K (regs K st) st' g' {}" "cache_ok g'" "heaps_ok st' (cg_out g') hl'" "outer_frame st st'"
    and "threads_ok st" "heap_regs K st \<inter> large_regs st = {}" "aband_owned st' g'"
  shows "heap_inv K st' g' hl'"
  using assms outer_regs [OF assms(4), of K] outer_threads [OF assms(4)] by (simp add: heap_inv_def)

lemma used_not_pooled:
  assumes "central_core st g L" "p \<in> used_pages g"
  shows "p \<notin> pooled g" "\<exists>a i. p = PageAt a i \<and> a \<in> set (cg_segs g) \<and> i \<in> {1..<64}"
proof -
  show "p \<notin> pooled g" using assms by (auto simp: central_core_def parts_def used_pages_def)
  have "p \<in> seg_pages (set (cg_segs g))" using used_seg_pages [OF assms(1)] assms(2) by blast
  then show "\<exists>a i. p = PageAt a i \<and> a \<in> set (cg_segs g) \<and> i \<in> {1..<64}" by (auto simp: seg_pages_def)
qed

lemma base_page_step:
  assumes b: "base_inv K R st g {}" and p: "p \<in> used_pages g" and x: "get_page p st = Some x"
    and sc: "page_static x' = page_static x" and ok: "page_ok m x' fl tf" and fr: "page_frame x B (st_mem st) m"
  defines "st' \<equiv> page_step p x' m st"
  shows "base_inv K R st' g {}" "outer_frame st st'" "page_good st' p"
    "small_live st' g = (small_live st g - pblocks st p) \<union> pblocks st' p"
    "pblocks st' p = (\<lambda>b. (b, ucast (pg_block_size x))) ` page_live x' fl tf"
    "same_on (R \<union> (small_live st g - {c \<in> pblocks st p. fst c \<notin> B})) (st_mem st) (st_mem st')"
    "keeps R (used_pages g - {p}) st st'"
proof -
  note f = base_inv_facts [OF b] and sf = page_static_fields [OF sc]
  have ps: "p \<in> seg_pages (set (cg_segs g))" using used_seg_pages [OF f(1)] p by blast
  have m: "\<forall>a. \<not> in_region (pg_area x) PAGE_SIZE a \<longrightarrow> m a = st_mem st a" using fr by (simp add: page_frame_def)
  have xp: "get_page p st' = Some x'" by (simp add: st'_def)
  show good: "page_good st' p" using ok by (auto simp: page_good_def st'_def)
  have pc: "p \<in> set (cg_aband g) \<union> cg_out g \<union> {}" using p by (auto simp: used_pages_def)
  have bi: "base_inv K R st' g {}" "same_on (R \<union> reg_region K (st_registry st)) (st_mem st) m"
    unfolding st'_def by (rule page_step_base [OF b pc x sf(1) _ m]; use sf(7) good in \<open>simp add: st'_def\<close>)+
  then show "base_inv K R st' g {}" by simp
  have others: "pblocks st' q = pblocks st q" "get_page q st = Some y \<longrightarrow> same_area (pg_area y) (st_mem st) (st_mem st')"
    if "q \<in> used_pages g" "q \<noteq> p" for q y
    unfolding st'_def using page_step_others(1,3) [OF f(1) ps x m] used_seg_pages [OF f(1)] that by auto
  show o: "outer_frame st st'" unfolding st'_def by (rule page_step_outer) (use used_not_pooled(2) [OF f(1) p] in auto)
  have same: "same_on R (st_mem st) (st_mem st')" using bi(2) by (auto simp: same_on_def st'_def)
  have "get_page q st' = get_page q st" if "q \<noteq> p" for q using that by (simp add: st'_def)
  then show "keeps R (used_pages g - {p}) st st'" using o same others(2) unfolding keeps_def by blast
  show "small_live st' g = (small_live st g - pblocks st p) \<union> pblocks st' p"
    by (rule small_live_change [OF f(1) p]) (use others in auto)
  show "pblocks st' p = (\<lambda>b. (b, ucast (pg_block_size x))) ` page_live x' fl tf"
    using pblocks_eq [OF xp] ok sf(2) by (simp add: st'_def)
  have sm: "same_on {c} (st_mem st) m" if c: "c \<in> small_live st g" "\<not> (c \<in> pblocks st p \<and> fst c \<notin> B)" for c
  proof -
    obtain q where q: "q \<in> used_pages g" "c \<in> pblocks st q" using c(1) by (auto simp: small_live_used)
    then show ?thesis using page_step_bytes [OF f(1) ps x fr _ q(2)] used_seg_pages [OF f(1)] c(2) by blast
  qed
  have "same_on (small_live st g - {c \<in> pblocks st p. fst c \<notin> B}) (st_mem st) m"
    by (rule same_on_each, rule sm) auto
  then show "same_on (R \<union> (small_live st g - {c \<in> pblocks st p. fst c \<notin> B})) (st_mem st) (st_mem st')"
    using bi(2) by (auto simp: st'_def same_on_def)
qed

lemma heap_page_step:
  assumes inv: "heap_inv K st g hl" and p: "p \<in> used_pages g" and x: "get_page p st = Some x"
    and sc: "page_static x' = page_static x" and ok: "page_ok m x' fl tf" and fr: "page_frame x B (st_mem st) m"
  defines "st' \<equiv> page_step p x' m st"
  shows "heap_inv K st' g hl" "outer_frame st st'"
    "small_live st' g = (small_live st g - pblocks st p) \<union> pblocks st' p"
    "pblocks st' p = (\<lambda>b. (b, ucast (pg_block_size x))) ` page_live x' fl tf"
    "hframe (regs K st \<union> (small_live st g - {c \<in> pblocks st p. fst c \<notin> B})) st st'"
    "st_registry st' = st_registry st"
proof -
  note f = heap_inv_facts [OF inv] and sf = page_static_fields [OF sc]
  note s = base_page_step [OF f(1) p x sc ok fr, folded st'_def]
  show "outer_frame st st'" "small_live st' g = (small_live st g - pblocks st p) \<union> pblocks st' p"
    "pblocks st' p = (\<lambda>b. (b, ucast (pg_block_size x))) ` page_live x' fl tf" by (fact s(2), fact s(4), fact s(5))
  have "heaps_ok st' (cg_out g) hl"
  proof (rule heaps_ok_cong [OF f(3)])
    show "st_heaps st' = st_heaps st" "get_page EmptyPage st' = get_page EmptyPage st" using s(2) by (simp_all add: outer_frame_def)
    show "page_good st' q" if "q \<in> cg_out g" for q
    proof (cases "q = p")
      case False
      have "page_good st q" by (rule heaps_out [OF f(3) that])
      then show ?thesis using pblocks_cong(2) [of q st' st] s(7) that False by (auto simp: keeps_def used_pages_def)
    qed (use s(3) in simp)
  qed (use x sf in \<open>auto simp: st'_def\<close>)
  moreover have "aband_owned st' g" using f(7) x sf(6) by (auto simp: aband_owned_def page_owner_def st'_def)
  ultimately show "heap_inv K st' g hl" using heap_inv_outer [OF s(1) f(2) _ s(2) f(4,5)] by simp
  show "hframe (regs K st \<union> (small_live st g - {c \<in> pblocks st p. fst c \<notin> B})) st st'" by (rule outer_hframe [OF s(2,6)])
  show "st_registry st' = st_registry st" by (simp add: st'_def)
qed

section \<open>Relinking the list of a class\<close>

lemma lists_disjoint:
  assumes h: "heaps_ok st P hl" and a: "st_heaps st a = Some x" "c < 36" "p \<in> set (hl a c)"
    and b: "st_heaps st b = Some y" "d < 36" "p \<in> set (hl b d)"
  shows "a = b \<and> c = d"
  using heaps_in(2) [OF h a] heaps_in(2) [OF h b] by (auto simp: owned_def)

lemma heaps_ok_upd:
  assumes h: "heaps_ok st P hl" and a: "st_heaps st a = Some x" "c < 36"
    and hp: "st_heaps st' = (st_heaps st)(a \<mapsto> x\<lparr>hp_pages := (hp_pages x)[c := hd']\<rparr>)" "get_page EmptyPage st' = get_page EmptyPage st"
    and others: "\<And>q. q \<in> P - set (hl a c) \<Longrightarrow> get_page q st' = get_page q st \<and> page_good st' q"
    and new: "\<And>q. q \<in> set ps \<Longrightarrow> owned st' a c q"
      "if ps = [] then hd' = EmptyPage else dlist NullPage (pg_nx st') (pg_pv st') hd' ps"
  shows "heaps_ok st' (P - set (hl a c) \<union> set ps) (hl(a := (hl a)(c := ps)))"
proof -
  let ?hl = "hl(a := (hl a)(c := ps))"
  have dm: "dom (st_heaps st') = dom (st_heaps st)" using a(1) hp(1) by auto
  have P: "q \<in> P - set (hl a c)" if "st_heaps st b = Some y" "d < 36" "q \<in> set (hl b d)" "b \<noteq> a \<or> d \<noteq> c" for b y d q
    using heaps_in(1) [OF h that(1-3)] lists_disjoint [OF h a(1,2) _ that(1,2)] that(3,4) by blast
  have ow: "owned st' b d q" if b: "st_heaps st b = Some y" "d < 36" "q \<in> set (?hl b d)" for b y d q
  proof (cases "b = a \<and> d = c")
    case True
    then show ?thesis using new(1) b(3) by simp
  next
    case False
    then have q: "q \<in> set (hl b d)" using b(3) by (auto split: if_splits)
    have "owned st b d q" by (rule heaps_in(2) [OF h b(1,2) q])
    then show ?thesis using others [OF P [OF b(1,2) q]] False by (auto simp: owned_def)
  qed
  have ls: "heap_lists st' y (?hl b)" if y: "st_heaps st' b = Some y" for b y
  proof -
    obtain z where z: "st_heaps st b = Some z" "length (hp_pages y) = length (hp_pages z)"
      "\<And>d. d < 36 \<Longrightarrow> b \<noteq> a \<or> d \<noteq> c \<Longrightarrow> hp_pages y ! d = hp_pages z ! d"
      "b = a \<Longrightarrow> c < length (hp_pages z) \<Longrightarrow> hp_pages y ! c = hd'"
      using y a hp(1) by (cases "b = a") auto
    have l: "heap_lists st z (hl b)" using h z(1) by (simp add: heaps_ok_def)
    have "if ?hl b d = [] then hp_pages y ! d = EmptyPage else dlist NullPage (pg_nx st') (pg_pv st') (hp_pages y ! d) (?hl b d)"
      if d: "d < 36" for d
    proof (cases "b = a \<and> d = c")
      case True
      then have "hp_pages y ! d = hd'" using z(4) l a(2) by (simp add: heap_lists_def)
      then show ?thesis using new(2) True by simp
    next
      case False
      then have e: "?hl b d = hl b d" by auto
      have "dlist NullPage (pg_nx st') (pg_pv st') k (hl b d) = dlist NullPage (pg_nx st) (pg_pv st) k (hl b d)" for k
        by (rule dlist_cong) (use others P [OF z(1) d] False in \<open>simp_all add: pg_nx_def pg_pv_def\<close>)
      then show ?thesis using l d z(3) [OF d] False unfolding e by (simp add: heap_lists_def)
    qed
    moreover have "length (hp_pages y) = 36" using l z(2) by (simp add: heap_lists_def)
    ultimately show ?thesis unfolding heap_lists_def by blast
  qed
  have "P - set (hl a c) \<union> set ps = {q. \<exists>b \<in> dom (st_heaps st). \<exists>d < 36. q \<in> set (?hl b d)}" (is "?l = ?r")
  proof (intro equalityI subsetI)
    fix q assume q: "q \<in> ?l"
    show "q \<in> ?r"
    proof (cases "q \<in> set ps")
      case True
      then show ?thesis using a by (auto intro!: bexI [of _ a] exI [of _ c])
    next
      case False
      then have i: "q \<in> P" "q \<notin> set (hl a c)" using q by auto
      obtain b d y where "st_heaps st b = Some y" "d < 36" "q \<in> set (hl b d)" by (rule heaps_out [OF h i(1)])
      then show ?thesis using i(2) by (auto intro!: bexI [of _ b] exI [of _ d])
    qed
  next
    fix q assume "q \<in> ?r"
    then obtain b y d where b: "st_heaps st b = Some y" "d < 36" "q \<in> set (?hl b d)" by auto
    then show "q \<in> ?l" using P [OF b(1,2), of q] by (cases "b = a \<and> d = c") (auto split: if_splits)
  qed
  moreover have "\<forall>b \<in> dom (st_heaps st). \<forall>d < 36. \<forall>q \<in> set (?hl b d). owned st' b d q" using ow by blast
  ultimately show ?thesis using ls h hp(2) unfolding heaps_ok_def dm by simp
qed

text \<open>A change of the links of the pages \<open>P\<close> and of the heads kept in the heaps, nothing else.\<close>

definition page_unlinked :: "Page \<Rightarrow> Page" where
  "page_unlinked x = x\<lparr>pg_next := NullPage, pg_prev := NullPage\<rparr>"

definition relink :: "page_ptr set \<Rightarrow> State \<Rightarrow> State \<Rightarrow> bool" where
  "relink P st st' \<longleftrightarrow> st'\<lparr>st_pages := st_pages st, st_heaps := st_heaps st\<rparr> = st \<and>
     (\<forall>q. map_option page_unlinked (get_page q st') = map_option page_unlinked (get_page q st)) \<and>
     (\<forall>q. q \<notin> P \<longrightarrow> get_page q st' = get_page q st)"

lemma relink_refl: "relink P st st"
  by (simp add: relink_def)

lemma relink_trans:
  assumes "relink P st st1" "relink P st1 st2"
  shows "relink P st st2"
proof -
  have 1: "st1\<lparr>st_pages := st_pages st, st_heaps := st_heaps st\<rparr> = st"
    and 2: "st2\<lparr>st_pages := st_pages st1, st_heaps := st_heaps st1\<rparr> = st1" using assms by (simp_all add: relink_def)
  have "st2\<lparr>st_pages := st_pages st, st_heaps := st_heaps st\<rparr> =
    (st2\<lparr>st_pages := st_pages st1, st_heaps := st_heaps st1\<rparr>)\<lparr>st_pages := st_pages st, st_heaps := st_heaps st\<rparr>" by simp
  also have "\<dots> = st" unfolding 2 1 by (rule refl)
  finally show ?thesis using assms by (simp add: relink_def)
qed

lemma relink_set_page:
  assumes "get_page p st = Some x" "page_unlinked x' = page_unlinked x" "p \<in> P"
  shows "relink P st (set_page p x' st)"
  using assms by (auto simp: relink_def set_page_def get_page_def)

lemma relink_set_heap: "relink P st (set_heap a x st)"
  by (simp add: relink_def) (simp add: set_heap_def)

lemma relink_fields:
  assumes "relink P st st'"
  shows "st_regions st' = st_regions st" "st_central st' = st_central st" "st_os st' = st_os st" "st_registry st' = st_registry st"
    "st_t_heap st' = st_t_heap st" "st_g_registry st' = st_g_registry st" "st_large_count st' = st_large_count st"
    "st_large_bytes st' = st_large_bytes st" "get_seg t st' = get_seg t st" "get_large a st' = get_large a st"
proof -
  have e: "st'\<lparr>st_pages := st_pages st, st_heaps := st_heaps st\<rparr> = st" using assms by (simp add: relink_def)
  show r: "st_regions st' = st_regions st" "st_central st' = st_central st" "st_os st' = st_os st" "st_registry st' = st_registry st"
    "st_t_heap st' = st_t_heap st" "st_g_registry st' = st_g_registry st" "st_large_count st' = st_large_count st"
    "st_large_bytes st' = st_large_bytes st"
    using arg_cong [OF e, of st_regions] arg_cong [OF e, of st_central] arg_cong [OF e, of st_os] arg_cong [OF e, of st_registry]
      arg_cong [OF e, of st_t_heap] arg_cong [OF e, of st_g_registry] arg_cong [OF e, of st_large_count]
      arg_cong [OF e, of st_large_bytes] by simp_all
  show "get_seg t st' = get_seg t st" "get_large a st' = get_large a st" using r(1) by (simp_all add: get_seg_def get_large_def)
qed

lemma relink_page:
  assumes "relink P st st'" "get_page q st = Some x"
  obtains x' where "get_page q st' = Some x'" "page_unlinked x' = page_unlinked x"
proof -
  have "map_option page_unlinked (get_page q st') = map_option page_unlinked (get_page q st)" using assms(1) unfolding relink_def by blast
  then show thesis using that assms(2) by auto
qed

lemma page_unlinked_fields:
  assumes "page_unlinked x' = page_unlinked x"
  shows "pg_area x' = pg_area x" "pg_owner x' = pg_owner x" "pg_size_class x' = pg_size_class x" "pg_block_size x' = pg_block_size x"
    "pg_used x' = pg_used x" "page_body x' = page_body x" "pg_free x' = pg_free x" "pg_in_use x' = pg_in_use x"
proof -
  show "pg_area x' = pg_area x" "pg_owner x' = pg_owner x" "pg_size_class x' = pg_size_class x" "pg_block_size x' = pg_block_size x"
    "pg_used x' = pg_used x" "pg_free x' = pg_free x" "pg_in_use x' = pg_in_use x"
    using arg_cong [OF assms, of pg_area] arg_cong [OF assms, of pg_owner] arg_cong [OF assms, of pg_size_class]
      arg_cong [OF assms, of pg_block_size] arg_cong [OF assms, of pg_used] arg_cong [OF assms, of pg_free]
      arg_cong [OF assms, of pg_in_use] by (simp_all add: page_unlinked_def)
  have "page_body x = page_body (page_unlinked x)" for x by (simp add: page_body_def page_unlinked_def)
  from this [of x'] this [of x] show "page_body x' = page_body x" unfolding assms by simp
qed

lemma relink_blocks:
  assumes "relink P st st'"
  shows "pblocks st' q = pblocks st q" "page_good st' q = page_good st q"
    "map_option pg_area (get_page q st') = map_option pg_area (get_page q st)"
proof -
  have e: "map_option page_unlinked (get_page q st') = map_option page_unlinked (get_page q st)" using assms unfolding relink_def by blast
  then have "map_option page_body (get_page q st') = map_option page_body (get_page q st)"
    by (cases "get_page q st"; cases "get_page q st'") (auto dest: page_unlinked_fields(6))
  then show "pblocks st' q = pblocks st q" "page_good st' q = page_good st q"
    using pblocks_body [of q st' st] relink_fields(3) [OF assms] by simp_all
  show "map_option pg_area (get_page q st') = map_option pg_area (get_page q st)"
    using e by (cases "get_page q st"; cases "get_page q st'") (auto dest: page_unlinked_fields(1))
qed

lemma relink_aband:
  assumes "relink P st st'" "aband_owned st g"
  shows "aband_owned st' g"
  unfolding aband_owned_def
proof
  fix p assume "p \<in> set (cg_aband g)"
  then obtain x where x: "get_page p st = Some x" "pg_owner x = AbandonedOwner" using assms(2) by (auto simp: aband_owned_def page_owner_def)
  obtain x' where "get_page p st' = Some x'" "page_unlinked x' = page_unlinked x" by (rule relink_page [OF assms(1) x(1)])
  then show "page_owner st' p = Some AbandonedOwner" using x(2) by (auto simp: page_owner_def dest: page_unlinked_fields(2))
qed

lemma relink_base:
  assumes b: "base_inv K R st g L" and r: "relink P st st'" and P: "P \<inter> (pooled g \<union> set (cg_aband g)) = {}"
  shows "base_inv K R st' g L"
proof -
  note f = base_inv_facts [OF b] and rf = relink_fields [OF r]
  have np: "pg_nx st' q = pg_nx st q" if "q \<in> pooled g \<union> set (cg_aband g)" for q
  proof -
    have "q \<notin> P" using P that by blast
    then show ?thesis using r by (simp add: relink_def pg_nx_def)
  qed
  have "central_core st' g L"
  proof (rule core_change [OF f(1)])
    have "linked NullPage (pg_nx st') h (cg_aband g) NullPage = linked NullPage (pg_nx st) h (cg_aband g) NullPage" for h
      by (rule linked_cong) (simp add: np)
    then show "linked NullPage (pg_nx st') (cs_abandoned (st_central st')) (cg_aband g) NullPage"
      using f(1) rf(2) by (simp add: central_core_def)
    show "parts g L" using f(1) by (simp add: central_core_def)
  qed (use rf np relink_blocks(3) [OF r] in simp_all)
  moreover have "av_nx st' = av_nx st" "av_pv st' = av_pv st" using rf(9) by (simp_all add: link_defs fun_eq_iff)
  then have "avail_list st' (cg_avail g)" using f(2) rf(2) by (simp add: avail_list_def)
  moreover have "world_ok K R st' (set (cg_segs g))" using f(5) rf by (simp add: world_ok_def)
  moreover have "\<forall>p \<in> set (cg_aband g). page_good st' p" using f(6) relink_blocks(2) [OF r] by simp
  ultimately show ?thesis using f(3,4) rf(2) by (simp add: base_inv_def central_lists_def)
qed

lemma threads_ok_slot:
  assumes "threads_ok st" "st_heaps st a = Some x" "st_heaps st' = (st_heaps st)(a \<mapsto> x\<lparr>hp_pages := ps\<rparr>)"
    "st_t_heap st' = st_t_heap st" "st_g_registry st' = st_g_registry st"
  shows "threads_ok st'"
proof -
  have "hp_nx st' = hp_nx st" using assms(2,3) by (auto simp: fun_eq_iff hp_nx_def get_heap_def split: heap_ptr.splits)
  moreover have "dom (st_heaps st') = dom (st_heaps st)" using assms(2,3) by auto
  ultimately show ?thesis using assms(1,4,5) by (simp add: threads_ok_def)
qed

end
