(* ===== verification/Heap_Correct.thy ===== *)
theory Heap_Correct
  imports Heap_Inv
begin

text \<open>
  The steps of the thread heaps' operations (src/src/heap.h, src/src/heap.cpp) that the
  allocation and free paths share: list surgery on pages, rotating a page to the front,
  serving a request from a page, and the walk of the slow path over a class's pages.
\<close>

section \<open>List surgery on pages\<close>

lemma page_unlink_spec:
  assumes d: "dlist NullPage (pg_nx st) (pg_pv st) h (as @ p # bs)" and ne: "as \<noteq> []"
    and ex: "\<forall>q \<in> set (as @ p # bs). get_page q st \<noteq> None" and x: "get_page p st = Some x"
  obtains st1 st2 where "pg_prev x \<noteq> NullPage" "upd_page (pg_prev x) (\<lambda>y. y\<lparr>pg_next := pg_next x\<rparr>) st = Some st1"
    "get_page p st1 = Some x"
    "(if pg_next x \<noteq> NullPage then upd_page (pg_next x) (\<lambda>y. y\<lparr>pg_prev := pg_prev x\<rparr>) st1 else Some st1) = Some st2"
    "get_page p st2 = Some x" "relink (set (as @ bs)) st st2" "st_heaps st2 = st_heaps st"
    "dlist NullPage (pg_nx st2) (pg_pv st2) h (as @ bs)"
proof -
  have dist: "distinct (as @ p # bs)" by (rule dlist_distinct [OF d])
  let ?p = "pg_prev x" and ?n = "pg_next x"
  have l: "linked NullPage (pg_nx st) ?n bs NullPage" and pv: "?p = last as"
    using d x ne by (auto simp: dlist_def backs_append pg_pv_def pg_nx_def)
  have "?p \<in> set as" using pv ne by simp
  then obtain y where y: "get_page ?p st = Some y" "?p \<noteq> p" "?p \<noteq> NullPage" "?p \<in> set (as @ bs)"
    using ex dist d linked_nonnul by (fastforce simp: dlist_def)
  define st1 where "st1 = set_page ?p (y\<lparr>pg_next := ?n\<rparr>) st"
  have 1: "upd_page ?p (\<lambda>y. y\<lparr>pg_next := ?n\<rparr>) st = Some st1" using y by (simp add: upd_page_def st1_def)
  have x1: "get_page p st1 = Some x" using x y by (simp add: st1_def)
  have n: "?n \<noteq> NullPage \<Longrightarrow> ?n \<in> set bs" using linked_start [OF l] by auto
  have ns: "?n \<noteq> NullPage \<Longrightarrow> ?n \<noteq> p \<and> ?n \<noteq> ?p \<and> (\<exists>z. get_page ?n st = Some z)"
    using n dist ex \<open>?p \<in> set as\<close> by auto
  define st2 where "st2 = (if ?n \<noteq> NullPage then set_page ?n ((the (get_page ?n st))\<lparr>pg_prev := ?p\<rparr>) st1 else st1)"
  have 2: "(if ?n \<noteq> NullPage then upd_page ?n (\<lambda>y. y\<lparr>pg_prev := ?p\<rparr>) st1 else Some st1) = Some st2"
    using ns by (auto simp: upd_page_def st2_def st1_def)
  have x2: "get_page p st2 = Some x" using x1 ns by (auto simp: st2_def)
  have r1: "relink (set (as @ bs)) st st1" unfolding st1_def
    by (rule relink_set_page [OF y(1) _ y(4)]) (simp add: page_unlinked_def)
  have r2: "relink (set (as @ bs)) st1 st2"
  proof (cases "?n = NullPage")
    case True
    then show ?thesis by (simp add: st2_def relink_refl)
  next
    case False
    then obtain z where z: "get_page ?n st = Some z" "?n \<noteq> ?p" using ns by auto
    have "relink (set (as @ bs)) st1 (set_page ?n (z\<lparr>pg_prev := ?p\<rparr>) st1)"
      by (rule relink_set_page [of _ _ z]) (use z n False in \<open>simp_all add: st1_def page_unlinked_def\<close>)
    then show ?thesis using False z by (simp add: st2_def)
  qed
  have "dlist NullPage (pg_nx st2) (pg_pv st2) h (as @ bs)"
  proof -
    let ?nx = "(pg_nx st)(?p := ?n)" and ?pv = "if ?n \<noteq> NullPage then (pg_pv st)(?n := ?p) else pg_pv st"
    have "pg_pv st p = ?p" "pg_nx st p = ?n" using x by (simp_all add: pg_nx_def pg_pv_def)
    then have "dlist NullPage ?nx ?pv h (as @ bs)" using y(3) by (intro dlist_remove [OF d]) simp_all
    moreover have "pg_nx st2 q = ?nx q" "pg_pv st2 q = ?pv q" if "q \<in> set (as @ bs)" for q
      using ns y by (auto simp: pg_nx_def pg_pv_def st1_def st2_def)
    ultimately show ?thesis using dlist_cong [of "as @ bs" "pg_nx st2" ?nx "pg_pv st2" ?pv NullPage h] by blast
  qed
  moreover have "st_heaps st2 = st_heaps st" by (simp add: st1_def st2_def)
  ultimately show thesis using that y(3) 1 x1 2 x2 relink_trans [OF r1 r2] by blast
qed

lemma page_push_spec:
  assumes d: "dlist NullPage (pg_nx st) (pg_pv st) h ps" and p: "p \<notin> set ps" "p \<noteq> NullPage" and x: "get_page p st = Some x"
    and ex: "\<forall>q \<in> set ps. get_page q st \<noteq> None"
  obtains st' where "(do { st \<leftarrow> upd_page p (\<lambda>x. x\<lparr>pg_prev := NullPage, pg_next := h\<rparr>) st;
      if h \<noteq> NullPage then upd_page h (\<lambda>y. y\<lparr>pg_prev := p\<rparr>) st else Some st }) = Some st'"
    "relink (set (p # ps)) st st'" "st_heaps st' = st_heaps st" "dlist NullPage (pg_nx st') (pg_pv st') p (p # ps)"
proof -
  let ?x = "x\<lparr>pg_prev := NullPage, pg_next := h\<rparr>"
  have h: "h \<noteq> NullPage \<Longrightarrow> h \<in> set ps" using d by (auto simp: dlist_def dest: linked_start)
  define st1 where "st1 = set_page p ?x st"
  define st2 where "st2 = (if h \<noteq> NullPage then set_page h ((the (get_page h st))\<lparr>pg_prev := p\<rparr>) st1 else st1)"
  have hs: "h \<noteq> NullPage \<Longrightarrow> h \<noteq> p \<and> (\<exists>y. get_page h st = Some y)" using h p ex by auto
  have r1: "relink (set (p # ps)) st st1" unfolding st1_def
    by (rule relink_set_page [OF x]) (simp_all add: page_unlinked_def)
  have r2: "relink (set (p # ps)) st1 st2"
  proof (cases "h = NullPage")
    case True
    then show ?thesis by (simp add: st2_def relink_refl)
  next
    case False
    then obtain y where y: "get_page h st = Some y" "h \<noteq> p" using hs by auto
    have "relink (set (p # ps)) st1 (set_page h (y\<lparr>pg_prev := p\<rparr>) st1)"
      by (rule relink_set_page [of _ _ y]) (use y h False in \<open>simp_all add: st1_def page_unlinked_def\<close>)
    then show ?thesis using False y by (simp add: st2_def)
  qed
  have "dlist NullPage (pg_nx st2) (pg_pv st2) p (p # ps)"
    by (rule dlist_push [OF d p]) (use hs in \<open>auto simp: st1_def st2_def pg_nx_def pg_pv_def fun_eq_iff\<close>)
  moreover have "st_heaps st2 = st_heaps st" by (simp add: st1_def st2_def)
  moreover have "(do { st \<leftarrow> upd_page p (\<lambda>x. x\<lparr>pg_prev := NullPage, pg_next := h\<rparr>) st;
      if h \<noteq> NullPage then upd_page h (\<lambda>y. y\<lparr>pg_prev := p\<rparr>) st else Some st }) = Some st2"
    using x hs by (auto simp: upd_page_def st1_def st2_def)
  ultimately show thesis using that relink_trans [OF r1 r2] by blast
qed

section \<open>Rotating a page to the front of its list\<close>

lemma relink_owned:
  assumes "relink P st st'" "owned st a c q"
  shows "owned st' a c q"
proof -
  obtain x where x: "get_page q st = Some x" "pg_owner x = HeapAt a" "unat (pg_size_class x) = c" "pg_block_size x = class_sizes ! c"
    "page_good st q" using assms(2) by (auto simp: owned_def)
  obtain x' where x': "get_page q st' = Some x'" "page_unlinked x' = page_unlinked x" by (rule relink_page [OF assms(1) x(1)])
  then show ?thesis using x page_unlinked_fields [OF x'(2)] relink_blocks(2) [OF assms(1)] by (simp add: owned_def)
qed

lemma relink_live: "relink P st st' \<Longrightarrow> small_live st' g = small_live st g"
  using relink_blocks(1) by (auto simp: small_live_used)

lemma relink_hframe: "relink P st st' \<Longrightarrow> hframe X st st'"
  by (simp add: hframe_def relink_fields)

lemma heap_list_pages:
  assumes "heap_inv K st g hl" "st_heaps st a = Some x" "c < 36"
  shows "set (hl a c) \<subseteq> cg_out g" "\<forall>q \<in> set (hl a c). get_page q st \<noteq> None" "length (hp_pages x) = 36"
    "if hl a c = [] then hp_pages x ! c = EmptyPage else dlist NullPage (pg_nx st) (pg_pv st) (hp_pages x ! c) (hl a c)"
proof -
  note h = heap_inv_facts(3) [OF assms(1)]
  show "set (hl a c) \<subseteq> cg_out g" using heaps_in(1) [OF h assms(2,3)] by blast
  show "\<forall>q \<in> set (hl a c). get_page q st \<noteq> None" using heaps_in(2) [OF h assms(2,3)] by (auto simp: owned_def)
  have "heap_lists st x (hl a)" using h assms(2) by (simp add: heaps_ok_def)
  then show "length (hp_pages x) = 36"
    "if hl a c = [] then hp_pages x ! c = EmptyPage else dlist NullPage (pg_nx st) (pg_pv st) (hp_pages x ! c) (hl a c)"
    using assms(3) unfolding heap_lists_def by blast+
qed

lemma relink_class:
  assumes inv: "heap_inv K st g hl" and a: "st_heaps st a = Some x" "c < 36"
    and ps: "set ps = set (hl a c)" "ps \<noteq> []" and r: "relink (set ps) st st'"
    and hp: "st_heaps st' = (st_heaps st)(a \<mapsto> x\<lparr>hp_pages := (hp_pages x)[c := h]\<rparr>)"
    and d: "dlist NullPage (pg_nx st') (pg_pv st') h ps"
  shows "heap_inv K st' g (hl(a := (hl a)(c := ps)))"
proof -
  note f = heap_inv_facts [OF inv] and rf = relink_fields [OF r]
  have sub: "set (hl a c) \<subseteq> cg_out g" by (rule heap_list_pages(1) [OF inv a])
  then have P: "set ps \<inter> (pooled g \<union> set (cg_aband g)) = {}"
    using f(6) ps(1) by (auto simp: central_core_def parts_def)
  have b: "base_inv K (regs K st) st' g {}" by (rule relink_base [OF f(1) r P])
  have ne: "EmptyPage \<notin> set ps" using used_not_pooled(2) [OF f(6), of EmptyPage] sub ps(1) by (auto simp: used_pages_def)
  have "heaps_ok st' (cg_out g - set (hl a c) \<union> set ps) (hl(a := (hl a)(c := ps)))"
  proof (rule heaps_ok_upd [OF f(3) a hp])
    show "get_page EmptyPage st' = get_page EmptyPage st" using r ne by (simp add: relink_def)
    show "get_page q st' = get_page q st \<and> page_good st' q" if "q \<in> cg_out g - set (hl a c)" for q
    proof -
      have "page_good st q" by (rule heaps_out [OF f(3), of q]) (use that in auto)
      then show ?thesis using r that ps(1) relink_blocks(2) [OF r] by (simp add: relink_def)
    qed
    show "owned st' a c q" if "q \<in> set ps" for q
      by (rule relink_owned [OF r heaps_in(2) [OF f(3) a]]) (use that ps(1) in simp)
  qed (use ps d in simp)
  moreover have "cg_out g - set (hl a c) \<union> set ps = cg_out g" using sub ps(1) by blast
  moreover have "heap_regs K st' = heap_regs K st" "large_regs st' = large_regs st"
    using hp a(1) rf(10) by (auto simp: heap_regs_def large_regs_def)
  moreover have "threads_ok st'" by (rule threads_ok_slot [OF f(4) a(1) hp]) (use rf in simp_all)
  moreover have "aband_owned st' g" by (rule relink_aband [OF r f(7)])
  ultimately show ?thesis using b f(2,5) by (simp add: heap_inv_def)
qed

lemma set_heap_links [simp]: "pg_nx (set_heap a x st) = pg_nx st" "pg_pv (set_heap a x st) = pg_pv st"
  by (simp_all add: link_defs fun_eq_iff)

lemma heap_slot_eq:
  assumes "st_heaps st a = Some x" "unat c < length (hp_pages x)"
  shows "heap_slot (HeapAt a) c st = Some (hp_pages x ! unat c)"
    "set_heap_slot (HeapAt a) c p st = Some (set_heap a (x\<lparr>hp_pages := (hp_pages x)[unat c := p]\<rparr>) st)"
  using assms by (simp_all add: heap_slot_def set_heap_slot_def get_heap_def)

lemma heap_rotate_ok:
  assumes inv: "heap_inv K st g hl" and a: "st_heaps st a = Some x" "unat c < 36" and l: "hl a (unat c) = as @ p # bs" "as \<noteq> []"
  shows "\<exists>st'. heap_rotate_to_front (HeapAt a) c p st = Some st' \<and>
    heap_inv K st' g (hl(a := (hl a)(unat c := p # as @ bs))) \<and> relink (set (hl a (unat c))) st st'"
proof -
  note f = heap_inv_facts [OF inv] and hl = heap_list_pages [OF inv a]
  let ?h = "hp_pages x ! unat c"
  have d: "dlist NullPage (pg_nx st) (pg_pv st) ?h (as @ p # bs)" using hl(4) l by simp
  have dist: "distinct (as @ p # bs)" by (rule dlist_distinct [OF d])
  have hd: "?h = hd as" "?h \<noteq> NullPage" using d l(2) by (cases as; auto simp: dlist_def)+
  then have ph: "p \<noteq> ?h" using dist l(2) by (cases as) auto
  obtain y where y: "get_page p st = Some y" using hl(2) l(1) by fastforce
  have ex: "\<forall>q \<in> set (as @ p # bs). get_page q st \<noteq> None" using hl(2) l(1) by simp
  obtain st1 st2 where 1: "pg_prev y \<noteq> NullPage" "upd_page (pg_prev y) (\<lambda>z. z\<lparr>pg_next := pg_next y\<rparr>) st = Some st1"
    "get_page p st1 = Some y"
    "(if pg_next y \<noteq> NullPage then upd_page (pg_next y) (\<lambda>z. z\<lparr>pg_prev := pg_prev y\<rparr>) st1 else Some st1) = Some st2"
    "get_page p st2 = Some y" "relink (set (as @ bs)) st st2" "st_heaps st2 = st_heaps st"
    "dlist NullPage (pg_nx st2) (pg_pv st2) ?h (as @ bs)"
    by (rule page_unlink_spec [OF d l(2) ex y])
  have ex2: "\<forall>q \<in> set (as @ bs). get_page q st2 \<noteq> None"
  proof
    fix q assume "q \<in> set (as @ bs)"
    then obtain z where "get_page q st = Some z" using ex by fastforce
    then obtain z' where "get_page q st2 = Some z'" by (rule relink_page [OF 1(6)])
    then show "get_page q st2 \<noteq> None" by simp
  qed
  have pn: "p \<noteq> NullPage" "p \<notin> set (as @ bs)" using dist d linked_nonnul by (fastforce simp: dlist_def)+
  obtain st3 where 3: "(do { st \<leftarrow> upd_page p (\<lambda>x. x\<lparr>pg_prev := NullPage, pg_next := ?h\<rparr>) st2;
      if ?h \<noteq> NullPage then upd_page ?h (\<lambda>y. y\<lparr>pg_prev := p\<rparr>) st else Some st }) = Some st3"
    "relink (set (p # as @ bs)) st2 st3" "st_heaps st3 = st_heaps st2" "dlist NullPage (pg_nx st3) (pg_pv st3) p (p # as @ bs)"
    by (rule page_push_spec [OF 1(8) pn(2,1) 1(5) ex2])
  let ?st = "set_heap a (x\<lparr>hp_pages := (hp_pages x)[unat c := p]\<rparr>) st3"
  have a3: "st_heaps st3 a = Some x" using a(1) 1(7) 3(3) by simp
  have e: "heap_rotate_to_front (HeapAt a) c p st = Some ?st"
  proof -
    have "upd_page p (\<lambda>x. x\<lparr>pg_prev := NullPage, pg_next := ?h\<rparr>) st2 = Some (set_page p (y\<lparr>pg_prev := NullPage, pg_next := ?h\<rparr>) st2)"
      using 1(5) by (simp add: upd_page_def)
    then show ?thesis using heap_slot_eq(1) [OF a(1), of c] heap_slot_eq(2) [OF a3, of c p] hl(3) a(2) ph y 1 3(1) hd(2)
      by (simp add: heap_rotate_to_front_def)
  qed
  have r: "relink (set (p # as @ bs)) st ?st"
  proof (rule relink_trans [OF relink_trans [OF _ 3(2)] relink_set_heap])
    show "relink (set (p # as @ bs)) st st2" using 1(6) by (auto simp: relink_def)
  qed
  have "heap_inv K ?st g (hl(a := (hl a)(unat c := p # as @ bs)))"
  proof (rule relink_class [OF inv a _ _ r])
    show "dlist NullPage (pg_nx ?st) (pg_pv ?st) p (p # as @ bs)" using 3(4) by simp
  qed (use l 1(7) 3(3) in \<open>auto simp: set_heap_def\<close>)
  moreover have "set (p # as @ bs) = set (hl a (unat c))" using l(1) by auto
  ultimately show ?thesis using e r by auto
qed

section \<open>Serving a request from a page\<close>

lemma make_available_heap:
  assumes inv: "heap_inv K st g hl" and p: "p \<in> used_pages g" "page_good st p"
  obtains av st' x where "make_available p st = Some (av, st')" "heap_inv K st' g hl" "small_live st' g = small_live st g"
    "hframe (regs K st \<union> small_live st g) st st'" "outer_frame st st'" "st_registry st' = st_registry st"
    "get_page p st' = Some x" "pg_next x = pg_nx st p" "av \<longrightarrow> pg_free x \<noteq> 0"
    "\<forall>q. q \<noteq> p \<longrightarrow> get_page q st' = get_page q st"
    "\<forall>y. get_page p st = Some y \<longrightarrow> page_static x = page_static y"
    "pblocks st p = {} \<longrightarrow> av"
proof -
  obtain y fl tf where y: "get_page p st = Some y" and ok: "page_ok (st_mem st) y fl tf" using p(2) by (auto simp: page_good_def)
  obtain av x m fl' tf' where 1: "page_make_available y (st_mem st) = Some (av, x, m)" "page_ok m x fl' tf'" "av \<longleftrightarrow> fl' \<noteq> []"
    "page_live x fl' tf' = page_live y fl tf" "page_frame y (page_live y fl tf) (st_mem st) m" "page_static x = page_static y"
    "av \<or> tf' = [] \<and> pg_reserved x = pg_capacity x"
    by (rule make_available_ok [OF ok])
  let ?st = "page_step p x m st"
  note s = heap_page_step [OF inv p(1) y 1(6,2,5)] and pe = pblocks_eq [OF y ok]
  have D: "{c \<in> pblocks st p. fst c \<notin> page_live y fl tf} = {}" using pe by auto
  have pb: "pblocks ?st p = pblocks st p" using s(4) pe 1(4) by simp
  have "small_live ?st g = small_live st g" using s(3) pb p(1) by (auto simp: small_live_used)
  moreover have "hframe (regs K st \<union> small_live st g) st ?st" using s(5) unfolding D by simp
  moreover have "make_available p st = Some (av, ?st)" using y 1(1) by (simp add: make_available_def page_step_def)
  moreover have "pg_next x = pg_nx st p" using page_static_fields(7) [OF 1(6)] y by (simp add: pg_nx_def)
  moreover have "av \<longrightarrow> pg_free x \<noteq> 0" using 1(2,3) by (auto simp: page_ok_def)
  moreover have "av" if "pblocks st p = {}"
  proof (rule ccontr)
    assume "\<not> av"
    then have t: "tf' = []" "fl' = []" "pg_reserved x = pg_capacity x" using 1(3,7) by auto
    have "page_live x fl' tf' = {}" using that pe 1(4) by simp
    then have "unat (pg_used x) = 0" using page_ok_count(2) [OF 1(2)] t(1) by simp
    then have "unat (pg_capacity x) = 0" using 1(2) t by (simp add: page_ok_def)
    moreover have "65536 div unat (pg_block_size x) \<noteq> 0" "unat (pg_capacity x) = 65536 div unat (pg_block_size x)"
      using 1(2) by (simp_all add: page_ok_def page_geometry_def div_eq_0_iff)
    ultimately show False by simp
  qed
  ultimately show thesis using that [of av ?st x] s(1,2,6) y 1(6) by simp
qed

lemma pop_page_heap:
  assumes inv: "heap_inv K st g hl" and p: "p \<in> used_pages g" "page_good st p" "get_page p st = Some x" "pg_free x \<noteq> 0"
  obtains b x' st' where "page_pop x (st_mem st) = Some (b, x')" "st' = set_page p x' st" "b = pg_free x"
    "heap_inv K st' g hl" "small_live st' g = insert (b, ucast (pg_block_size x)) (small_live st g)"
    "(b, ucast (pg_block_size x)) \<in> pblocks st' p" "(b, ucast (pg_block_size x)) \<notin> small_live st g"
    "outer_frame st st'" "st_registry st' = st_registry st" "st_os st' = st_os st"
proof -
  obtain fl tf where ok: "page_ok (st_mem st) x fl tf" using p(2,3) by (auto simp: page_good_def)
  then have ne: "fl \<noteq> []" using p(4) by (auto simp: page_ok_def)
  obtain b x' fl' where 1: "page_pop x (st_mem st) = Some (b, x')" "fl = b # fl'" "page_ok (st_mem st) x' fl' tf"
    "b \<in> page_blocks x" "b \<notin> page_live x fl tf" "page_live x' fl' tf = insert b (page_live x fl tf)"
    "page_static x' = page_static x" by (rule pop_ok [OF ok ne])
  have fr: "page_frame x UNIV (st_mem st) (st_mem st)" by (simp add: page_frame_def)
  note s = heap_page_step [OF inv p(1,3) 1(7,3) fr] and pe = pblocks_eq [OF p(3) ok]
  have e: "page_step p x' (st_mem st) st = set_page p x' st" by (simp add: page_step_def)
  let ?b = "(b, ucast (pg_block_size x) :: u64)"
  have pb: "pblocks (set_page p x' st) p = insert ?b (pblocks st p)" using s(4) pe 1(6) unfolding e by simp
  have live: "small_live (set_page p x' st) g = insert ?b (small_live st g)"
    using s(3) p(1) unfolding e pb by (auto simp: small_live_used)
  have "?b \<notin> small_live st g"
  proof
    assume "?b \<in> small_live st g"
    then obtain q where q: "q \<in> used_pages g" "?b \<in> pblocks st q" by (auto simp: small_live_used)
    have nb: "?b \<notin> pblocks st p" using pe 1(5) by auto
    then have "q \<noteq> p" using q(2) by blast
    then have q': "?b \<in> pblocks (set_page p x' st) q" using q(2) pblocks_cong(1) [of q "set_page p x' st" st] by (simp add: same_area_def)
    have c: "central_core (set_page p x' st) g {}" using heap_inv_facts(6) [OF s(1)] unfolding e .
    have "region_set ?b \<inter> region_set ?b = {}"
      using blocks_disjoint [OF c _ _ q', of p ?b] pb q(1) p(1) used_seg_pages [OF c] \<open>q \<noteq> p\<close> by blast
    then show False using pblocks_nonempty(1) [OF q(2)] by blast
  qed
  moreover have "b = pg_free x" using 1(1) p(4) by (simp add: page_pop_def Let_def)
  ultimately show thesis using that [OF 1(1) refl] s(1,2,6) pb live unfolding e by simp
qed

text \<open>Where a block lies: aligned to whatever divides both the page size and its class's size.\<close>

lemma block_aligned:
  assumes c: "central_core st g L" and p: "p \<in> used_pages g" "(b, n) \<in> pblocks st p" and al: "al dvd unat n" "al dvd 65536"
  shows "al dvd unat b" "b \<noteq> 0"
proof -
  obtain x fl tf where x: "get_page p st = Some x" "page_ok (st_mem st) x fl tf" "b \<in> page_blocks x" "n = ucast (pg_block_size x)"
    using p(2) by (auto simp: pblocks_def page_live_def)
  have g: "page_geometry x" using x(2) by (simp add: page_ok_def)
  obtain k where k: "k < unat (pg_capacity x)" "b = block_addr x k" by (rule page_blocks_capacity [OF g x(3)])
  have ub: "unat b = unat (pg_area x) + k * unat (pg_block_size x)" using block_bounds [OF g k(1)] k(2) by simp
  then show "b \<noteq> 0" using g by (auto simp: page_geometry_def)
  have "p \<in> pooled g \<union> set (cg_aband g) \<union> cg_out g \<union> L" using p(1) by (auto simp: used_pages_def)
  then obtain s i where s: "s \<in> set (cg_segs g)" "i \<in> {1..<64}" "pg_area x = s + of_nat i * PAGE_SIZE"
    by (rule page_core [OF c]) (use x(1) in simp)
  have sa: "segment_aligned s" using c s(1) by (simp add: central_core_def seg_inv_def)
  have "i * 65536 < 2 ^ 22" using s(2) by simp
  note o = region_base_offset [OF sa this]
  have "unat (of_nat (i * 65536) :: u64) = i * 65536" using s(2) by (simp add: unsigned_of_nat take_bit_nat_eq_self del: of_nat_mult)
  then have "unat (s + of_nat (i * 65536)) = unat s + i * 65536" using o(1) by (simp add: unat_word_ariths del: of_nat_mult)
  then have "unat (pg_area x) = unat s + i * 65536" using s(3) by simp
  moreover have "65536 dvd unat s" using sa unfolding segment_aligned_def by (rule dvd_trans [rotated]) (simp add: dvd_def)
  ultimately have "65536 dvd unat (pg_area x)" by simp
  then show "al dvd unat b" unfolding ub using al x(4) by (auto intro!: dvd_add dvd_mult intro: dvd_trans)
qed

text \<open>A block of class \<open>c\<close> has been added to the live ones.\<close>

definition block_of :: "addr \<Rightarrow> u32 \<Rightarrow> addr \<times> u64" where
  "block_of b c = (b, ucast (class_sizes ! unat c))"

definition served :: "u32 \<Rightarrow> addr \<Rightarrow> (addr \<times> u64) set \<Rightarrow> State \<Rightarrow> cghost \<Rightarrow> bool" where
  "served c b L st g \<longleftrightarrow> small_live st g = insert (block_of b c) L \<and> block_of b c \<notin> L \<and>
     (\<exists>p \<in> used_pages g. block_of b c \<in> pblocks st p)"

lemma pop_page_served:
  assumes inv: "heap_inv K st g hl" and h: "st_heaps st a = Some h" "unat c < 36" "p \<in> set (hl a (unat c))"
    and x: "get_page p st = Some x" "pg_free x \<noteq> 0"
  obtains b x' st' where "page_pop x (st_mem st) = Some (b, x')" "pop_page p st = Some (b, st')" "st' = set_page p x' st" "b = pg_free x"
    "heap_inv K st' g hl" "served c b (small_live st g) st' g"
    "outer_frame st st'" "st_registry st' = st_registry st" "st_os st' = st_os st"
proof -
  note o = heaps_in [OF heap_inv_facts(3) [OF inv] h]
  have p: "p \<in> used_pages g" "page_good st p" "pg_block_size x = class_sizes ! unat c"
    using o x(1) by (auto simp: used_pages_def owned_def)
  obtain b x' st' where 1: "page_pop x (st_mem st) = Some (b, x')" "st' = set_page p x' st" "b = pg_free x"
    "heap_inv K st' g hl" "small_live st' g = insert (b, ucast (pg_block_size x)) (small_live st g)"
    "(b, ucast (pg_block_size x)) \<in> pblocks st' p" "(b, ucast (pg_block_size x)) \<notin> small_live st g"
    "outer_frame st st'" "st_registry st' = st_registry st" "st_os st' = st_os st"
    by (rule pop_page_heap [OF inv p(1,2) x])
  have "served c b (small_live st g) st' g" using 1(5-7) p(1,3) by (auto simp: served_def block_of_def)
  moreover have "pop_page p st = Some (b, st')" using x(1) 1(1,2) by (simp add: pop_page_def)
  ultimately show thesis using that 1 by blast
qed

text \<open>What the heap operations leave alone of the rest of the state.\<close>

definition side_frame :: "kernel \<Rightarrow> State \<Rightarrow> State \<Rightarrow> bool" where
  "side_frame K st st' \<longleftrightarrow> st_t_heap st' = st_t_heap st \<and> dom (st_heaps st') = dom (st_heaps st) \<and>
     st_registry st' = st_registry st \<and> st_regions st' = st_regions st \<and> mapped (st_os st') = mapped (st_os st)"

lemma side_frame_trans: "side_frame K st st1 \<Longrightarrow> side_frame K st1 st2 \<Longrightarrow> side_frame K st st2"
  by (simp add: side_frame_def)

lemma make_available_side: "make_available p st = Some (av, st') \<Longrightarrow> side_frame K st st' \<and> st_heaps st' = st_heaps st"
  by (auto simp: make_available_def side_frame_def split: bind_splits)

lemma relink_regs:
  assumes "relink P st st'" "dom (st_heaps st') = dom (st_heaps st)"
  shows "regs K st' = regs K st" "side_frame K st st'"
  using assms relink_fields [OF assms(1)] by (auto simp: heap_regs_def large_regs_def side_frame_def)

lemma slow_walk_ok:
  assumes "heap_inv K st g hl" "st_heaps st a = Some x" "unat c < 36" "hl a (unat c) = xs @ ys" "hl a (unat c) \<noteq> []"
    "p = (case ys of [] \<Rightarrow> NullPage | y # _ \<Rightarrow> y)"
  shows "\<exists>r st' hl'. slow_walk (HeapAt a) c (hp_pages x ! unat c) p st = Some (r, st') \<and> heap_inv K st' g hl' \<and>
    hframe (regs K st \<union> small_live st g) st st' \<and> side_frame K st st' \<and>
    (case r of None \<Rightarrow> hl' = hl \<and> small_live st' g = small_live st g \<and> st_heaps st' = st_heaps st
     | Some b \<Rightarrow> served c b (small_live st g) st' g)"
  using assms
proof (induction ys arbitrary: st xs p)
  case Nil
  then show ?case by (subst slow_walk.simps) (auto simp: hframe_refl side_frame_def intro!: exI [of _ hl])
next
  case (Cons y ys)
  note inv = Cons.prems(1) and a = Cons.prems(2,3) and l = Cons.prems(4)
  have py: "p = y" "y \<in> set (hl a (unat c))" using Cons.prems(4,6) by simp_all
  note o = heaps_in [OF heap_inv_facts(3) [OF inv] a py(2)]
  have u: "y \<in> used_pages g" "page_good st y" using o by (simp_all add: used_pages_def owned_def)
  have yn: "y \<noteq> NullPage" using used_not_pooled(2) [OF heap_inv_facts(6) [OF inv] u(1)] by auto
  have d: "dlist NullPage (pg_nx st) (pg_pv st) (hp_pages x ! unat c) (xs @ y # ys)"
    using heap_list_pages(4) [OF inv a] l by simp
  obtain av st1 z where 1: "make_available y st = Some (av, st1)" "heap_inv K st1 g hl" "small_live st1 g = small_live st g"
    "hframe (regs K st \<union> small_live st g) st st1" "outer_frame st st1" "st_registry st1 = st_registry st"
    "get_page y st1 = Some z" "pg_next z = pg_nx st y" "av \<longrightarrow> pg_free z \<noteq> 0"
    by (rule make_available_heap [OF inv u])
  have s1: "side_frame K st st1" "st_heaps st1 = st_heaps st" using make_available_side [OF 1(1)] by simp_all
  have a1: "st_heaps st1 a = Some x" using a(1) s1(2) by simp
  have R1: "regs K st1 = regs K st" using outer_regs [OF 1(5), of K] by simp
  show ?case
  proof (cases av)
    case False
    have nx: "pg_next z = (case ys of [] \<Rightarrow> NullPage | y # _ \<Rightarrow> y)" using d 1(8) by (cases ys) (auto simp: dlist_def)
    have e: "slow_walk (HeapAt a) c (hp_pages x ! unat c) p st = slow_walk (HeapAt a) c (hp_pages x ! unat c) (pg_next z) st1"
      using py yn 1(1,7) False by (subst slow_walk.simps) simp
    have l1: "hl a (unat c) = (xs @ [y]) @ ys" using l by simp
    obtain r st' hl' where "slow_walk (HeapAt a) c (hp_pages x ! unat c) (pg_next z) st1 = Some (r, st')" "heap_inv K st' g hl'"
      "hframe (regs K st1 \<union> small_live st1 g) st1 st'" "side_frame K st1 st'"
      "case r of None \<Rightarrow> hl' = hl \<and> small_live st' g = small_live st1 g \<and> st_heaps st' = st_heaps st1
       | Some b \<Rightarrow> served c b (small_live st1 g) st' g"
      using Cons.IH [OF 1(2) a1 a(2) l1 Cons.prems(5) nx] by blast
    then show ?thesis using e R1 1(3) s1 hframe_trans [OF 1(4)] side_frame_trans [OF s1(1)]
      by (intro exI [of _ r] exI [of _ st'] exI [of _ hl']) (simp split: option.splits)
  next
    case True
    have ph: "y = hp_pages x ! unat c \<longleftrightarrow> xs = []" using d dlist_distinct [OF d] by (cases xs) (auto simp: dlist_def)
    obtain st2 hl2 x2 where 2: "(if y \<noteq> hp_pages x ! unat c then heap_rotate_to_front (HeapAt a) c y st1 else Some st1) = Some st2"
      "heap_inv K st2 g hl2" "relink (set (hl a (unat c))) st1 st2" "st_heaps st2 a = Some x2" "y \<in> set (hl2 a (unat c))"
      "dom (st_heaps st2) = dom (st_heaps st1)"
    proof (cases "xs = []")
      case True
      then show thesis using that [of st1 hl x] ph 1(2) a1 relink_refl py(2) by simp
    next
      case False
      obtain st2 where r: "heap_rotate_to_front (HeapAt a) c y st1 = Some st2"
        "heap_inv K st2 g (hl(a := (hl a)(unat c := y # xs @ ys)))" "relink (set (hl a (unat c))) st1 st2"
        using heap_rotate_ok [OF 1(2) a1 a(2) l False] by blast
      have dm: "dom (st_heaps st2) = dom (st_heaps st1)"
        using r(1) by (auto simp: heap_rotate_to_front_def set_heap_slot_def upd_page_def get_heap_def set_heap_def split: bind_splits if_splits heap_ptr.splits)
      then obtain x2 where "st_heaps st2 a = Some x2" using a1 by blast
      then show thesis using that [of st2 "hl(a := (hl a)(unat c := y # xs @ ys))" x2] r dm False ph by simp
    qed
    obtain z2 where z2: "get_page y st2 = Some z2" "page_unlinked z2 = page_unlinked z" by (rule relink_page [OF 2(3) 1(7)])
    have fz: "pg_free z2 \<noteq> 0" using page_unlinked_fields(7) [OF z2(2)] 1(9) True by simp
    obtain b x' st3 where 3: "page_pop z2 (st_mem st2) = Some (b, x')" "pop_page y st2 = Some (b, st3)" "st3 = set_page y x' st2" "b = pg_free z2"
      "heap_inv K st3 g hl2" "served c b (small_live st2 g) st3 g" "outer_frame st2 st3" "st_registry st3 = st_registry st2" "st_os st3 = st_os st2"
      by (rule pop_page_served [OF 2(2,4) a(2) 2(5) z2(1) fz])
    have e: "slow_walk (HeapAt a) c (hp_pages x ! unat c) p st = Some (Some b, st3)"
      using py yn 1(1) True 2(1) 3(2) by (subst slow_walk.simps) (auto split: if_splits)
    have "hframe (regs K st \<union> small_live st g) st st3"
      using hframe_trans [OF hframe_trans [OF 1(4) relink_hframe [OF 2(3)]] outer_hframe [OF 3(7)]] 3(9) by simp
    moreover have "side_frame K st st3"
      using side_frame_trans [OF side_frame_trans [OF s1(1) relink_regs(2) [OF 2(3,6), of K]], of st3] 3(3) by (simp add: side_frame_def)
    moreover have "served c b (small_live st g) st3 g" using 3(6) relink_live [OF 2(3), of g] 1(3) by simp
    ultimately show ?thesis using e 3(5) by (intro exI [of _ "Some b"] exI [of _ st3] exI [of _ hl2]) simp
  qed
qed

end
