(* ===== verification/Heap_Malloc.thy ===== *)
theory Heap_Malloc
  imports Heap_Correct HMalloc
begin

text \<open>
  The allocation path of the thread heaps (src/src/heap.h, src/src/heap.cpp) keeps the
  invariant, returns, and adds exactly one fresh block of the request's class to the live
  ones, or none when the kernel refuses memory.
\<close>

section \<open>A fresh page\<close>

text \<open>The live blocks across an operation of the central heap.\<close>

lemma central_live:
  assumes k: "keeps R P st st'" and a: "aband_frame st g st' g'" and P: "P \<subseteq> cg_out g"
  shows "(\<Union>p \<in> P. pblocks st' p) \<union> aband_blocks st' g' = (\<Union>p \<in> P. pblocks st p) \<union> aband_blocks st g"
    "same_on (R \<union> (\<Union>p \<in> P. pblocks st p) \<union> aband_blocks st g) (st_mem st) (st_mem st')"
proof -
  have p: "get_page p st' = get_page p st" "\<And>x. get_page p st = Some x \<Longrightarrow> same_area (pg_area x) (st_mem st) (st_mem st')" if "p \<in> P" for p
    using k that by (auto simp: keeps_def)
  have "pblocks st' q = pblocks st q" if "q \<in> P" for q by (rule pblocks_cong(1)) (use p that in auto)
  then show "(\<Union>p \<in> P. pblocks st' p) \<union> aband_blocks st' g' = (\<Union>p \<in> P. pblocks st p) \<union> aband_blocks st g"
    using a by (auto simp: aband_frame_def)
  have "st_mem st' x = st_mem st x" if c: "q \<in> P" "c \<in> pblocks st q" "x \<in> region_set c" for q c x
  proof -
    obtain y where y: "get_page q st = Some y" using c(2) by (auto simp: pblocks_def)
    show ?thesis using p(2) [OF c(1) y] pblocks_area [OF y c(2,3)] by (auto simp: same_area_def region_set_def)
  qed
  moreover have "same_on R (st_mem st) (st_mem st')" "same_on (aband_blocks st g) (st_mem st) (st_mem st')"
    using k a by (simp_all add: keeps_def aband_frame_def)
  ultimately show "same_on (R \<union> (\<Union>p \<in> P. pblocks st p) \<union> aband_blocks st g) (st_mem st) (st_mem st')"
    unfolding same_on_def by blast
qed

lemma class_size_class: "c < 36 \<Longrightarrow> class_size_ok (class_sizes ! c)"
  using class_sizes_nth [of c] by (simp add: class_size_ok_def)

lemma acquired_page:
  assumes "acquired h c bs st pg"
  obtains x where "get_page pg st = Some x" "page_good st pg" "pblocks st pg = {}" "pg_owner x = h" "pg_size_class x = c" "pg_block_size x = bs"
proof -
  obtain x where x: "get_page pg st = Some x" "page_unused x" "pg_owner x = h" "pg_size_class x = c" "pg_block_size x = bs"
    using assms by (auto simp: acquired_def)
  have ok: "page_ok (st_mem st) x [] []" and bl: "page_live x [] [] = {}"
    using x(2) by (auto simp: page_unused_def page_ok_def page_live_def page_blocks_def)
  show thesis using that x ok pblocks_eq [OF x(1) ok] bl by (auto simp: page_good_def)
qed

text \<open>The fresh page becomes the head of its class's list.\<close>

lemma push_class_ok:
  assumes b: "base_inv K (regs K st) st g {}" "cache_ok g" and h: "heaps_ok st (cg_out g - {pg}) hl" and t: "threads_ok st"
    and d: "heap_regs K st \<inter> large_regs st = {}" "aband_owned st g" and p: "pg \<in> cg_out g" "acquired (HeapAt a) c (class_sizes ! unat c) st pg"
    and a: "st_heaps st a = Some x" "unat c < 36"
  defines "nx \<equiv> if hp_pages x ! unat c \<noteq> EmptyPage then hp_pages x ! unat c else NullPage"
    and "hl' \<equiv> hl(a := (hl a)(unat c := pg # hl a (unat c)))"
  obtains st' x' where "(do { st \<leftarrow> upd_page pg (\<lambda>x. x\<lparr>pg_prev := NullPage, pg_next := nx\<rparr>) st;
      st \<leftarrow> (if nx \<noteq> NullPage then upd_page nx (\<lambda>y. y\<lparr>pg_prev := pg\<rparr>) st else Some st);
      set_heap_slot (HeapAt a) c pg st }) = Some st'" "heap_inv K st' g hl'" "relink (set (pg # hl a (unat c))) st st'"
    "st_heaps st' = (st_heaps st)(a \<mapsto> x')"
proof -
  let ?l = "hl a (unat c)"
  have ls: "heap_lists st x (hl a)" using h a(1) by (simp add: heaps_ok_def)
  have c: "central_core st g {}" using base_inv_facts(1) [OF b(1)] .
  have sub: "set ?l \<subseteq> cg_out g - {pg}" using heaps_in(1) [OF h a] by blast
  have ex: "\<forall>q \<in> set ?l. get_page q st \<noteq> None" using heaps_in(2) [OF h a] by (auto simp: owned_def)
  have pa: "q \<noteq> NullPage \<and> q \<noteq> EmptyPage" if "q \<in> cg_out g" for q
    using used_not_pooled(2) [OF c, of q] that by (auto simp: used_pages_def)
  have dl: "dlist NullPage (pg_nx st) (pg_pv st) nx ?l"
  proof (cases "?l = []")
    case True
    then show ?thesis using ls a(2) by (simp add: heap_lists_def nx_def dlist_def)
  next
    case False
    then have l: "dlist NullPage (pg_nx st) (pg_pv st) (hp_pages x ! unat c) ?l" using ls a(2) by (auto simp: heap_lists_def)
    then have "hp_pages x ! unat c \<in> set ?l" using False by (cases ?l) (auto simp: dlist_def)
    then show ?thesis using l pa sub by (auto simp: nx_def)
  qed
  obtain y where y: "get_page pg st = Some y" "page_good st pg" "pg_owner y = HeapAt a" "pg_size_class y = c"
    "pg_block_size y = class_sizes ! unat c" by (rule acquired_page [OF p(2)])
  have pn: "pg \<notin> set ?l" "pg \<noteq> NullPage" using sub pa p(1) by auto
  obtain st1 where 1: "(do { st \<leftarrow> upd_page pg (\<lambda>x. x\<lparr>pg_prev := NullPage, pg_next := nx\<rparr>) st;
      if nx \<noteq> NullPage then upd_page nx (\<lambda>y. y\<lparr>pg_prev := pg\<rparr>) st else Some st }) = Some st1"
    "relink (set (pg # ?l)) st st1" "st_heaps st1 = st_heaps st" "dlist NullPage (pg_nx st1) (pg_pv st1) pg (pg # ?l)"
    by (rule page_push_spec [OF dl pn y(1) ex])
  let ?x = "x\<lparr>hp_pages := (hp_pages x)[unat c := pg]\<rparr>"
  let ?st = "set_heap a ?x st1"
  have "length (hp_pages x) = 36" using ls by (simp add: heap_lists_def)
  then have "set_heap_slot (HeapAt a) c pg st1 = Some ?st" using heap_slot_eq(2) [of st1 a x c] a 1(3) by simp
  then have e: "(do { st \<leftarrow> upd_page pg (\<lambda>x. x\<lparr>pg_prev := NullPage, pg_next := nx\<rparr>) st;
      st \<leftarrow> (if nx \<noteq> NullPage then upd_page nx (\<lambda>y. y\<lparr>pg_prev := pg\<rparr>) st else Some st);
      set_heap_slot (HeapAt a) c pg st }) = Some ?st" using 1(1) y(1) by (auto simp: upd_page_def split: if_splits bind_splits)
  have r: "relink (set (pg # ?l)) st ?st" by (rule relink_trans [OF 1(2) relink_set_heap])
  have hs: "st_heaps ?st = (st_heaps st)(a \<mapsto> ?x)" using 1(3) by (simp add: set_heap_def)
  have P: "set (pg # ?l) \<inter> (pooled g \<union> set (cg_aband g)) = {}"
    using c sub p(1) by (auto simp: central_core_def parts_def)
  have new: "owned ?st a (unat c) q" if "q \<in> set (pg # ?l)" for q
    using relink_owned [OF r, of a "unat c" q] heaps_in(2) [OF h a, of q] that y by (auto simp: owned_def)
  have "heaps_ok ?st (cg_out g - {pg} - set ?l \<union> set (pg # ?l)) hl'" unfolding hl'_def
  proof (rule heaps_ok_upd [OF h a hs])
    have "EmptyPage \<notin> set (pg # ?l)" using pa p(1) sub by auto
    then show "get_page EmptyPage ?st = get_page EmptyPage st" using r unfolding relink_def by blast
    show "get_page q ?st = get_page q st \<and> page_good ?st q" if "q \<in> cg_out g - {pg} - set ?l" for q
    proof -
      have "page_good st q" by (rule heaps_out [OF h, of q]) (use that in auto)
      then show ?thesis using r that relink_blocks(2) [OF r] by (simp add: relink_def)
    qed
  qed (use new 1(4) in simp_all)
  moreover have "cg_out g - {pg} - set ?l \<union> set (pg # ?l) = cg_out g" using sub p(1) by auto
  moreover have "regs K ?st = regs K st" "heap_regs K ?st \<inter> large_regs ?st = {}"
    using hs a(1) relink_fields(10) [OF r] d(1) by (auto simp: heap_regs_def large_regs_def)
  moreover have "threads_ok ?st" by (rule threads_ok_slot [OF t a(1) hs]) (use relink_fields [OF r] in simp_all)
  ultimately have "heap_inv K ?st g hl'" using relink_base [OF b(1) r P] b(2) relink_aband [OF r d(2)] by (simp add: heap_inv_def)
  then show thesis using that [OF e _ r hs] by blast
qed

text \<open>The result of an allocation: no block when the kernel refuses memory.\<close>

definition alloc_result :: "u32 \<Rightarrow> addr \<Rightarrow> (addr \<times> u64) set \<Rightarrow> State \<Rightarrow> cghost \<Rightarrow> bool" where
  "alloc_result c b L st g \<longleftrightarrow> (if b = 0 then small_live st g = L else served c b L st g)"

lemma served_nonzero:
  assumes "heap_inv K st g hl" "served c b L st g"
  shows "b \<noteq> 0"
proof -
  obtain p where p: "p \<in> used_pages g" "(b, ucast (class_sizes ! unat c)) \<in> pblocks st p"
    using assms(2) by (auto simp: served_def block_of_def)
  show ?thesis by (rule block_aligned(2) [OF heap_inv_facts(6) [OF assms(1)] p, of 1]) simp_all
qed

text \<open>A page without live blocks serves a block of its class.\<close>

lemma serve_empty_page:
  assumes inv: "heap_inv K st g hl" and pg: "pg \<in> used_pages g" "page_good st pg" "pblocks st pg = {}"
    and a: "st_heaps st a = Some x" "unat c < 36" "pg \<in> set (hl a (unat c))"
  shows "\<exists>b st'. (do { (av, st) \<leftarrow> make_available pg st; if \<not> av then Some (0, st) else pop_page pg st }) = Some (b, st') \<and>
    heap_inv K st' g hl \<and> served c b (small_live st g) st' g \<and> hframe (regs K st \<union> small_live st g) st st' \<and>
    outer_frame st st' \<and> st_regions st' = st_regions st \<and> st_registry st' = st_registry st"
proof -
  obtain av st3 y where 3: "make_available pg st = Some (av, st3)" "heap_inv K st3 g hl" "small_live st3 g = small_live st g"
    "hframe (regs K st \<union> small_live st g) st st3" "outer_frame st st3" "st_registry st3 = st_registry st"
    "get_page pg st3 = Some y" "av \<longrightarrow> pg_free y \<noteq> 0" "pblocks st pg = {} \<longrightarrow> av"
    by (rule make_available_heap [OF inv pg(1,2)])
  have av: "av" "pg_free y \<noteq> 0" using 3(8,9) pg(3) by simp_all
  have a3: "st_heaps st3 a = Some x" using a(1) 3(5) by (simp add: outer_frame_def)
  obtain b y' st4 where 4: "pop_page pg st3 = Some (b, st4)" "st4 = set_page pg y' st3" "heap_inv K st4 g hl"
    "served c b (small_live st3 g) st4 g" "outer_frame st3 st4" "st_registry st4 = st_registry st3" "st_os st4 = st_os st3"
    by (rule pop_page_served [OF 3(2) a3 a(2,3) 3(7) av(2)])
  have "hframe (regs K st \<union> small_live st g) st3 st4" by (rule outer_hframe [OF 4(5)]) (simp add: 4(7))
  then have "hframe (regs K st \<union> small_live st g) st st4" by (rule hframe_trans [OF 3(4)])
  moreover have "st_regions st4 = st_regions st" "st_registry st4 = st_registry st"
    using make_available_side [OF 3(1), of K] 4(2) by (auto simp: side_frame_def)
  ultimately show ?thesis using 3(1,3) av(1) 4(1,3,4) outer_frame_trans [OF 3(5) 4(5)]
    by (intro exI [of _ b] exI [of _ st4]) simp
qed

lemma slow_fresh_ok:
  assumes inv: "heap_inv K st g hl" and r: "roomy (st_registry st)" and a: "st_heaps st a = Some x" "unat c < 36"
  shows "\<exists>b st' g' hl'. slow_fresh K (HeapAt a) c (hp_pages x ! unat c) st = Some (b, st') \<and> heap_inv K st' g' hl' \<and>
    hframe (regs K st \<union> small_live st g) st st' \<and> st_t_heap st' = st_t_heap st \<and> dom (st_heaps st') = dom (st_heaps st) \<and>
    registry_step st st' \<and> alloc_result c b (small_live st g) st' g' \<and> (b = 0 \<longrightarrow> seg_refused K st)"
proof -
  note f = heap_inv_facts [OF inv]
  let ?bs = "class_sizes ! unat c"
  have cs: "class_to_size c = Some ?bs" using class_to_size_eq [of c] a(2) by simp
  obtain pg st1 g1 where 1: "central_acquire_page K (HeapAt a) c ?bs st = Some (pg, st1)" "base_inv K (regs K st) st1 g1 {}" "cache_ok g1"
    "keeps (regs K st) (cg_out g) st st1" "aband_frame st g st1 g1"
    "if pg = NullPage then cg_out g1 = cg_out g \<and> reg_frame st st1 \<and> seg_refused K st
     else pg \<notin> cg_out g \<and> cg_out g1 = insert pg (cg_out g) \<and> acquired (HeapAt a) c ?bs st1 pg"
    "registry_step st st1"
    using central_acquire_page_ok [OF f(1) r f(2) class_size_class [OF a(2)]] by blast
  have o: "outer_frame st st1" using 1(4) by (simp add: keeps_def)
  note lv = central_live [OF 1(4,5) subset_refl]
  have h1: "heaps_ok st1 (cg_out g) hl" by (rule keeps_heaps [OF f(3) 1(4)])
  have fr1: "hframe (regs K st \<union> small_live st g) st st1"
    using outer_hframe [OF o lv(2)] by (simp add: small_live_def Un_assoc)
  have tt: "st_t_heap st1 = st_t_heap st" "st_heaps st1 = st_heaps st" "threads_ok st1" "regs K st1 = regs K st"
    "heap_regs K st1 \<inter> large_regs st1 = {}" "aband_owned st1 g1"
    using o f(4,5) aband_owned_frame [OF f(7) 1(5)] outer_threads [OF o] outer_regs [OF o, of K] by (simp_all add: outer_frame_def)
  note rs = 1(7)
  show ?thesis
  proof (cases "pg = NullPage")
    case True
    then have g1: "cg_out g1 = cg_out g" "seg_refused K st" using 1(6) by simp_all
    then have "heap_inv K st1 g1 hl" "small_live st1 g1 = small_live st g"
      using 1(2,3) h1 tt lv(1) by (simp_all add: heap_inv_def small_live_def)
    then show ?thesis using cs 1(1) True fr1 tt rs g1(2)
      by (intro exI [of _ 0] exI [of _ st1] exI [of _ g1] exI [of _ hl]) (simp add: slow_fresh_def alloc_result_def)
  next
    case False
    then have pg: "pg \<notin> cg_out g" "cg_out g1 = insert pg (cg_out g)" "acquired (HeapAt a) c ?bs st1 pg" using 1(6) by simp_all
    have b1: "base_inv K (regs K st1) st1 g1 {}" using 1(2) tt(4) by simp
    have h1': "heaps_ok st1 (cg_out g1 - {pg}) hl" using h1 pg(1,2) by simp
    have a1: "st_heaps st1 a = Some x" using a(1) tt(2) by simp
    let ?h = "hp_pages x ! unat c" and ?hl = "hl(a := (hl a)(unat c := pg # hl a (unat c)))"
    obtain st2 x2 where 2: "(do { st \<leftarrow> upd_page pg (\<lambda>x. x\<lparr>pg_prev := NullPage, pg_next := if ?h \<noteq> EmptyPage then ?h else NullPage\<rparr>) st1;
        st \<leftarrow> (if (if ?h \<noteq> EmptyPage then ?h else NullPage) \<noteq> NullPage
          then upd_page (if ?h \<noteq> EmptyPage then ?h else NullPage) (\<lambda>y. y\<lparr>pg_prev := pg\<rparr>) st else Some st);
        set_heap_slot (HeapAt a) c pg st }) = Some st2" "heap_inv K st2 g1 ?hl" "relink (set (pg # hl a (unat c))) st1 st2"
      "st_heaps st2 = (st_heaps st1)(a \<mapsto> x2)"
      by (rule push_class_ok [OF b1 1(3) h1' tt(3,5,6) _ pg(3) a1 a(2)]) (use pg(2) in simp)
    have u: "pg \<in> used_pages g1" using pg(2) by (simp add: used_pages_def)
    have e1: "pblocks st1 pg = {}" "page_good st1 pg" by (rule acquired_page [OF pg(3)], simp)+
    have g2: "page_good st2 pg" "pblocks st2 pg = {}" using relink_blocks [OF 2(3)] e1 by simp_all
    have "small_live st1 g1 = small_live st g" using lv(1) e1(1) pg(2) by (simp add: small_live_def)
    then have live2: "small_live st2 g1 = small_live st g" using relink_live [OF 2(3)] by simp
    have a2: "st_heaps st2 a = Some x2" using 2(4) by simp
    obtain b st4 where 4: "(do { (av, st) \<leftarrow> make_available pg st2; if \<not> av then Some (0, st) else pop_page pg st }) = Some (b, st4)"
      "heap_inv K st4 g1 ?hl" "served c b (small_live st2 g1) st4 g1" "hframe (regs K st2 \<union> small_live st2 g1) st2 st4"
      "outer_frame st2 st4" "st_regions st4 = st_regions st2" "st_registry st4 = st_registry st2"
      using serve_empty_page [OF 2(2) u g2 a2 a(2)] by auto
    have e: "slow_fresh K (HeapAt a) c ?h st = Some (b, st4)"
    proof -
      have "slow_fresh K (HeapAt a) c ?h st = (do { st \<leftarrow> (do { st \<leftarrow> upd_page pg (\<lambda>x. x\<lparr>pg_prev := NullPage, pg_next := if ?h \<noteq> EmptyPage then ?h else NullPage\<rparr>) st1;
        st \<leftarrow> (if (if ?h \<noteq> EmptyPage then ?h else NullPage) \<noteq> NullPage
          then upd_page (if ?h \<noteq> EmptyPage then ?h else NullPage) (\<lambda>y. y\<lparr>pg_prev := pg\<rparr>) st else Some st);
        set_heap_slot (HeapAt a) c pg st }); (av, st) \<leftarrow> make_available pg st; if \<not> av then Some (0, st) else pop_page pg st })"
        using cs 1(1) False by (simp add: slow_fresh_def Let_def bind_assoc)
      then show ?thesis unfolding 2(1) using 4(1) by simp
    qed
    have rg: "st_regions st4 = st_regions st1" "st_registry st4 = st_registry st1" "dom (st_heaps st4) = dom (st_heaps st)"
      using relink_fields [OF 2(3)] 2(4) a1 tt(2) 4(5-7) by (auto simp: outer_frame_def)
    have "hframe (regs K st \<union> small_live st g) st st4"
    proof (rule hframe_trans [OF hframe_trans [OF fr1 relink_hframe [OF 2(3)]]])
      have "regs K st2 = regs K st" using relink_regs(1) [OF 2(3), of K] 2(4) a1 tt(4) by auto
      then show "hframe (regs K st \<union> small_live st g) st2 st4" using 4(4) live2 by simp
    qed
    moreover have "registry_step st st4" using rs rg by (simp add: registry_step_def slack_roomy reg_exact_def)
    moreover have "st_t_heap st4 = st_t_heap st" using 4(5) relink_fields(5) [OF 2(3)] tt(1) by (simp add: outer_frame_def)
    moreover have "served c b (small_live st g) st4 g1" using 4(3) live2 by simp
    ultimately show ?thesis using e 4(2) rg(3) served_nonzero [OF 4(2)]
      by (intro exI [of _ b] exI [of _ st4] exI [of _ g1] exI [of _ ?hl]) (simp add: alloc_result_def)
  qed
qed

lemma heap_malloc_slow_ok:
  assumes inv: "heap_inv K st g hl" and r: "roomy (st_registry st)" and a: "st_heaps st a = Some x" "unat c < 36"
  shows "\<exists>b st' g' hl'. heap_malloc_slow K (HeapAt a) c st = Some (b, st') \<and> heap_inv K st' g' hl' \<and>
    hframe (regs K st \<union> small_live st g) st st' \<and> st_t_heap st' = st_t_heap st \<and> dom (st_heaps st') = dom (st_heaps st) \<and>
    registry_step st st' \<and> alloc_result c b (small_live st g) st' g' \<and> (b = 0 \<longrightarrow> seg_refused K st)"
proof -
  note l = heap_list_pages [OF inv a]
  have hs: "heap_slot (HeapAt a) c st = Some (hp_pages x ! unat c)" using heap_slot_eq(1) [OF a(1)] l(3) a(2) by simp
  show ?thesis
  proof (cases "hl a (unat c) = []")
    case True
    then have "heap_malloc_slow K (HeapAt a) c st = slow_fresh K (HeapAt a) c (hp_pages x ! unat c) st"
      using hs l(4) by (simp add: heap_malloc_slow_def)
    then show ?thesis using slow_fresh_ok [OF inv r a] by simp
  next
    case False
    then have d: "dlist NullPage (pg_nx st) (pg_pv st) (hp_pages x ! unat c) (hl a (unat c))" using l(4) by simp
    then have hd: "hp_pages x ! unat c = (case hl a (unat c) of [] \<Rightarrow> NullPage | y # _ \<Rightarrow> y)"
      using False by (cases "hl a (unat c)") (auto simp: dlist_def)
    then have "hp_pages x ! unat c \<in> cg_out g" using False l(1) by (cases "hl a (unat c)") auto
    then have ne: "hp_pages x ! unat c \<noteq> EmptyPage"
      using used_not_pooled(2) [OF heap_inv_facts(6) [OF inv], of "hp_pages x ! unat c"] by (auto simp: used_pages_def)
    obtain r st1 hl1 where 1: "slow_walk (HeapAt a) c (hp_pages x ! unat c) (hp_pages x ! unat c) st = Some (r, st1)" "heap_inv K st1 g hl1"
      "hframe (regs K st \<union> small_live st g) st st1" "side_frame K st st1"
      "case r of None \<Rightarrow> hl1 = hl \<and> small_live st1 g = small_live st g \<and> st_heaps st1 = st_heaps st
       | Some b \<Rightarrow> served c b (small_live st g) st1 g"
      using slow_walk_ok [OF inv a _ False hd, of "[]"] by auto
    have sf: "st_t_heap st1 = st_t_heap st" "dom (st_heaps st1) = dom (st_heaps st)" "st_registry st1 = st_registry st"
      "st_regions st1 = st_regions st" "no_new_map st st1" using 1(4) by (simp_all add: side_frame_def)
    show ?thesis
    proof (cases r)
      case (Some b)
      then have "alloc_result c b (small_live st g) st1 g" "b \<noteq> 0" using 1(5) served_nonzero [OF 1(2)] by (simp_all add: alloc_result_def)
      then show ?thesis using hs ne 1 Some sf
        by (intro exI [of _ b] exI [of _ st1] exI [of _ g] exI [of _ hl1]) (simp add: heap_malloc_slow_def registry_step_def slack_roomy reg_exact_def)
    next
      case None
      then have n: "small_live st1 g = small_live st g" "st_heaps st1 = st_heaps st" using 1(5) by simp_all
      have "heap_regs K st1 = heap_regs K st" "large_regs st1 = large_regs st"
        using sf(2,4) by (simp_all add: heap_regs_def large_regs_def get_large_def)
      then have "regs K st1 = regs K st" by simp
      moreover obtain b st2 g2 hl2 where "slow_fresh K (HeapAt a) c (hp_pages x ! unat c) st1 = Some (b, st2)" "heap_inv K st2 g2 hl2"
        "hframe (regs K st1 \<union> small_live st1 g) st1 st2" "st_t_heap st2 = st_t_heap st1" "dom (st_heaps st2) = dom (st_heaps st1)"
        "registry_step st1 st2" "alloc_result c b (small_live st1 g) st2 g2" "b = 0 \<longrightarrow> seg_refused K st1"
        using slow_fresh_ok [OF 1(2) _ _ a(2), of a x] a(1) n(2) sf(3) assms(2) by auto
      ultimately show ?thesis using hs ne 1(1) None n sf hframe_trans [OF 1(3)] seg_refused_back [OF sf(5), of K]
        by (intro exI [of _ b] exI [of _ st2] exI [of _ g2] exI [of _ hl2]) (simp add: heap_malloc_slow_def registry_step_def slack_roomy reg_exact_def)
    qed
  qed
qed

section \<open>Creating a heap\<close>

lemma heap_os_change:
  assumes b: "base_inv K R st g {}" "heaps_ok st (cg_out g) hl" "aband_owned st g" and r: "reg_inv r" "reg_keys r \<subseteq> dom (st_regions st)"
    and h: "os_holds K os (seg_regions (set (cg_segs g)) \<union> R' \<union> reg_region K r)"
      "seg_regions (set (cg_segs g)) \<inter> R' = {}" "(seg_regions (set (cg_segs g)) \<union> R') \<inter> reg_region K r = {}"
    and R': "\<forall>a h. get_large a st = Some h \<longrightarrow> (a, lh_mmap_size h) \<in> R'"
    and m: "same_on (seg_regions (set (cg_segs g)) \<union> Q) (st_mem st) (mem os)"
  defines "st' \<equiv> st\<lparr>st_registry := r, st_os := os\<rparr>"
  shows "base_inv K R' st' g {}" "heaps_ok st' (cg_out g) hl" "small_live st' g = small_live st g"
    "hframe (Q \<union> small_live st g) st st'" "aband_owned st' g"
proof -
  note o = os_change [OF b(1) r h R' m, folded st'_def]
  have "cg_out g \<subseteq> seg_pages (set (cg_segs g))"
    using used_seg_pages [OF base_inv_facts(1) [OF b(1)]] by (simp add: used_pages_def)
  then have k: "keeps Q (cg_out g) st st'" by (rule keeps_mono [OF o(2) order_refl])
  note lv = central_live [OF k o(3) order_refl]
  show "base_inv K R' st' g {}" by (rule o(1))
  show "aband_owned st' g" by (rule aband_owned_frame [OF b(3) o(3)])
  show "heaps_ok st' (cg_out g) hl" by (rule keeps_heaps [OF b(2) k])
  show "small_live st' g = small_live st g" using lv(1) by (simp add: small_live_def)
  show "hframe (Q \<union> small_live st g) st st'"
    using lv(2) k by (intro outer_hframe) (simp_all add: small_live_def Un_assoc keeps_def)
qed

text \<open>The central heap does not depend on the thread heaps' fields.\<close>

lemma heaps_access [simp]:
  "get_page p (st\<lparr>st_heaps := H\<rparr>) = get_page p st" "get_seg s (st\<lparr>st_heaps := H\<rparr>) = get_seg s st"
  by (simp_all add: get_page_def get_seg_def)

lemma threads_access:
  fixes st H G T
  defines "st' \<equiv> st\<lparr>st_heaps := H, st_g_registry := G, st_t_heap := T\<rparr>"
  shows "get_page p st' = get_page p st" "get_seg s st' = get_seg s st" "get_large a st' = get_large a st"
    "pg_nx st' = pg_nx st" "pg_pv st' = pg_pv st" "seg_nx st' = seg_nx st" "av_nx st' = av_nx st" "av_pv st' = av_pv st"
    "pblocks st' p = pblocks st p" "page_good st' p = page_good st p"
  by (simp_all add: st'_def link_defs fun_eq_iff get_page_def get_seg_def get_large_def pblocks_def page_good_def)

lemma base_inv_threads:
  "base_inv K R (st\<lparr>st_heaps := H, st_g_registry := G, st_t_heap := T\<rparr>) g L = base_inv K R st g L"
  by (simp add: base_inv_def central_lists_def central_core_def avail_list_def seg_inv_def page_area_ok_def world_ok_def
    threads_access del: constants_value)

lemma small_live_threads: "small_live (st\<lparr>st_heaps := H, st_g_registry := G, st_t_heap := T\<rparr>) g = small_live st g"
  by (simp add: small_live_def aband_blocks_def threads_access)

text \<open>A new heap whose lists are all empty.\<close>

lemma add_heap_ok:
  assumes b: "base_inv K (insert (a, heap_bytes K) (regs K st)) st g {}" "cache_ok g" and h: "heaps_ok st (cg_out g) hl"
    and t: "threads_ok st" "st_t_heap st t = NullHeap" and d: "heap_regs K st \<inter> large_regs st = {}" "aband_owned st g"
    and a: "a \<notin> dom (st_heaps st)" "(a, heap_bytes K) \<notin> large_regs st"
    and x: "hp_pages x = replicate 36 EmptyPage" "hp_reg_next x = st_g_registry st"
  defines "st' \<equiv> st\<lparr>st_heaps := (st_heaps st)(a \<mapsto> x), st_g_registry := HeapAt a, st_t_heap := (st_t_heap st)(t := HeapAt a)\<rparr>"
  shows "heap_inv K st' g (hl(a := (\<lambda>_. [])))" "regs K st' = insert (a, heap_bytes K) (regs K st)"
proof -
  have ac: "get_page p st' = get_page p st" "pg_nx st' = pg_nx st" "pg_pv st' = pg_pv st" "page_good st' p = page_good st p" for p
    unfolding st'_def by (rule threads_access)+
  show rg: "regs K st' = insert (a, heap_bytes K) (regs K st)"
    by (auto simp: heap_regs_def large_regs_def st'_def threads_access)
  have dj: "heap_regs K st' \<inter> large_regs st' = {}"
    using d(1) a(2) by (auto simp: heap_regs_def large_regs_def st'_def threads_access)
  have ow: "owned st' e c q = owned st e c q" for e c q by (simp add: owned_def ac)
  have "heap_lists st' y ((hl(a := (\<lambda>_. []))) e)" if "st_heaps st' e = Some y" for e y
    using that h x(1) by (cases "e = a") (simp_all add: heaps_ok_def heap_lists_def st'_def ac(2,3) [unfolded st'_def])
  moreover have "cg_out g = {p. \<exists>e \<in> dom (st_heaps st'). \<exists>c < 36. p \<in> set ((hl(a := (\<lambda>_. []))) e c)}"
    using h a(1) unfolding heaps_ok_def by (auto simp: st'_def)
  ultimately have "heaps_ok st' (cg_out g) (hl(a := (\<lambda>_. [])))"
    using h by (simp add: heaps_ok_def ow ac(1)) (simp add: st'_def)
  moreover have "threads_ok st'"
  proof -
    obtain hs where hs: "linked NullHeap (hp_nx st) (st_g_registry st) (map HeapAt hs) NullHeap" "set hs = dom (st_heaps st)"
      using t(1) by (auto simp: threads_ok_def)
    have "hp_nx st' (HeapAt e) = (if e = a then st_g_registry st else hp_nx st (HeapAt e))" for e
      using x(2) by (simp add: hp_nx_def get_heap_def st'_def)
    then have "linked NullHeap (hp_nx st') h' (map HeapAt hs) NullHeap = linked NullHeap (hp_nx st) h' (map HeapAt hs) NullHeap" for h'
      using hs(2) a(1) by (intro linked_cong) (auto split: if_splits)
    then have "linked NullHeap (hp_nx st') (st_g_registry st') (map HeapAt (a # hs)) NullHeap"
      using hs(1) x(2) by (simp add: st'_def hp_nx_def get_heap_def)
    moreover have "set (a # hs) = dom (st_heaps st')" using hs(2) by (simp add: st'_def)
    ultimately have l: "\<exists>hs. linked NullHeap (hp_nx st') (st_g_registry st') (map HeapAt hs) NullHeap \<and> set hs = dom (st_heaps st')"
      by blast
    have own: "st_t_heap st u = NullHeap \<or> (\<exists>e \<in> dom (st_heaps st). st_t_heap st u = HeapAt e)" for u
      using t(1) unfolding threads_ok_def by blast
    have na: "st_t_heap st u \<noteq> HeapAt a" for u using own [of u] a(1) by auto
    have th: "st_t_heap st' u = (if u = t then HeapAt a else st_t_heap st u)" for u by (simp add: st'_def)
    have uniq: "st_t_heap st u = st_t_heap st v \<longrightarrow> st_t_heap st u \<noteq> NullHeap \<longrightarrow> u = v" for u v
      using t(1) unfolding threads_ok_def by blast
    have "st_t_heap st' u \<noteq> NullHeap \<longrightarrow> (\<exists>e \<in> dom (st_heaps st'). st_t_heap st' u = HeapAt e)" for u
      using own [of u] unfolding th by (auto simp: st'_def)
    moreover have "st_t_heap st' u = st_t_heap st' v \<longrightarrow> st_t_heap st' u \<noteq> NullHeap \<longrightarrow> u = v" for u v
      using uniq [of u v] na [of u] na [of v] unfolding th by auto
    ultimately show ?thesis using l unfolding threads_ok_def by blast
  qed
  moreover have "aband_owned st' g" using d(2) by (simp add: aband_owned_def page_owner_def ac(1))
  ultimately show "heap_inv K st' g (hl(a := (\<lambda>_. [])))" using b rg dj
    by (simp add: heap_inv_def) (simp add: st'_def base_inv_threads)
qed

lemma world_regs:
  assumes "heap_inv K st g hl"
  defines "S \<equiv> seg_regions (set (cg_segs g))" and "Q \<equiv> reg_region K (st_registry st)"
  shows "os_holds K (st_os st) (S \<union> regs K st \<union> Q)" "S \<inter> regs K st = {}" "(S \<union> regs K st) \<inter> Q = {}"
    "reg_inv (st_registry st)" "reg_keys (st_registry st) \<subseteq> dom (st_regions st)"
    "\<forall>a h. get_large a st = Some h \<longrightarrow> (a, lh_mmap_size h) \<in> regs K st" "\<forall>a. get_seg a st \<noteq> None \<longleftrightarrow> a \<in> set (cg_segs g)"
proof -
  have "world_ok K (regs K st) st (set (cg_segs g))" using base_inv_facts(5) [OF heap_inv_facts(1) [OF assms(1)]] .
  then show "os_holds K (st_os st) (S \<union> regs K st \<union> Q)" "S \<inter> regs K st = {}" "(S \<union> regs K st) \<inter> Q = {}"
    "reg_inv (st_registry st)" "reg_keys (st_registry st) \<subseteq> dom (st_regions st)"
    "\<forall>a h. get_large a st = Some h \<longrightarrow> (a, lh_mmap_size h) \<in> regs K st" "\<forall>a. get_seg a st \<noteq> None \<longleftrightarrow> a \<in> set (cg_segs g)"
    unfolding world_ok_def S_def Q_def by blast+
qed

lemma fresh_region:
  assumes inv: "heap_inv K st g hl" and e: "os_alloc_aligned K n al (st_os st) = (a, os)" "a \<noteq> 0"
  defines "S \<equiv> seg_regions (set (cg_segs g))" and "Q \<equiv> reg_region K (st_registry st)"
  shows "os_holds K os (S \<union> insert (a, n) (regs K st) \<union> Q)" "(a, n) \<notin> S" "(a, n) \<notin> regs K st" "(a, n) \<notin> Q"
    "\<And>m. (a, m) \<notin> S \<union> regs K st \<union> Q" "same_on (S \<union> regs K st \<union> Q) (st_mem st) (mem os)"
proof -
  note w = world_regs [OF inv, folded S_def Q_def]
  note o = os_holds_alloc [OF w(1) e]
  show "os_holds K os (S \<union> insert (a, n) (regs K st) \<union> Q)" using o(1) by simp
  show m: "(a, m) \<notin> S \<union> regs K st \<union> Q" for m
  proof
    assume i: "(a, m) \<in> S \<union> regs K st \<union> Q"
    have "m \<noteq> 0" by (rule os_holds_region(2) [OF w(1) i])
    then have "a \<in> region_set (a, m)" by (rule region_set_nonempty)
    then have "a \<notin> region_set (a, n)" using o(4) [OF i] by blast
    then show False using region_set_nonempty [OF o(3)] by blast
  qed
  show "(a, n) \<notin> S" "(a, n) \<notin> regs K st" "(a, n) \<notin> Q" using m [of n] by simp_all
  show "same_on (S \<union> regs K st \<union> Q) (st_mem st) (mem os)" using o(4) by (auto simp: same_on_def)
qed

lemma heap_create_ok:
  assumes inv: "heap_inv K st g hl" and t: "st_t_heap st t = NullHeap"
  shows "\<exists>h st' hl'. heap_create K t st = (h, st') \<and> heap_inv K st' g hl' \<and> small_live st' g = small_live st g \<and>
    hframe (regs K st \<union> small_live st g) st st' \<and> st_registry st' = st_registry st \<and> st_regions st' = st_regions st \<and>
    st_t_heap st' = (st_t_heap st)(t := h) \<and> regs K st \<subseteq> regs K st' \<and> (h \<noteq> NullHeap \<longrightarrow> (\<exists>a \<in> dom (st_heaps st'). h = HeapAt a))"
proof -
  note f = heap_inv_facts [OF inv] and w = world_regs [OF inv]
  obtain a os where e: "os_alloc_aligned K (heap_bytes K) (os_page_size K) (st_os st) = (a, os)" by fastforce
  let ?st = "st\<lparr>st_registry := st_registry st, st_os := os\<rparr>" and ?S = "seg_regions (set (cg_segs g))"
  have se: "st\<lparr>st_os := os\<rparr> = ?st" by simp
  show ?thesis
  proof (cases "a = 0")
    case True
    note h = os_holds_refused [OF w(1) e [unfolded True]]
    have i: "base_inv K (regs K st) ?st g {}" "heaps_ok ?st (cg_out g) hl" "small_live ?st g = small_live st g"
      "hframe (regs K st \<union> small_live st g) st ?st" "aband_owned ?st g"
      by (rule heap_os_change [OF f(1,3,7) w(4,5) h(1) w(2,3,6), where Q = "regs K st"]; simp add: h(2))+
    have "outer_frame st ?st" by (simp add: outer_frame_def get_large_def)
    then have "heap_inv K ?st g hl" by (intro heap_inv_outer [OF i(1) f(2) i(2)]) (use f i(5) in simp_all)
    moreover have "heap_create K t st = (NullHeap, ?st)" using e True by (simp add: heap_create_def)
    moreover have "regs K ?st = regs K st" by (simp add: heap_regs_def large_regs_def get_large_def)
    ultimately show ?thesis using i(3,4) t by (intro exI [of _ NullHeap] exI [of _ ?st] exI [of _ hl]) (simp add: fun_upd_idem)
  next
    case False
    note fr = fresh_region [OF inv e False]
    have m: "same_on (?S \<union> regs K st) (st_mem st) (mem os)" using fr(6) by (auto simp: same_on_def)
    let ?R = "insert (a, heap_bytes K) (regs K st)"
    let ?x = "\<lparr>hp_pages = replicate (unat num_size_classes) EmptyPage, hp_n_malloc = 0, hp_n_fast = 0,
                hp_n_slow = 0, hp_reg_next = st_g_registry st\<rparr>"
    let ?st' = "?st\<lparr>st_heaps := (st_heaps ?st)(a \<mapsto> ?x), st_g_registry := HeapAt a, st_t_heap := (st_t_heap ?st)(t := HeapAt a)\<rparr>"
    have i: "base_inv K ?R ?st g {}" "heaps_ok ?st (cg_out g) hl" "small_live ?st g = small_live st g"
      "hframe (regs K st \<union> small_live st g) st ?st" "aband_owned ?st g"
      by (rule heap_os_change [OF f(1,3,7) w(4,5) fr(1), where Q = "regs K st"]; use w(2,3,6) fr(2-4) m in simp)+
    have rg: "regs K ?st = regs K st" "threads_ok ?st" "heap_regs K ?st \<inter> large_regs ?st = {}"
    proof -
      have "outer_frame st ?st" by (simp add: outer_frame_def get_large_def)
      then show "regs K ?st = regs K st" "threads_ok ?st" "heap_regs K ?st \<inter> large_regs ?st = {}"
        using f(4,5) outer_threads [of st ?st] outer_regs [of st ?st K] by simp_all
    qed
    have na: "a \<notin> dom (st_heaps ?st)" using fr(3) by (auto simp: heap_regs_def)
    have nl: "(a, heap_bytes K) \<notin> large_regs ?st" using fr(3) rg(1) by auto
    have "heap_inv K ?st' g (hl(a := (\<lambda>_. [])))" "regs K ?st' = insert (a, heap_bytes K) (regs K ?st)"
      by (rule add_heap_ok [OF _ f(2) i(2) rg(2) _ rg(3) i(5) na nl]; use i(1) t rg(1) num_size_classes_value in simp)+
    moreover have "heap_create K t st = (HeapAt a, ?st')" using e False by (simp add: heap_create_def set_heap_def Let_def)
    moreover have "hframe (regs K st \<union> small_live st g) st ?st'"
      using i(4) by (simp add: hframe_def) (simp add: get_large_def)
    moreover have "small_live ?st' g = small_live st g" unfolding small_live_threads by (rule i(3))
    ultimately show ?thesis using rg(1)
      by (intro exI [of _ "HeapAt a"] exI [of _ ?st'] exI [of _ "hl(a := (\<lambda>_. []))"]) (simp add: subset_insertI)
  qed
qed

section \<open>Allocation\<close>

lemma heap_get_ok:
  assumes inv: "heap_inv K st g hl"
  shows "\<exists>h st' hl'. heap_get K t st = (h, st') \<and> heap_inv K st' g hl' \<and> small_live st' g = small_live st g \<and>
    hframe (regs K st \<union> small_live st g) st st' \<and> st_registry st' = st_registry st \<and> st_regions st' = st_regions st \<and>
    st_t_heap st' = (st_t_heap st)(t := h) \<and> regs K st \<subseteq> regs K st' \<and> (h \<noteq> NullHeap \<longrightarrow> (\<exists>a \<in> dom (st_heaps st'). h = HeapAt a))"
proof (cases "st_t_heap st t = NullHeap")
  case True
  then show ?thesis using heap_create_ok [OF inv True] by (simp add: heap_get_def)
next
  case False
  then have "\<exists>a \<in> dom (st_heaps st). st_t_heap st t = HeapAt a" using heap_inv_facts(4) [OF inv] unfolding threads_ok_def by blast
  then show ?thesis using inv False hframe_refl
    by (intro exI [of _ "st_t_heap st t"] exI [of _ st] exI [of _ hl]) (simp add: heap_get_def)
qed

lemma heap_malloc_ok:
  assumes inv: "heap_inv K st g hl" and r: "roomy (st_registry st)" and c: "unat (size_class sz) < 36"
    and t: "fst (heap_get K t st) \<noteq> NullHeap"
  shows "\<exists>b st' g' hl'. heap_malloc K t sz st = Some (b, st') \<and> heap_inv K st' g' hl' \<and>
    hframe (regs K st \<union> small_live st g) st st' \<and> registry_step st st' \<and>
    st_t_heap st' = (st_t_heap st)(t := fst (heap_get K t st)) \<and> alloc_result (size_class sz) b (small_live st g) st' g' \<and>
    (b = 0 \<longrightarrow> seg_refused K (snd (heap_get K t st)))"
proof -
  let ?c = "size_class sz"
  obtain h st1 hl1 where 1: "heap_get K t st = (h, st1)" "heap_inv K st1 g hl1" "small_live st1 g = small_live st g"
    "hframe (regs K st \<union> small_live st g) st st1" "st_registry st1 = st_registry st" "st_regions st1 = st_regions st"
    "st_t_heap st1 = (st_t_heap st)(t := h)" "regs K st \<subseteq> regs K st1" "h \<noteq> NullHeap \<longrightarrow> (\<exists>a \<in> dom (st_heaps st1). h = HeapAt a)"
    using heap_get_ok [OF inv, of t] by blast
  have hn: "h \<noteq> NullHeap" using 1(1) t by simp
  then obtain a x where a: "h = HeapAt a" "st_heaps st1 a = Some x" using 1(9) by blast
  note l = heap_list_pages [OF 1(2) a(2) c]
  let ?p = "hp_pages x ! unat ?c"
  have hs: "heap_slot h ?c st1 = Some ?p" using heap_slot_eq(1) [OF a(2)] l(3) c a(1) by simp
  have r1: "registry_step st st' = registry_step st1 st'" for st' using 1(5,6) by (simp add: registry_step_def slack_roomy reg_exact_def)
  have fr: "hframe (regs K st \<union> small_live st g) st st'" if "hframe (regs K st1 \<union> small_live st1 g) st1 st'" for st'
    using hframe_trans [OF 1(4) hframe_mono [OF that]] 1(3,8) by blast
  obtain z where z: "get_page ?p st1 = Some z"
  proof (cases "hl1 a (unat ?c) = []")
    case True
    then show thesis using that l(4) heap_inv_facts(3) [OF 1(2)] by (simp add: heaps_ok_def)
  next
    case False
    then have "?p \<in> set (hl1 a (unat ?c))" using l(4) by (cases "hl1 a (unat ?c)") (auto simp: dlist_def)
    then show thesis using that l(2) by auto
  qed
  show ?thesis
  proof (cases "pg_free z = 0")
    case True
    then have "heap_malloc K t sz st = heap_malloc_slow K h ?c st1" using 1(1) hs z by (simp add: heap_malloc_def Let_def)
    moreover obtain b st2 g2 hl2 where "heap_malloc_slow K h ?c st1 = Some (b, st2)" "heap_inv K st2 g2 hl2"
      "hframe (regs K st1 \<union> small_live st1 g) st1 st2" "st_t_heap st2 = st_t_heap st1" "registry_step st1 st2"
      "alloc_result ?c b (small_live st1 g) st2 g2" "b = 0 \<longrightarrow> seg_refused K st1"
      using heap_malloc_slow_ok [OF 1(2) _ a(2) c] r 1(5) a(1) by auto
    ultimately show ?thesis using fr r1 1(1,3,7) by (intro exI [of _ b] exI [of _ st2] exI [of _ g2] exI [of _ hl2]) simp
  next
    case False
    have ne: "hl1 a (unat ?c) \<noteq> []"
      using l(4) z False heap_inv_facts(3) [OF 1(2)] by (auto simp: heaps_ok_def zero_page_def)
    then have pin: "?p \<in> set (hl1 a (unat ?c))" using l(4) by (cases "hl1 a (unat ?c)") (auto simp: dlist_def)
    obtain b z' st2 where 2: "page_pop z (st_mem st1) = Some (b, z')" "st2 = set_page ?p z' st1" "b = pg_free z" "heap_inv K st2 g hl1"
      "served ?c b (small_live st1 g) st2 g" "outer_frame st1 st2" "st_os st2 = st_os st1"
      by (rule pop_page_served [OF 1(2) a(2) c pin z False])
    have "z' = z\<lparr>pg_free := load64 (st_mem st1) (pg_free z), pg_used := pg_used z + 1\<rparr>"
      using 2(1) False by (auto simp: page_pop_def Let_def)
    then have e: "heap_malloc K t sz st = Some (b, st2)" using 1(1) hs z False 2(2,3) by (simp add: heap_malloc_def Let_def)
    have "hframe (regs K st1 \<union> small_live st1 g) st1 st2" by (rule outer_hframe [OF 2(6)]) (simp add: 2(7))
    moreover have "registry_step st1 st2" using 2(2) by (simp add: registry_step_def slack_roomy reg_exact_def)
    ultimately show ?thesis using e fr r1 1(1,3,7) 2(4,5) served_nonzero [OF 2(4,5)]
      by (intro exI [of _ b] exI [of _ st2] exI [of _ g] exI [of _ hl1]) (simp add: alloc_result_def 2(2))
  qed
qed

lemma heap_malloc_null_heap:
  "fst (heap_get K t st) = NullHeap \<Longrightarrow> heap_malloc K t sz st = None"
  by (simp add: heap_malloc_def heap_slot_def get_heap_def split_beta)

end
