(* ===== verification/Heap_Free.thy ===== *)
theory Heap_Free
  imports Heap_Malloc
begin

text \<open>
  The free path of the thread heaps (src/src/heap.h, src/src/heap.cpp) and the exit of a
  thread: a free by the owner, by another thread or on an abandoned page takes exactly the
  freed block out of the live ones; an exiting thread gives its pages back or abandons them
  and loses no live block.
\<close>

section \<open>Recovering the page of a block\<close>

lemma block_page:
  assumes c: "central_core st g L" and p: "p \<in> used_pages g" "(b, n) \<in> pblocks st p"
  shows "page_of (segment_of b) b = p" "region_base b \<in> set (cg_segs g)" "kind_of b st = Some Small"
proof -
  obtain x where x: "get_page p st = Some x" using p(2) by (auto simp: pblocks_def)
  have "p \<in> pooled g \<union> set (cg_aband g) \<union> cg_out g \<union> L" using p(1) by (auto simp: used_pages_def)
  then obtain s i where s: "p = PageAt s i" "s \<in> set (cg_segs g)" "i \<in> {1..<64}" "pg_area x = s + of_nat i * PAGE_SIZE"
    by (rule page_core [OF c]) (use x in simp)
  have "fst (b, n) \<in> region_set (b, n)" by (rule pblocks_nonempty(1) [OF p(2)])
  then have ia: "in_region (s + of_nat i * PAGE_SIZE) PAGE_SIZE b" using pblocks_area [OF x p(2), of b] unfolding s(4) by simp
  have i: "seg_inv st s (cg_pool g s)" using c s(2) by (simp add: central_core_def)
  then have sa: "segment_aligned s" "i < 64" using s(3) by (simp_all add: seg_inv_def)
  note r = area_recover [OF sa ia]
  show "page_of (segment_of b) b = p" using r(1,2) s(1) by (simp add: page_of_def segment_of_def)
  show "region_base b \<in> set (cg_segs g)" using r(1) s(2) by simp
  obtain y where y: "get_seg s st = Some y" "sg_kind y = Small" using i by (auto simp: seg_inv_def)
  then show "kind_of b st = Some Small" using r(1) by (auto simp: kind_of_def get_seg_def split: option.splits Region.splits)
qed

section \<open>Freeing a block\<close>

lemma free_step_ok:
  assumes inv: "heap_inv K st g hl" and p: "p \<in> used_pages g" "(b, n) \<in> pblocks st p" and x: "get_page p st = Some x"
    "page_ok (st_mem st) x fl tf" and sc: "page_static x' = page_static x" and ok: "page_ok m x' fl' tf'"
    and lv: "page_live x' fl' tf' = page_live x fl tf - {b}" and fr: "page_frame x (page_live x fl tf - {b}) (st_mem st) m"
  defines "st' \<equiv> page_step p x' m st"
  shows "heap_inv K st' g hl" "outer_frame st st'" "small_live st' g = small_live st g - {(b, n)}"
    "pblocks st' p = pblocks st p - {(b, n)}" "hframe (regs K st \<union> (small_live st g - {(b, n)})) st st'"
    "st_registry st' = st_registry st"
proof -
  note s = heap_page_step [OF inv p(1) x(1) sc ok fr, folded st'_def] and pe = pblocks_eq [OF x]
  have n: "n = ucast (pg_block_size x)" using p(2) pe by auto
  show "heap_inv K st' g hl" "outer_frame st st'" "st_registry st' = st_registry st" by (fact s(1), fact s(2), fact s(6))
  show pb: "pblocks st' p = pblocks st p - {(b, n)}" using s(4) pe lv n by auto
  have sub: "pblocks st p \<subseteq> small_live st g" using p(1) by (auto simp: small_live_used)
  then show "small_live st' g = small_live st g - {(b, n)}" using s(3) pb p(2) by blast
  have "{c \<in> pblocks st p. fst c \<notin> page_live x fl tf - {b}} = {(b, n)}" using pe p(2) n by auto
  then show "hframe (regs K st \<union> (small_live st g - {(b, n)})) st st'" using s(5) by simp
qed

text \<open>A page with no live block leaves its list, unless it is the head, and goes back to the
  central heap.\<close>

lemma unlink_class_ok:
  assumes inv: "heap_inv K st g hl" and a: "st_heaps st a = Some h" "c < 36" and l: "hl a c = as @ p # bs" "as \<noteq> []"
    and x: "get_page p st = Some x"
  obtains st1 st2 where "upd_page (pg_prev x) (\<lambda>y. y\<lparr>pg_next := pg_next x\<rparr>) st = Some st1" "get_page p st1 = Some x"
    "(if pg_next x \<noteq> NullPage then upd_page (pg_next x) (\<lambda>y. y\<lparr>pg_prev := pg_prev x\<rparr>) st1 else Some st1) = Some st2"
    "base_inv K (regs K st) st2 g {}" "heaps_ok st2 (cg_out g - {p}) (hl(a := (hl a)(c := as @ bs)))"
    "relink (set (as @ bs)) st st2" "st_heaps st2 = st_heaps st"
proof -
  note f = heap_inv_facts [OF inv] and hl = heap_list_pages [OF inv a]
  let ?h = "hp_pages h ! c"
  have d: "dlist NullPage (pg_nx st) (pg_pv st) ?h (as @ p # bs)" using hl(4) l by simp
  have dist: "distinct (as @ p # bs)" by (rule dlist_distinct [OF d])
  have ex: "\<forall>q \<in> set (as @ p # bs). get_page q st \<noteq> None" using hl(2) l(1) by simp
  obtain st1 st2 where 1: "upd_page (pg_prev x) (\<lambda>z. z\<lparr>pg_next := pg_next x\<rparr>) st = Some st1" "get_page p st1 = Some x"
    "(if pg_next x \<noteq> NullPage then upd_page (pg_next x) (\<lambda>z. z\<lparr>pg_prev := pg_prev x\<rparr>) st1 else Some st1) = Some st2"
    "relink (set (as @ bs)) st st2" "st_heaps st2 = st_heaps st" "dlist NullPage (pg_nx st2) (pg_pv st2) ?h (as @ bs)"
    by (rule page_unlink_spec [OF d l(2) ex x])
  have sub: "set (as @ p # bs) \<subseteq> cg_out g" using hl(1) l(1) by simp
  then have P: "set (as @ bs) \<inter> (pooled g \<union> set (cg_aband g)) = {}" using f(6) by (auto simp: central_core_def parts_def)
  have ne: "EmptyPage \<notin> set (as @ bs)" using used_not_pooled(2) [OF f(6), of EmptyPage] sub by (auto simp: used_pages_def)
  have "h\<lparr>hp_pages := (hp_pages h)[c := ?h]\<rparr> = h" by simp
  then have hp: "st_heaps st2 = (st_heaps st)(a \<mapsto> h\<lparr>hp_pages := (hp_pages h)[c := ?h]\<rparr>)" using 1(5) a(1) by (simp add: fun_upd_idem)
  have "heaps_ok st2 (cg_out g - set (hl a c) \<union> set (as @ bs)) (hl(a := (hl a)(c := as @ bs)))"
  proof (rule heaps_ok_upd [OF f(3) a hp])
    show "get_page EmptyPage st2 = get_page EmptyPage st" using 1(4) ne unfolding relink_def by blast
    show "get_page q st2 = get_page q st \<and> page_good st2 q" if "q \<in> cg_out g - set (hl a c)" for q
    proof -
      have "page_good st q" by (rule heaps_out [OF f(3), of q]) (use that in auto)
      moreover have "q \<notin> set (as @ bs)" using that l(1) by auto
      ultimately show ?thesis using 1(4) relink_blocks(2) [OF 1(4)] unfolding relink_def by blast
    qed
    show "owned st2 a c q" if "q \<in> set (as @ bs)" for q
      by (rule relink_owned [OF 1(4) heaps_in(2) [OF f(3) a]]) (use that l(1) in auto)
  qed (use 1(6) l(2) in simp)
  moreover have "cg_out g - set (hl a c) \<union> set (as @ bs) = cg_out g - {p}" using sub l(1) dist by auto
  ultimately show thesis using that [OF 1(1-3) relink_base [OF f(1) 1(4) P] _ 1(4,5)] by simp
qed

lemma relink_outer:
  assumes "relink P st st'" "st_heaps st' = st_heaps st" "EmptyPage \<notin> P"
  shows "outer_frame st st'"
proof -
  have "get_page EmptyPage st' = get_page EmptyPage st" using assms(1,3) unfolding relink_def by blast
  then show ?thesis using relink_fields [OF assms(1)] assms(2) by (simp add: outer_frame_def)
qed

text \<open>The live blocks when a page without any goes back.\<close>

lemma release_live:
  assumes k: "keeps R (cg_out g - {p}) st st'" and a: "aband_frame st g st' g'" and g': "cg_out g' = cg_out g - {p}"
    and e: "pblocks st p = {}"
  shows "small_live st' g' = small_live st g" "same_on (R \<union> small_live st g) (st_mem st) (st_mem st')"
proof -
  note lv = central_live [OF k a Diff_subset]
  have "(\<Union>q \<in> cg_out g - {p}. pblocks st q) = (\<Union>q \<in> cg_out g. pblocks st q)" using e by auto
  then show "small_live st' g' = small_live st g" "same_on (R \<union> small_live st g) (st_mem st) (st_mem st')"
    using lv g' by (simp_all add: small_live_def Un_assoc)
qed

lemma heap_on_page_empty_ok:
  assumes inv: "heap_inv K st g hl" and r: "roomy (st_registry st)" and p: "p \<in> cg_out g" "pblocks st p = {}"
  shows "\<exists>st' g' hl'. heap_on_page_empty K p st = Some st' \<and> heap_inv K st' g' hl' \<and> small_live st' g' = small_live st g \<and>
    hframe (regs K st \<union> small_live st g) st st' \<and> reg_frame st st' \<and> outer_frame st st'"
proof -
  note f = heap_inv_facts [OF inv]
  obtain a c h x where o: "st_heaps st a = Some h" "c < 36" "p \<in> set (hl a c)" "get_page p st = Some x" "pg_owner x = HeapAt a"
    "unat (pg_size_class x) = c" by (rule heaps_out [OF f(3) p(1)])
  note l = heap_list_pages [OF inv o(1,2)]
  have hs: "heap_slot (pg_owner x) (pg_size_class x) st = Some (hp_pages h ! c)"
    using heap_slot_eq(1) [OF o(1), of "pg_size_class x"] l(3) o(2,5,6) by simp
  show ?thesis
  proof (cases "hp_pages h ! c = p")
    case True
    then have "heap_on_page_empty K p st = Some st" using hs o(4) by (simp add: heap_on_page_empty_def)
    then show ?thesis using inv hframe_refl reg_frame_refl by (intro exI [of _ st] exI [of _ g] exI [of _ hl]) simp
  next
    case False
    obtain as bs where s: "hl a c = as @ p # bs" using o(3) by (meson split_list)
    have "as \<noteq> []" using l(4) s False by (auto simp: dlist_def)
    then obtain st1 st2 where 1: "upd_page (pg_prev x) (\<lambda>y. y\<lparr>pg_next := pg_next x\<rparr>) st = Some st1" "get_page p st1 = Some x"
      "(if pg_next x \<noteq> NullPage then upd_page (pg_next x) (\<lambda>y. y\<lparr>pg_prev := pg_prev x\<rparr>) st1 else Some st1) = Some st2"
      "base_inv K (regs K st) st2 g {}" "heaps_ok st2 (cg_out g - {p}) (hl(a := (hl a)(c := as @ bs)))"
      "relink (set (as @ bs)) st st2" "st_heaps st2 = st_heaps st" by (rule unlink_class_ok [OF inv o(1,2) s _ o(4)])
    have "EmptyPage \<notin> set (as @ bs)" using used_not_pooled(2) [OF f(6), of EmptyPage] l(1) s by (auto simp: used_pages_def)
    then have o2: "outer_frame st st2" by (rule relink_outer [OF 1(6,7)])
    note rf = relink_fields [OF 1(6)]
    have r2: "roomy (st_registry st2)" using r rf(4) by simp
    obtain st3 g3 where 3: "central_release_page K p st2 = Some st3" "base_inv K (regs K st) st3 g3 {}" "cache_ok g3"
      "cg_out g3 = cg_out g - {p}" "keeps (regs K st) (cg_out g - {p}) st2 st3" "aband_frame st2 g st3 g3" "reg_frame st2 st3"
      using central_release_page_ok [OF 1(4) r2 f(2) p(1)] by blast
    have e2: "pblocks st2 p = {}" using relink_blocks(1) [OF 1(6)] p(2) by simp
    note lv = release_live [OF 3(5,6,4) e2]
    have o3: "outer_frame st st3" using outer_frame_trans [OF o2] 3(5) by (simp add: keeps_def)
    have h3: "heaps_ok st3 (cg_out g3) (hl(a := (hl a)(c := as @ bs)))" using keeps_heaps [OF 1(5) 3(5)] 3(4) by simp
    have "heap_inv K st3 g3 (hl(a := (hl a)(c := as @ bs)))" 
      by (rule heap_inv_outer [OF 3(2,3) h3 o3 f(4,5) aband_owned_frame [OF relink_aband [OF 1(6) f(7)] 3(6)]])
    moreover have "small_live st3 g3 = small_live st g" using lv(1) relink_live [OF 1(6)] by simp
    moreover have "hframe (regs K st \<union> small_live st g) st st3"
      using outer_hframe [OF o3] lv(2) relink_live [OF 1(6), of g] rf(3) by simp
    moreover have "reg_frame st st3" using 3(7) rf(1,3,4) by (simp add: reg_frame_def reg_exact_def no_new_map_def)
    moreover have "heap_on_page_empty K p st = Some st3" using o(4) hs False 1(1-3) 3(1) by (simp add: heap_on_page_empty_def)
    ultimately show ?thesis using o3 by blast
  qed
qed

lemma page_unused_live:
  assumes "page_ok m x fl tf" "pg_used x = 0"
  shows "page_live x fl tf = {}"
proof -
  have "finite (page_live x fl tf)" by (simp add: page_live_def page_blocks_def)
  then show ?thesis using page_ok_count(2) [OF assms(1)] assms(2) by auto
qed

lemma heap_free_ok:
  assumes inv: "heap_inv K st g hl" and r: "roomy (st_registry st)" and b: "(b, n) \<in> small_live st g"
  shows "\<exists>st' g' hl'. heap_free K t b st = Some st' \<and> heap_inv K st' g' hl' \<and> small_live st' g' = small_live st g - {(b, n)} \<and>
    hframe (regs K st \<union> (small_live st g - {(b, n)})) st st' \<and> reg_frame st st' \<and> outer_frame st st'"
proof -
  note f = heap_inv_facts [OF inv]
  obtain p where p: "p \<in> used_pages g" "(b, n) \<in> pblocks st p" using b by (auto simp: small_live_used)
  note pg = block_page(1) [OF f(6) p]
  obtain x fl tf where x: "get_page p st = Some x" "page_ok (st_mem st) x fl tf" "b \<in> page_live x fl tf" using p(2) by (auto simp: pblocks_def)
  show ?thesis
  proof (cases "pg_owner x = st_t_heap st t")
    case True
    obtain x' m where e: "page_free_local b x (st_mem st) = (x', m)" by fastforce
    note fl = free_local_ok [OF x(2,3) e]
    let ?st = "page_step p x' m st"
    note s = free_step_ok [OF inv p x(1,2) fl(4,1,2,3)]
    have on: "on_page (\<lambda>x m. Some (page_free_local b x m)) p st = Some ?st" using x(1) e by (simp add: on_page_def page_step_def)
    have out: "p \<in> cg_out g"
    proof (rule ccontr)
      assume "p \<notin> cg_out g"
      then have "p \<in> set (cg_aband g)" using p(1) by (simp add: used_pages_def)
      then have "pg_owner x = AbandonedOwner" using f(7) x(1) by (auto simp: aband_owned_def page_owner_def)
      moreover have "st_t_heap st t \<noteq> NullHeap \<longrightarrow> (\<exists>a \<in> dom (st_heaps st). st_t_heap st t = HeapAt a)"
        using f(4) unfolding threads_ok_def by blast
      ultimately show False using True by simp
    qed
    have h1: "heap_free K t b st = (if pg_used x' = 0 then heap_on_page_empty K p ?st else Some ?st)"
      using pg x(1) True on by (simp add: heap_free_def Let_def)
    have R1: "regs K ?st = regs K st" using outer_regs [OF s(2), of K] by simp
    have rf: "reg_frame st ?st" by (simp add: reg_frame_def reg_exact_def page_step_def)
    show ?thesis
    proof (cases "pg_used x' = 0")
      case False
      then show ?thesis using h1 s rf by (intro exI [of _ ?st] exI [of _ g] exI [of _ hl]) simp
    next
      case u: True
      have "page_live x' (b # fl) tf = {}" by (rule page_unused_live [OF fl(1) u])
      then have e: "pblocks ?st p = {}" using pblocks_eq [of p ?st x' "b # fl" tf] fl(1) by simp
      obtain st2 g2 hl2 where "heap_on_page_empty K p ?st = Some st2" "heap_inv K st2 g2 hl2" "small_live st2 g2 = small_live ?st g"
        "hframe (regs K ?st \<union> small_live ?st g) ?st st2" "reg_frame ?st st2" "outer_frame ?st st2"
        using heap_on_page_empty_ok [OF s(1) _ out e] r s(6) by auto
      then show ?thesis using h1 u s(3) hframe_trans [OF s(5)] R1 reg_frame_trans [OF rf] outer_frame_trans [OF s(2)]
        by (intro exI [of _ st2] exI [of _ g2] exI [of _ hl2]) simp
    qed
  next
    case False
    obtain x' m where e: "page_free_remote b x (st_mem st) = (x', m)" by fastforce
    note fr = free_remote_ok [OF x(2,3) e]
    let ?st = "page_step p x' m st"
    note s = free_step_ok [OF inv p x(1,2) fr(4,1,2,3)]
    have "heap_free K t b st = Some ?st"
      using pg x(1) False e by (simp add: heap_free_def heap_free_remote_def on_page_def page_step_def Let_def)
    moreover have "reg_frame st ?st" by (simp add: reg_frame_def reg_exact_def page_step_def)
    ultimately show ?thesis using s by (intro exI [of _ ?st] exI [of _ g] exI [of _ hl]) simp
  qed
qed

section \<open>Thread exit\<close>

lemma same_on_subset: "same_on R m m' \<Longrightarrow> R' \<subseteq> R \<Longrightarrow> same_on R' m m'"
  unfolding same_on_def by blast

text \<open>One page of an exiting thread: collected, then released or abandoned.\<close>

definition destroy_page :: "kernel \<Rightarrow> page_ptr \<Rightarrow> State \<Rightarrow> State option" where
  "destroy_page K p st = do {
     st \<leftarrow> on_page page_collect p st;
     x \<leftarrow> get_page p st;
     if pg_used x = 0 then central_release_page K p st else central_abandon_page p st }"

definition exit_frame :: "(addr \<times> u64) set \<Rightarrow> page_ptr set \<Rightarrow> State \<Rightarrow> cghost \<Rightarrow> State \<Rightarrow> cghost \<Rightarrow> bool" where
  "exit_frame R P st g st' g' \<longleftrightarrow> keeps R P st st' \<and> small_live st' g' = small_live st g \<and>
     same_on (small_live st g) (st_mem st) (st_mem st') \<and> reg_frame st st'"

lemma exit_frame_trans:
  assumes "exit_frame R P st g st1 g1" "exit_frame R P st1 g1 st2 g2"
  shows "exit_frame R P st g st2 g2"
proof -
  note u = assms [unfolded exit_frame_def]
  have e: "small_live st1 g1 = small_live st g" using u(1) by blast
  have "keeps R P st st2" by (rule keeps_trans [of _ _ st st1]) (use u in blast)+
  moreover have "reg_frame st st2" by (rule reg_frame_trans [of st st1]) (use u in blast)+
  moreover have "same_on (small_live st g) (st_mem st) (st_mem st2)" by (rule same_on_trans [of _ _ "st_mem st1"]) (use u e in auto)
  ultimately show ?thesis using u(2) e unfolding exit_frame_def by simp
qed

lemma exit_frame_mono: "exit_frame R P st g st' g' \<Longrightarrow> P' \<subseteq> P \<Longrightarrow> exit_frame R P' st g st' g'"
  unfolding exit_frame_def using keeps_mono [of R P st st' R P'] by blast

lemma collect_page_ok:
  assumes b: "base_inv K R st g {}" and ao: "aband_owned st g" and p: "p \<in> cg_out g" "page_good st p"
  obtains st' x where "on_page page_collect p st = Some st'" "get_page p st' = Some x" "base_inv K R st' g {}" "aband_owned st' g"
    "exit_frame R (cg_out g - {p}) st g st' g" "page_good st' p" "st_registry st' = st_registry st"
    "pg_used x = 0 \<longleftrightarrow> pblocks st' p = {}"
proof -
  obtain x fl tf where x: "get_page p st = Some x" "page_ok (st_mem st) x fl tf" using p(2) by (auto simp: page_good_def)
  obtain x' m where c: "page_collect x (st_mem st) = Some (x', m)" and ok': "page_ok m x' (tf @ fl) []"
    and lv: "page_live x' (tf @ fl) [] = page_live x fl tf" and fr: "page_frame x (page_live x fl tf) (st_mem st) m"
    and sc: "page_static x' = page_static x" by (rule collect_ok [OF x(2)])
  have u: "p \<in> used_pages g" using p(1) by (simp add: used_pages_def)
  let ?st = "page_step p x' m st"
  note s = base_page_step [OF b u x(1) sc ok' fr] and pe = pblocks_eq [OF x]
  have pb: "pblocks ?st p = pblocks st p" using s(5) lv pe by simp
  then have live: "small_live ?st g = small_live st g" using s(4) u by (auto simp: small_live_used)
  have "{c \<in> pblocks st p. fst c \<notin> page_live x fl tf} = {}" using pe by auto
  then have "same_on (small_live st g) (st_mem st) (st_mem ?st)" by (intro same_on_subset [OF s(6)]) blast
  moreover have "keeps R (cg_out g - {p}) st ?st" by (rule keeps_mono [OF s(7) order_refl]) (auto simp: used_pages_def)
  ultimately have "exit_frame R (cg_out g - {p}) st g ?st g"
    using live by (simp add: exit_frame_def reg_frame_def reg_exact_def page_step_def)
  moreover have "on_page page_collect p st = Some ?st" using x(1) c by (simp add: on_page_def page_step_def)
  moreover have "aband_owned ?st g" using ao x(1) page_static_fields(6) [OF sc] by (auto simp: aband_owned_def page_owner_def)
  moreover have "pg_used x' = 0 \<longleftrightarrow> pblocks ?st p = {}"
  proof -
    have "finite (page_live x' (tf @ fl) [])" by (simp add: page_live_def page_blocks_def)
    then have "pg_used x' = 0 \<longleftrightarrow> page_live x' (tf @ fl) [] = {}" using page_ok_count(2) [OF ok'] by (metis card_eq_0_iff unat_eq_0 list.size(3) add_0_right)
    then show ?thesis using s(5) by simp
  qed
  ultimately show thesis using that [of ?st x'] s(1,3) by simp
qed

lemma destroy_page_ok:
  assumes b: "base_inv K R st g {}" and r: "roomy (st_registry st)" and c: "cache_ok g" and ao: "aband_owned st g"
    and p: "p \<in> cg_out g" "page_good st p"
  shows "\<exists>st' g'. destroy_page K p st = Some st' \<and> base_inv K R st' g' {} \<and> cache_ok g' \<and> aband_owned st' g' \<and>
    cg_out g' = cg_out g - {p} \<and> exit_frame R (cg_out g - {p}) st g st' g'"
proof -
  obtain st1 x where 1: "on_page page_collect p st = Some st1" "get_page p st1 = Some x" "base_inv K R st1 g {}" "aband_owned st1 g"
    "exit_frame R (cg_out g - {p}) st g st1 g" "page_good st1 p" "st_registry st1 = st_registry st"
    "pg_used x = 0 \<longleftrightarrow> pblocks st1 p = {}" by (rule collect_page_ok [OF b ao p])
  show ?thesis
  proof (cases "pg_used x = 0")
    case True
    then have e: "pblocks st1 p = {}" using 1(8) by simp
    have r1: "roomy (st_registry st1)" using r 1(7) by simp
    obtain st2 g2 where 2: "central_release_page K p st1 = Some st2" "base_inv K R st2 g2 {}" "cache_ok g2" "cg_out g2 = cg_out g - {p}"
      "keeps R (cg_out g - {p}) st1 st2" "aband_frame st1 g st2 g2" "reg_frame st1 st2"
      using central_release_page_ok [OF 1(3) r1 c p(1)] by blast
    have "exit_frame R (cg_out g - {p}) st1 g st2 g2"
      using release_live [OF 2(5,6,4) e] 2(5,7) same_on_subset [of "R \<union> small_live st1 g"] by (simp add: exit_frame_def)
    then have "exit_frame R (cg_out g - {p}) st g st2 g2" by (rule exit_frame_trans [OF 1(5)])
    then show ?thesis using 1(1,2) True 2 aband_owned_frame [OF 1(4) 2(6)]
      by (intro exI [of _ st2] exI [of _ g2]) (simp add: destroy_page_def)
  next
    case False
    let ?g = "g\<lparr>cg_out := cg_out g - {p}, cg_aband := p # cg_aband g\<rparr>"
    obtain st2 y where 2: "central_abandon_page p st1 = Some st2" "base_inv K R st2 ?g {}" "outer_frame st1 st2" "st_os st2 = st_os st1"
      "st_registry st2 = st_registry st1" "reg_exact st2 = reg_exact st1" "\<forall>q. q \<noteq> p \<longrightarrow> get_page q st2 = get_page q st1"
      "get_page p st2 = Some y" "pg_owner y = AbandonedOwner" "\<forall>q. pblocks st2 q = pblocks st1 q"
      using central_abandon_page_ok [OF 1(3) c p(1) 1(6)] by blast
    have "used_pages ?g = used_pages g" using p(1) by (auto simp: used_pages_def)
    then have "small_live st2 ?g = small_live st1 g" using 2(10) by (simp add: small_live_used)
    moreover have "keeps R (cg_out g - {p}) st1 st2" using 2(3,4,7) by (simp add: keeps_def same_area_def)
    ultimately have "exit_frame R (cg_out g - {p}) st1 g st2 ?g" using 2(4-6) by (simp add: exit_frame_def reg_frame_def)
    then have "exit_frame R (cg_out g - {p}) st g st2 ?g" by (rule exit_frame_trans [OF 1(5)])
    moreover have "aband_owned st2 ?g" using 1(4) 2(7-9) by (auto simp: aband_owned_def page_owner_def)
    moreover have "cache_ok ?g" using c by (simp add: cache_ok_def full_segs_def)
    ultimately show ?thesis using 1(1,2) False 2(1,2)
      by (intro exI [of _ st2] exI [of _ ?g]) (simp add: destroy_page_def)
  qed
qed

lemma destroy_pages_step:
  "p \<noteq> NullPage \<Longrightarrow> p \<noteq> EmptyPage \<Longrightarrow> get_page p st = Some x \<Longrightarrow>
   destroy_pages K p st = do { st \<leftarrow> destroy_page K p st; destroy_pages K (pg_next x) st }"
  by (subst destroy_pages.simps) (simp add: destroy_page_def Let_def bind_assoc)

text \<open>\<open>H\<close> is the heaps' array with the slot of the class already cleared, which the code does after
  the loop.\<close>

lemma keeps_slot: "keeps R P st st' \<Longrightarrow> keeps R P (st\<lparr>st_heaps := H\<rparr>) (st'\<lparr>st_heaps := H\<rparr>)"
  by (simp add: keeps_def outer_frame_def get_large_def)

lemma destroy_pages_ok:
  assumes "base_inv K R st g {}" "roomy (st_registry st)" "cache_ok g" "aband_owned st g"
    "linked NullPage (pg_nx st) p ps NullPage" "set ps \<subseteq> cg_out g" "\<forall>q \<in> set ps. page_good st q"
  shows "\<exists>st' g'. destroy_pages K p st = Some st' \<and> base_inv K R st' g' {} \<and> cache_ok g' \<and> aband_owned st' g' \<and>
    cg_out g' = cg_out g - set ps \<and> exit_frame R (cg_out g - set ps) st g st' g'"
  using assms
proof (induction ps arbitrary: p st g)
  case Nil
  then have "destroy_pages K p st = Some st" by (subst destroy_pages.simps) simp
  then show ?case using Nil by (intro exI [of _ st] exI [of _ g]) (simp add: exit_frame_def keeps_refl reg_frame_refl)
next
  case (Cons y ps)
  note b = Cons.prems(1)
  have py: "p = y" "y \<in> cg_out g" "page_good st y" and l: "linked NullPage (pg_nx st) (pg_nx st y) ps NullPage" using Cons.prems by simp_all
  have yn: "y \<noteq> NullPage" "y \<noteq> EmptyPage"
    using used_not_pooled(2) [OF base_inv_facts(1) [OF b], of y] py(2) by (auto simp: used_pages_def)
  obtain x where x: "get_page y st = Some x" using py(3) by (auto simp: page_good_def)
  have d: "y \<notin> set ps" using linked_distinct [OF Cons.prems(5)] by simp
  obtain st1 g1 where 1: "destroy_page K y st = Some st1" "base_inv K R st1 g1 {}" "cache_ok g1" "aband_owned st1 g1"
    "cg_out g1 = cg_out g - {y}" "exit_frame R (cg_out g - {y}) st g st1 g1"
    using destroy_page_ok [OF b Cons.prems(2-4) py(2,3)] by blast
  have k: "keeps R (cg_out g - {y}) st st1" "roomy (st_registry st1)"
    using 1(6) Cons.prems(2) by (simp_all add: exit_frame_def reg_frame_def)
  have same: "get_page q st1 = get_page q st" "page_good st1 q = page_good st q" if "q \<in> set ps" for q
  proof -
    have q: "q \<in> cg_out g - {y}" using that Cons.prems(6) d by auto
    then show "get_page q st1 = get_page q st" using k(1) by (simp add: keeps_def)
    then show "page_good st1 q = page_good st q" by (rule pblocks_cong(2)) (use k(1) q in \<open>simp add: keeps_def\<close>)
  qed
  have nx: "pg_nx st y = pg_next x" using x by (simp add: pg_nx_def)
  have "linked NullPage (pg_nx st1) (pg_next x) ps NullPage = linked NullPage (pg_nx st) (pg_next x) ps NullPage"
    by (rule linked_cong) (simp add: pg_nx_def same)
  then have l1: "linked NullPage (pg_nx st1) (pg_next x) ps NullPage" using l nx by simp
  have "set ps \<subseteq> cg_out g1" "\<forall>q \<in> set ps. page_good st1 q" using 1(5) d Cons.prems(6,7) same(2) by auto
  then obtain st2 g2 where 2: "destroy_pages K (pg_next x) st1 = Some st2" "base_inv K R st2 g2 {}" "cache_ok g2" "aband_owned st2 g2"
    "cg_out g2 = cg_out g1 - set ps" "exit_frame R (cg_out g1 - set ps) st1 g1 st2 g2"
    using Cons.IH [OF 1(2) k(2) 1(3,4) l1] by blast
  have e: "cg_out g1 - set ps = cg_out g - set (y # ps)" using 1(5) by auto
  have "exit_frame R (cg_out g - set (y # ps)) st g st2 g2"
    by (rule exit_frame_trans [OF exit_frame_mono [OF 1(6)]]) (use 2(6) e in auto)
  then show ?case using destroy_pages_step [OF yn x, of K] 1(1) 2 e py(1) by (intro exI [of _ st2] exI [of _ g2]) simp
qed

lemma destroy_class_ok:
  assumes inv: "heap_inv K st g hl" and r: "roomy (st_registry st)" and a: "st_heaps st a = Some x" "c < 36"
  shows "\<exists>st' g' x'. (do { p \<leftarrow> heap_slot (HeapAt a) (of_nat c) st;
      if p = EmptyPage then Some st
      else do { st \<leftarrow> destroy_pages K p st; set_heap_slot (HeapAt a) (of_nat c) EmptyPage st } }) = Some st' \<and>
    heap_inv K st' g' (hl(a := (hl a)(c := []))) \<and> small_live st' g' = small_live st g \<and>
    hframe (regs K st \<union> small_live st g) st st' \<and> reg_frame st st' \<and> st_heaps st' = (st_heaps st)(a \<mapsto> x') \<and>
    st_t_heap st' = st_t_heap st"
proof -
  note f = heap_inv_facts [OF inv] and l = heap_list_pages [OF inv a]
  have uc: "unat (of_nat c :: u32) = c" using a(2) by (simp add: unsigned_of_nat take_bit_nat_eq_self)
  have hs: "heap_slot (HeapAt a) (of_nat c) st = Some (hp_pages x ! c)"
    using heap_slot_eq(1) [OF a(1), of "of_nat c"] l(3) a(2) uc by simp
  show ?thesis
  proof (cases "hl a c = []")
    case True
    then have "hl(a := (hl a)(c := [])) = hl" by (auto simp: fun_eq_iff)
    then show ?thesis using hs l(4) True inv hframe_refl reg_frame_refl a(1)
      by (intro exI [of _ st] exI [of _ g] exI [of _ x]) (simp add: fun_upd_idem)
  next
    case False
    let ?x = "x\<lparr>hp_pages := (hp_pages x)[c := EmptyPage]\<rparr>" and ?hl = "hl(a := (hl a)(c := []))"
    let ?H = "(st_heaps st)(a \<mapsto> ?x)"
    have ln: "linked NullPage (pg_nx st) (hp_pages x ! c) (hl a c) NullPage" using l(4) False by (simp add: dlist_def)
    have good: "\<forall>q \<in> set (hl a c). page_good st q" using heaps_in(2) [OF f(3) a] by (auto simp: owned_def)
    obtain st1 g1 where 1: "destroy_pages K (hp_pages x ! c) st = Some st1" "base_inv K (regs K st) st1 g1 {}" "cache_ok g1" "aband_owned st1 g1"
      "cg_out g1 = cg_out g - set (hl a c)" "exit_frame (regs K st) (cg_out g - set (hl a c)) st g st1 g1"
      using destroy_pages_ok [OF f(1) r f(2,7) ln l(1) good] by blast
    have k: "keeps (regs K st) (cg_out g1) st st1" "reg_frame st st1" "small_live st1 g1 = small_live st g"
      "same_on (small_live st g) (st_mem st) (st_mem st1)" using 1(5,6) by (simp_all add: exit_frame_def)
    have o: "outer_frame st st1" using k(1) by (simp add: keeps_def)
    then have h1: "st_heaps st1 = st_heaps st" by (simp add: outer_frame_def)
    let ?st = "st1\<lparr>st_heaps := ?H\<rparr>"
    have "hp_pages x ! c \<in> cg_out g" using l(1) ln False by (cases "hl a c") auto
    then have ne: "hp_pages x ! c \<noteq> EmptyPage" using used_not_pooled(2) [OF f(6), of "hp_pages x ! c"] by (auto simp: used_pages_def)
    have "set_heap_slot (HeapAt a) (of_nat c) EmptyPage st1 = Some ?st"
      using heap_slot_eq(2) [of st1 a x "of_nat c"] h1 a l(3) uc by (simp add: set_heap_def)
    then have e: "(do { p \<leftarrow> heap_slot (HeapAt a) (of_nat c) st; if p = EmptyPage then Some st
      else do { st \<leftarrow> destroy_pages K p st; set_heap_slot (HeapAt a) (of_nat c) EmptyPage st } }) = Some ?st" using hs ne 1(1) by simp
    have "heaps_ok (st\<lparr>st_heaps := ?H\<rparr>) (cg_out g - set (hl a c) \<union> set []) ?hl"
    proof (rule heaps_ok_upd [OF f(3) a])
      show "get_page q (st\<lparr>st_heaps := ?H\<rparr>) = get_page q st \<and> page_good (st\<lparr>st_heaps := ?H\<rparr>) q"
        if q: "q \<in> cg_out g - set (hl a c)" for q
      proof -
        have "page_good st q" by (rule heaps_out [OF f(3), of q]) (use q in auto)
        then show ?thesis by (simp add: page_good_def)
      qed
    qed simp_all
    then have hk: "heaps_ok ?st (cg_out g1) ?hl" using keeps_heaps [OF _ keeps_slot [OF k(1)]] 1(5) by simp
    have rg: "heap_regs K ?st = heap_regs K st" "large_regs ?st = large_regs st"
      using o a(1) by (auto simp: heap_regs_def large_regs_def outer_frame_def get_large_def)
    have "base_inv K (regs K st) ?st g1 {}"
      using base_inv_threads [where st = st1 and H = ?H and G = "st_g_registry st1" and T = "st_t_heap st1"] 1(2) by simp
    moreover have "threads_ok ?st" by (rule threads_ok_slot [OF f(4) a(1)]) (use o in \<open>simp_all add: outer_frame_def\<close>)
    moreover have "aband_owned ?st g1" using 1(4) by (simp add: aband_owned_def page_owner_def)
    ultimately have "heap_inv K ?st g1 ?hl" using 1(3) hk rg f(5) by (simp add: heap_inv_def)
    moreover have "small_live ?st g1 = small_live st g"
      using small_live_threads [where st = st1 and H = ?H and G = "st_g_registry st1" and T = "st_t_heap st1"] k(3) by simp
    moreover have "hframe (regs K st \<union> small_live st g) st ?st"
    proof -
      have "same_on (regs K st \<union> small_live st g) (st_mem st) (st_mem ?st)" using k(1,4) by (auto simp: keeps_def same_on_def)
      then show ?thesis using o by (simp add: hframe_def outer_frame_def get_large_def)
    qed
    moreover have "reg_frame st ?st" using k(2) by (simp add: reg_frame_def reg_exact_def no_new_map_def)
    moreover have "st_t_heap ?st = st_t_heap st" using o by (simp add: outer_frame_def)
    ultimately show ?thesis using e by (intro exI [of _ ?st] exI [of _ g1] exI [of _ ?x]) simp
  qed
qed

lemma reg_frame_roomy: "reg_frame st st' \<Longrightarrow> roomy (st_registry st) \<Longrightarrow> roomy (st_registry st')"
  by (simp add: reg_frame_def)

lemma destroy_classes_ok:
  assumes "heap_inv K st g hl" "roomy (st_registry st)" "st_heaps st a = Some x" "\<forall>c \<in> set cs. c < 36"
  shows "\<exists>st' g' hl' x'. destroy_classes K (HeapAt a) cs st = Some st' \<and> heap_inv K st' g' hl' \<and>
    (\<forall>c. c \<in> set cs \<or> hl a c = [] \<longrightarrow> hl' a c = []) \<and> small_live st' g' = small_live st g \<and>
    hframe (regs K st \<union> small_live st g) st st' \<and> reg_frame st st' \<and> st_heaps st' = (st_heaps st)(a \<mapsto> x') \<and>
    st_t_heap st' = st_t_heap st"
  using assms
proof (induction cs arbitrary: st g hl x)
  case Nil
  then show ?case by (intro exI [of _ st] exI [of _ g] exI [of _ hl] exI [of _ x])
    (simp add: hframe_refl reg_frame_refl fun_upd_idem)
next
  case (Cons c cs)
  have c36: "c < 36" using Cons.prems(4) by simp
  obtain st1 g1 x1 where 1: "(do { p \<leftarrow> heap_slot (HeapAt a) (of_nat c) st; if p = EmptyPage then Some st
      else do { st \<leftarrow> destroy_pages K p st; set_heap_slot (HeapAt a) (of_nat c) EmptyPage st } }) = Some st1"
    "heap_inv K st1 g1 (hl(a := (hl a)(c := [])))" "small_live st1 g1 = small_live st g"
    "hframe (regs K st \<union> small_live st g) st st1" "reg_frame st st1" "st_heaps st1 = (st_heaps st)(a \<mapsto> x1)" "st_t_heap st1 = st_t_heap st"
    using destroy_class_ok [OF Cons.prems(1-3) c36] by blast
  have e: "destroy_classes K (HeapAt a) (c # cs) st = destroy_classes K (HeapAt a) cs st1"
    using 1(1) by (auto split: bind_splits if_splits)
  have r1: "roomy (st_registry st1)" by (rule reg_frame_roomy [OF 1(5) Cons.prems(2)])
  have a1: "st_heaps st1 a = Some x1" "\<forall>d \<in> set cs. d < 36" using 1(6) Cons.prems(4) by simp_all
  obtain st2 g2 hl2 x2 where 2: "destroy_classes K (HeapAt a) cs st1 = Some st2" "heap_inv K st2 g2 hl2"
    "\<forall>d. d \<in> set cs \<or> (hl(a := (hl a)(c := []))) a d = [] \<longrightarrow> hl2 a d = []" "small_live st2 g2 = small_live st1 g1"
    "hframe (regs K st1 \<union> small_live st1 g1) st1 st2" "reg_frame st1 st2" "st_heaps st2 = (st_heaps st1)(a \<mapsto> x2)"
    "st_t_heap st2 = st_t_heap st1" using Cons.IH [OF 1(2) r1 a1] by blast
  have "large_regs st1 = large_regs st" using 1(4) by (simp add: large_regs_def hframe_def)
  moreover have "heap_regs K st1 = heap_regs K st" using 1(6) Cons.prems(3) by (auto simp: heap_regs_def)
  ultimately have "hframe (regs K st \<union> small_live st g) st st2" using hframe_trans [OF 1(4)] 2(5) 1(3) by simp
  moreover have "\<forall>d. d \<in> set (c # cs) \<or> hl a d = [] \<longrightarrow> hl2 a d = []" using 2(3) by simp
  ultimately show ?case using e 2 1(3,6,7) reg_frame_trans [OF 1(5) 2(6)]
    by (intro exI [of _ st2] exI [of _ g2] exI [of _ hl2] exI [of _ x2]) simp
qed

section \<open>Leaving the registry of heaps\<close>

definition hlink :: "addr list \<Rightarrow> heap_ptr option" where
  "hlink xs = (if xs = [] then None else Some (HeapAt (last xs)))"

lemma registry_link_at:
  assumes "linked NullHeap (hp_nx st) (st_g_registry st) (map HeapAt (xs @ ys)) NullHeap" "set xs \<subseteq> dom (st_heaps st)"
  shows "registry_link (hlink xs) st = Some (case ys of [] \<Rightarrow> NullHeap | y # _ \<Rightarrow> HeapAt y)"
proof (cases xs rule: rev_cases)
  case Nil
  then show ?thesis using assms(1) by (cases ys) (simp_all add: registry_link_def hlink_def)
next
  case (snoc zs q)
  then obtain x where x: "st_heaps st q = Some x" using assms(2) by auto
  then have "hp_nx st (HeapAt q) = hp_reg_next x" by (simp add: hp_nx_def get_heap_def)
  then show ?thesis using assms(1) snoc x by (cases ys) (auto simp: registry_link_def hlink_def get_heap_def)
qed

lemma registry_unlink_walk:
  assumes "linked NullHeap (hp_nx st) (st_g_registry st) (map HeapAt (xs @ us @ a # ys)) NullHeap"
    "set (xs @ us @ a # ys) \<subseteq> dom (st_heaps st)"
  shows "registry_unlink (HeapAt a) (hlink xs) st = registry_set_link (hlink (xs @ us)) (hp_nx st (HeapAt a)) st"
  using assms
proof (induction us arbitrary: xs)
  case Nil
  have "registry_link (hlink xs) st = Some (HeapAt a)" using registry_link_at [of st xs "a # ys"] Nil by simp
  moreover obtain x where "st_heaps st a = Some x" using Nil(2) by auto
  ultimately show ?case by (subst registry_unlink.simps) (simp add: get_heap_def hp_nx_def)
next
  case (Cons u us)
  have d: "distinct (map HeapAt (xs @ (u # us) @ a # ys))" by (rule linked_distinct [OF Cons.prems(1)])
  have "registry_link (hlink xs) st = Some (HeapAt u)" using registry_link_at [of st xs "(u # us) @ a # ys"] Cons.prems by simp
  moreover have "u \<noteq> a" using d by auto
  ultimately have "registry_unlink (HeapAt a) (hlink xs) st = registry_unlink (HeapAt a) (hlink (xs @ [u])) st"
    by (subst registry_unlink.simps) (simp add: hlink_def)
  also have "\<dots> = registry_set_link (hlink ((xs @ [u]) @ us)) (hp_nx st (HeapAt a)) st"
    by (rule Cons.IH) (use Cons.prems in simp_all)
  finally show ?case by simp
qed

lemma registry_unlink_ok:
  assumes l: "linked NullHeap (hp_nx st) (st_g_registry st) (map HeapAt hs) NullHeap" "set hs = dom (st_heaps st)" and a: "a \<in> set hs"
  obtains H G hs' where "registry_unlink (HeapAt a) None st = Some (st\<lparr>st_heaps := H, st_g_registry := G\<rparr>)"
    "linked NullHeap (hp_nx (st\<lparr>st_heaps := H, st_g_registry := G\<rparr>)) G (map HeapAt hs') NullHeap" "set hs' = dom (st_heaps st) - {a}"
    "dom H = dom (st_heaps st)" "\<forall>e. map_option hp_pages (H e) = map_option hp_pages (st_heaps st e)"
proof -
  obtain xs ys where h: "hs = xs @ a # ys" using a by (meson split_list)
  have d: "distinct hs" using linked_distinct [OF l(1)] by (simp add: distinct_map)
  have s: "set (xs @ ys) = dom (st_heaps st) - {a}" using l(2) d h by auto
  let ?v = "hp_nx st (HeapAt a)"
  have sub: "set ([] @ xs @ a # ys) \<subseteq> dom (st_heaps st)" using l(2) h by auto
  have "registry_unlink (HeapAt a) (hlink []) st = registry_set_link (hlink ([] @ xs)) ?v st"
    by (rule registry_unlink_walk [OF _ sub]) (use l(1) h in simp)
  then have w: "registry_unlink (HeapAt a) None st = registry_set_link (hlink xs) ?v st" by (simp add: hlink_def)
  show thesis
  proof (cases xs rule: rev_cases)
    case Nil
    have "hp_nx (st\<lparr>st_g_registry := ?v\<rparr>) = hp_nx st" by (simp add: fun_eq_iff hp_nx_def get_heap_def split: heap_ptr.splits)
    then show thesis using that [of ?v "st_heaps st" ys] w l(1) h Nil s by (simp add: registry_set_link_def hlink_def)
  next
    case (snoc zs q)
    then obtain x where x: "st_heaps st q = Some x" using l(2) h by auto
    let ?H = "(st_heaps st)(q \<mapsto> x\<lparr>hp_reg_next := ?v\<rparr>)" and ?G = "st_g_registry st"
    have nx: "hp_nx (st\<lparr>st_heaps := ?H, st_g_registry := ?G\<rparr>) = (hp_nx st)(HeapAt q := ?v)"
      by (simp add: fun_eq_iff hp_nx_def get_heap_def split: heap_ptr.splits)
    have "linked NullHeap ((hp_nx st)(HeapAt q := ?v)) ?G (map HeapAt (xs @ ys)) NullHeap"
      using l(1) d h snoc by (auto simp: image_iff)
    moreover have "registry_unlink (HeapAt a) None st = Some (st\<lparr>st_heaps := ?H, st_g_registry := ?G\<rparr>)"
      using w snoc x by (simp add: registry_set_link_def hlink_def get_heap_def set_heap_def)
    moreover have "dom ?H = dom (st_heaps st)" "\<forall>e. map_option hp_pages (?H e) = map_option hp_pages (st_heaps st e)" using x by auto
    ultimately show thesis using that [of ?G ?H "xs @ ys"] nx s by simp
  qed
qed

lemma heap_lists_pages: "hp_pages y = hp_pages x \<Longrightarrow> heap_lists st y ls = heap_lists st x ls"
  by (simp add: heap_lists_def)

lemma drop_heap_ok:
  assumes b: "base_inv K (regs K st - {(a, heap_bytes K)}) st' g {}" "cache_ok g" and h: "heaps_ok st' (cg_out g) hl" and ao: "aband_owned st' g"
    and o: "outer_frame st st'" and t: "threads_ok st" "st_t_heap st t = HeapAt a" and d: "heap_regs K st \<inter> large_regs st = {}"
    and e: "\<forall>c < 36. hl a c = []" and H: "dom H = dom (st_heaps st)" "\<forall>e. map_option hp_pages (H e) = map_option hp_pages (st_heaps st e)"
    and l: "linked NullHeap (hp_nx (st\<lparr>st_heaps := H, st_g_registry := G\<rparr>)) G (map HeapAt hs) NullHeap" "set hs = dom (st_heaps st) - {a}"
  defines "st2 \<equiv> st'\<lparr>st_heaps := H(a := None), st_g_registry := G, st_t_heap := (st_t_heap st)(t := NullHeap)\<rparr>"
  shows "heap_inv K st2 g hl" "regs K st2 \<subseteq> regs K st"
proof -
  have ac: "get_page p st2 = get_page p st'" "pg_nx st2 = pg_nx st'" "pg_pv st2 = pg_pv st'" "page_good st2 p = page_good st' p" for p
    unfolding st2_def by (rule threads_access)+
  have od: "owned st2 x c q = owned st' x c q" for x c q by (simp add: owned_def ac)
  have oh: "st_heaps st' = st_heaps st" "\<And>x. get_large x st' = get_large x st" using o by (simp_all add: outer_frame_def)
  have lr: "large_regs st2 = large_regs st" using oh(2) by (simp add: large_regs_def st2_def threads_access)
  have hr: "heap_regs K st2 = heap_regs K st - {(a, heap_bytes K)}" using H(1) by (auto simp: heap_regs_def st2_def)
  have "a \<in> dom (st_heaps st)" using t unfolding threads_ok_def by (metis heap_ptr.distinct(3) heap_ptr.inject)
  then have "(a, heap_bytes K) \<in> heap_regs K st" by (auto simp: heap_regs_def)
  then have rg: "regs K st2 = regs K st - {(a, heap_bytes K)}" "heap_regs K st2 \<inter> large_regs st2 = {}" using d lr hr by auto
  then show "regs K st2 \<subseteq> regs K st" by blast
  have hl: "heap_lists st2 y (hl x)" if "st_heaps st2 x = Some y" for x y
  proof -
    have y: "H x = Some y" using that by (auto simp: st2_def split: if_splits)
    then obtain z where z: "st_heaps st x = Some z" "hp_pages y = hp_pages z" using H(2) [rule_format, of x] by (cases "st_heaps st x") auto
    then have "heap_lists st' z (hl x)" using h oh(1) by (simp add: heaps_ok_def)
    then show ?thesis unfolding heap_lists_pages [OF z(2)] by (simp add: heap_lists_def ac)
  qed
  have "cg_out g = {p. \<exists>x \<in> dom (st_heaps st2). \<exists>c < 36. p \<in> set (hl x c)}"
  proof -
    have "cg_out g = {p. \<exists>x \<in> dom (st_heaps st). \<exists>c < 36. p \<in> set (hl x c)}" using h oh(1) unfolding heaps_ok_def by simp
    also have "\<dots> = {p. \<exists>x \<in> dom (st_heaps st) - {a}. \<exists>c < 36. p \<in> set (hl x c)}" using e by fastforce
    finally show ?thesis using H(1) by (simp add: st2_def)
  qed
  moreover have "\<forall>x \<in> dom (st_heaps st2). \<forall>c < 36. \<forall>p \<in> set (hl x c). owned st2 x c p"
    using h H(1) oh(1) unfolding od by (simp add: heaps_ok_def st2_def)
  moreover have "get_page EmptyPage st2 = Some zero_page" using h by (simp add: ac heaps_ok_def)
  ultimately have ho: "heaps_ok st2 (cg_out g) hl" using hl unfolding heaps_ok_def by blast
  have "threads_ok st2"
  proof -
    have own: "st_t_heap st u = NullHeap \<or> (\<exists>e \<in> dom (st_heaps st). st_t_heap st u = HeapAt e)"
      and uniq: "st_t_heap st u = st_t_heap st v \<longrightarrow> st_t_heap st u \<noteq> NullHeap \<longrightarrow> u = v" for u v
      using t(1) unfolding threads_ok_def by blast+
    have th: "st_t_heap st2 u = (if u = t then NullHeap else st_t_heap st u)" for u by (simp add: st2_def)
    have "st_t_heap st2 u \<noteq> NullHeap \<longrightarrow> (\<exists>e \<in> dom (st_heaps st2). st_t_heap st2 u = HeapAt e)" for u
      using own [of u] uniq [of u t] t(2) H(1) unfolding th by (auto simp: st2_def)
    moreover have "st_t_heap st2 u = st_t_heap st2 v \<longrightarrow> st_t_heap st2 u \<noteq> NullHeap \<longrightarrow> u = v" for u v
      using uniq [of u v] unfolding th by auto
    moreover have "hp_nx st2 (HeapAt q) = hp_nx (st\<lparr>st_heaps := H, st_g_registry := G\<rparr>) (HeapAt q)" if "q \<in> set hs" for q
      using that l(2) by (simp add: hp_nx_def get_heap_def st2_def)
    then have "linked NullHeap (hp_nx st2) G (map HeapAt hs) NullHeap = linked NullHeap (hp_nx (st\<lparr>st_heaps := H, st_g_registry := G\<rparr>)) G (map HeapAt hs) NullHeap"
      by (intro linked_cong) auto
    then have "linked NullHeap (hp_nx st2) (st_g_registry st2) (map HeapAt hs) NullHeap \<and> set hs = dom (st_heaps st2)"
      using l H(1) by (simp add: st2_def)
    ultimately show ?thesis unfolding threads_ok_def by blast
  qed
  moreover have "aband_owned st2 g" using ao by (simp add: aband_owned_def page_owner_def ac)
  ultimately show "heap_inv K st2 g hl" using b ho rg by (simp add: heap_inv_def) (simp add: st2_def base_inv_threads)
qed

lemma thread_exit_ok:
  assumes inv: "heap_inv K st g hl" and r: "roomy (st_registry st)"
  shows "\<exists>st' g' hl'. thread_exit K t st = Some st' \<and> heap_inv K st' g' hl' \<and> small_live st' g' = small_live st g \<and>
    hframe (large_regs st \<union> small_live st g) st st' \<and> reg_frame st st' \<and> st_t_heap st' = (st_t_heap st)(t := NullHeap) \<and>
    regs K st' \<subseteq> regs K st"
proof (cases "st_t_heap st t = NullHeap")
  case True
  then show ?thesis using inv hframe_refl reg_frame_refl
    by (intro exI [of _ st] exI [of _ g] exI [of _ hl]) (simp add: thread_exit_def fun_upd_idem)
next
  case False
  note f0 = heap_inv_facts [OF inv]
  obtain a x where a: "st_t_heap st t = HeapAt a" "st_heaps st a = Some x" using f0(4) False unfolding threads_ok_def by blast
  obtain st1 g1 hl1 x1 where 1: "destroy_classes K (HeapAt a) [0..<36] st = Some st1" "heap_inv K st1 g1 hl1"
    "\<forall>c. c \<in> set [0..<36] \<or> hl a c = [] \<longrightarrow> hl1 a c = []" "small_live st1 g1 = small_live st g"
    "hframe (regs K st \<union> small_live st g) st st1" "reg_frame st st1" "st_heaps st1 = (st_heaps st)(a \<mapsto> x1)" "st_t_heap st1 = st_t_heap st"
    using destroy_classes_ok [OF inv r a(2), of "[0..<36]"] by auto
  note f = heap_inv_facts [OF 1(2)] and w = world_regs [OF 1(2)]
  obtain hs where hs: "linked NullHeap (hp_nx st1) (st_g_registry st1) (map HeapAt hs) NullHeap" "set hs = dom (st_heaps st1)"
    using f(4) by (auto simp: threads_ok_def)
  have as: "a \<in> set hs" using hs(2) 1(7) by simp
  obtain H G hs' where u: "registry_unlink (HeapAt a) None st1 = Some (st1\<lparr>st_heaps := H, st_g_registry := G\<rparr>)"
    "linked NullHeap (hp_nx (st1\<lparr>st_heaps := H, st_g_registry := G\<rparr>)) G (map HeapAt hs') NullHeap" "set hs' = dom (st_heaps st1) - {a}"
    "dom H = dom (st_heaps st1)" "\<forall>e. map_option hp_pages (H e) = map_option hp_pages (st_heaps st1 e)"
    by (rule registry_unlink_ok [OF hs as])
  let ?r = "(a, heap_bytes K)" and ?os = "os_free K a (heap_bytes K) (st_os st1)" and ?S = "seg_regions (set (cg_segs g1))"
  let ?st1 = "st1\<lparr>st_registry := st_registry st1, st_os := ?os\<rparr>"
  have rin: "?r \<in> heap_regs K st1" using as hs(2) by (auto simp: heap_regs_def)
  have set: "?S \<union> regs K st1 \<union> reg_region K (st_registry st1) - {?r} = ?S \<union> (regs K st1 - {?r}) \<union> reg_region K (st_registry st1)"
    using w(2,3) rin by blast
  have h: "os_holds K ?os (?S \<union> (regs K st1 - {?r}) \<union> reg_region K (st_registry st1))" "mem ?os = st_mem st1"
    using os_holds_free [OF w(1), of a "heap_bytes K"] rin unfolding set by simp_all
  have lg: "\<forall>b h. get_large b st1 = Some h \<longrightarrow> (b, lh_mmap_size h) \<in> regs K st1 - {?r}"
    using f(5) rin by (auto simp: large_regs_def)
  have i: "base_inv K (regs K st1 - {?r}) ?st1 g1 {}" "heaps_ok ?st1 (cg_out g1) hl1" "small_live ?st1 g1 = small_live st1 g1"
    "hframe (regs K st1 \<union> small_live st1 g1) st1 ?st1" "aband_owned ?st1 g1"
    by (rule heap_os_change [OF f(1,3,7) w(4,5) h(1) _ _ lg, where Q = "regs K st1"]; use w(2,3) h(2) in auto)+
  have o: "outer_frame st1 ?st1" by (simp add: outer_frame_def get_large_def)
  let ?st = "?st1\<lparr>st_heaps := H(a := None), st_g_registry := G, st_t_heap := (st_t_heap st1)(t := NullHeap)\<rparr>"
  have n: "\<forall>c < 36. hl1 a c = []" using 1(3) by simp
  have ta: "st_t_heap st1 t = HeapAt a" using a(1) 1(8) by simp
  have inv2: "heap_inv K ?st g1 hl1" "regs K ?st \<subseteq> regs K st1"
    by (rule drop_heap_ok [OF i(1) f(2) i(2,5) o f(4) ta f(5) n u(4,5,2,3)])+
  obtain y where y: "H a = Some y" using u(4) as hs(2) by blast
  have e: "thread_exit K t st = Some ?st"
    using a False 1(1,8) u(1) y num_size_classes_value
    by (simp add: thread_exit_def heap_destroy_def get_heap_def del: upt_rec_numeral)
  have lg: "large_regs st1 = large_regs st" using 1(5) by (simp add: large_regs_def hframe_def)
  have rg: "regs K st1 = regs K st" using lg 1(7) a(2) by (auto simp: heap_regs_def)
  have "hframe (large_regs st \<union> small_live st g) st1 ?st1" by (rule hframe_mono [OF i(4)]) (use 1(4) lg in auto)
  then have "hframe (large_regs st \<union> small_live st g) st ?st1" by (rule hframe_trans [OF hframe_mono [OF 1(5)], rotated]) auto
  then have "hframe (large_regs st \<union> small_live st g) st ?st" by (simp add: hframe_def threads_access)
  moreover have "small_live ?st g1 = small_live st g" unfolding small_live_threads using i(3) 1(4) by simp
  moreover have "no_new_map st1 ?st" by (auto simp: no_new_map_def dest: os_free_mapped)
  then have "reg_frame st ?st" using 1(6) no_new_map_trans [of st st1 ?st] by (simp add: reg_frame_def reg_exact_def)
  ultimately show ?thesis using e inv2 rg 1(8) by (intro exI [of _ ?st] exI [of _ g1] exI [of _ hl1]) simp
qed

end
