(* ===== verification/Large_Correct.thy ===== *)
theory Large_Correct
  imports Heap_Free
begin

text \<open>
  The large path of the API (src/src/hmalloc.cpp, \<open>alloc_large\<close> and \<open>free_large\<close>): every large
  allocation is an OS region of its own whose user block starts within the first segment, so
  that masking recovers the header; the counters are exact; registering and unregistering the
  region returns.
\<close>

section \<open>The invariant of large allocations\<close>

definition large_header_ok :: "addr \<Rightarrow> LargeHeader \<Rightarrow> bool" where
  "large_header_ok a h \<longleftrightarrow> segment_aligned a \<and> lh_kind h = Large \<and> 32 \<le> unat (lh_offset h) \<and> 16 dvd unat (lh_offset h) \<and>
     unat (lh_offset h) < 2 ^ 22 \<and> unat (lh_offset h) < unat (lh_mmap_size h)"

definition large_dom :: "State \<Rightarrow> addr set" where
  "large_dom st = {a. get_large a st \<noteq> None}"

definition large_ok :: "State \<Rightarrow> bool" where
  "large_ok st \<longleftrightarrow> (\<forall>a h. get_large a st = Some h \<longrightarrow> large_header_ok a h) \<and>
     st_large_count st = of_nat (card (large_dom st)) \<and>
     st_large_bytes st = (\<Sum>a \<in> large_dom st. lh_mmap_size (the (get_large a st)))"

definition large_block :: "addr \<Rightarrow> LargeHeader \<Rightarrow> addr \<times> u64" where
  "large_block a h = (a + lh_offset h, lh_mmap_size h - lh_offset h)"

definition large_live :: "State \<Rightarrow> (addr \<times> u64) set" where
  "large_live st = {large_block a h |a h. get_large a st = Some h}"

lemma large_liveI: "get_large a st = Some h \<Longrightarrow> large_block a h \<in> large_live st"
  unfolding large_live_def by blast

lemma finite_large_dom: "heap_inv K st g hl \<Longrightarrow> finite (large_dom st)"
proof -
  assume "heap_inv K st g hl"
  then have "finite (large_regs st)" using os_holds_finite [OF world_regs(1)] by blast
  moreover have "large_dom st = fst ` large_regs st" by (force simp: large_dom_def large_regs_def)
  ultimately show ?thesis by simp
qed

lemma large_block_facts:
  assumes inv: "heap_inv K st g hl" and l: "large_ok st" and h: "get_large a st = Some h"
  shows "a \<noteq> 0" "(a, lh_mmap_size h) \<in> regs K st" "unat (a + lh_offset h) = unat a + unat (lh_offset h)"
    "unat (lh_mmap_size h - lh_offset h) = unat (lh_mmap_size h) - unat (lh_offset h)"
    "region_base (a + lh_offset h) = a" "kind_of (a + lh_offset h) st = Some Large"
    "region_set (large_block a h) \<subseteq> region_set (a, lh_mmap_size h)" "snd (large_block a h) \<noteq> 0"
proof -
  have ok: "large_header_ok a h" using l h by (simp add: large_ok_def)
  show r: "(a, lh_mmap_size h) \<in> regs K st" using world_regs(6) [OF inv] h by blast
  then have "(a, lh_mmap_size h) \<in> seg_regions (set (cg_segs g)) \<union> regs K st \<union> reg_region K (st_registry st)" by blast
  note o = os_holds_region [OF world_regs(1) [OF inv] this]
  show "a \<noteq> 0" by (rule o(1))
  have off: "unat (lh_offset h) < unat (lh_mmap_size h)" "segment_aligned a" "unat (lh_offset h) < 2 ^ 22" "lh_kind h = Large"
    using ok by (simp_all add: large_header_ok_def)
  show ua: "unat (a + lh_offset h) = unat a + unat (lh_offset h)" using o(3) off(1) by (intro unat_add_nowrap) simp
  show um: "unat (lh_mmap_size h - lh_offset h) = unat (lh_mmap_size h) - unat (lh_offset h)"
    using off(1) by (intro unat_diff_nowrap) (simp add: word_le_nat_alt)
  show rb: "region_base (a + lh_offset h) = a" using region_base_offset(2) [OF off(2,3)] by simp
  show "kind_of (a + lh_offset h) st = Some Large" using rb h off(4)
    by (auto simp: kind_of_def get_large_def split: option.splits Region.splits)
  show "snd (large_block a h) \<noteq> 0" using um off(1) by (auto simp: large_block_def)
  show "region_set (large_block a h) \<subseteq> region_set (a, lh_mmap_size h)"
  proof
    fix x assume "x \<in> region_set (large_block a h)"
    then have "in_region (a + lh_offset h) (lh_mmap_size h - lh_offset h) x" by (simp add: region_set_def large_block_def)
    then have "unat (a + lh_offset h) \<le> unat x \<and> unat x < unat (a + lh_offset h) + unat (lh_mmap_size h - lh_offset h)"
      by (subst (asm) in_region_iff) (use o(3) ua um off(1) in simp_all)
    then show "x \<in> region_set (a, lh_mmap_size h)" using ua um off(1) o(3) by (simp add: region_set_def in_region_iff)
  qed
qed

section \<open>Changes of the region map\<close>

lemma regions_change:
  fixes st M c b
  defines "st' \<equiv> st\<lparr>st_regions := M, st_large_count := c, st_large_bytes := b\<rparr>"
  assumes bi: "base_inv K R st g L" and seg: "\<And>s. get_seg s st' = get_seg s st"
    and k: "reg_keys (st_registry st) \<subseteq> dom M" and l: "\<forall>a h. get_large a st' = Some h \<longrightarrow> (a, lh_mmap_size h) \<in> R"
  shows "base_inv K R st' g L" "heaps_ok st' P hl = heaps_ok st P hl" "aband_owned st' g = aband_owned st g"
    "small_live st' g = small_live st g" "threads_ok st' = threads_ok st"
proof -
  have gp: "get_page p st' = get_page p st" for p by (simp add: st'_def get_page_def)
  have lk: "seg_nx st' = seg_nx st" "av_nx st' = av_nx st" "av_pv st' = av_pv st" "pg_nx st' = pg_nx st" "pg_pv st' = pg_pv st"
    by (simp_all add: link_defs fun_eq_iff seg gp)
  have f: "st_central st' = st_central st" "st_registry st' = st_registry st" "st_os st' = st_os st" "st_regions st' = M"
    "st_heaps st' = st_heaps st" "st_t_heap st' = st_t_heap st" "st_g_registry st' = st_g_registry st" by (simp_all add: st'_def)
  have pb: "pblocks st' p = pblocks st p" "page_good st' p = page_good st p" for p by (simp_all add: pblocks_def page_good_def gp f)
  have "central_lists st' g L = central_lists st g L"
    by (simp add: central_lists_def central_core_def avail_list_def seg_inv_def page_area_ok_def lk gp seg f)
  moreover have "world_ok K R st' (set (cg_segs g))" using base_inv_facts(5) [OF bi] k l by (simp add: world_ok_def seg f)
  ultimately show "base_inv K R st' g L" using bi by (simp add: base_inv_def pb f)
  show "heaps_ok st' P hl = heaps_ok st P hl" by (simp add: heaps_ok_def heap_lists_def owned_def gp pb lk f)
  show "aband_owned st' g = aband_owned st g" by (simp add: aband_owned_def page_owner_def gp)
  show "small_live st' g = small_live st g" by (simp add: small_live_used pb)
  have "hp_nx st' = hp_nx st" by (simp add: fun_eq_iff hp_nx_def get_heap_def f split: heap_ptr.splits)
  then show "threads_ok st' = threads_ok st" by (simp add: threads_ok_def f)
qed

section \<open>Allocating\<close>

definition large_offset :: "u64 \<Rightarrow> u64" where
  "large_offset align = (if align > ALLOC_ALIGN then round_up LARGE_OFFSET align else LARGE_OFFSET)"

lemma large_offset_ok:
  assumes "k \<le> 21"
  shows "32 \<le> unat (large_offset (2 ^ k))" "16 dvd unat (large_offset (2 ^ k))" "2 ^ k dvd unat (large_offset (2 ^ k))"
    "unat (large_offset (2 ^ k)) < 2 ^ 22"
proof -
  have u: "unat (2 ^ k :: u64) = 2 ^ k" using assms by (simp add: unat_exp_u64)
  have p: "(2 :: nat) ^ k \<le> 2 ^ 21" using assms by (rule power_increasing) simp
  have "32 \<le> unat (large_offset (2 ^ k)) \<and> 16 dvd unat (large_offset (2 ^ k)) \<and> 2 ^ k dvd unat (large_offset (2 ^ k)) \<and>
    unat (large_offset (2 ^ k)) < 2 ^ 22"
  proof (cases "k \<le> 4")
    case True
    then have "(2 :: nat) ^ k \<le> 2 ^ 4" by (intro power_increasing) simp_all
    then have "\<not> ALLOC_ALIGN < (2 ^ k :: u64)" using u by (simp add: word_less_nat_alt)
    moreover have "(2 :: nat) ^ k dvd 2 ^ 5" using True by (intro le_imp_power_dvd) simp
    ultimately show ?thesis by (simp add: large_offset_def)
  next
    case False
    have "(2 :: nat) ^ 5 \<le> 2 ^ k" using False by (intro power_increasing) simp_all
    then have "ALLOC_ALIGN < (2 ^ k :: u64)" using u by (simp add: word_less_nat_alt)
    then have e: "unat (large_offset (2 ^ k)) = nat_round_up 32 (2 ^ k)"
      using unat_align_up [of k 32] assms p by (simp add: large_offset_def round_up_def)
    have "(2 :: nat) ^ 4 dvd 2 ^ k" using False by (intro le_imp_power_dvd) simp
    then have "16 dvd nat_round_up 32 (2 ^ k)" using nat_round_up_dvd [of "2 ^ k" 32] by (auto intro: dvd_trans)
    then show ?thesis using e nat_round_up_dvd [of "2 ^ k" 32] nat_round_up_ge [of "2 ^ k" 32] nat_round_up_less [of "2 ^ k" 32] p by simp
  qed
  then show "32 \<le> unat (large_offset (2 ^ k))" "16 dvd unat (large_offset (2 ^ k))" "2 ^ k dvd unat (large_offset (2 ^ k))"
    "unat (large_offset (2 ^ k)) < 2 ^ 22" by simp_all
qed

text \<open>Adding a region: its header is stored and the counters go up.\<close>

definition add_large :: "addr \<Rightarrow> LargeHeader \<Rightarrow> State \<Rightarrow> State" where
  "add_large a h st = st\<lparr>st_regions := (st_regions st)(a \<mapsto> LargeRegion h), st_large_count := st_large_count st + 1,
     st_large_bytes := st_large_bytes st + lh_mmap_size h\<rparr>"

lemma add_large_access:
  assumes "st_regions st a = None"
  shows "get_large x (add_large a h st) = (if x = a then Some h else get_large x st)" "get_seg x (add_large a h st) = get_seg x st"
    "large_dom (add_large a h st) = insert a (large_dom st)" "a \<notin> large_dom st"
    "large_regs (add_large a h st) = insert (a, lh_mmap_size h) (large_regs st)"
    "large_live (add_large a h st) = insert (large_block a h) (large_live st)"
    "heap_regs K (add_large a h st) = heap_regs K st"
proof -
  show g: "get_large x (add_large a h st) = (if x = a then Some h else get_large x st)" for x by (simp add: add_large_def get_large_def)
  show "get_seg x (add_large a h st) = get_seg x st" "a \<notin> large_dom st"
    using assms by (simp_all add: add_large_def get_seg_def large_dom_def get_large_def)
  have n: "get_large a st = None" using assms by (simp add: get_large_def)
  show "large_dom (add_large a h st) = insert a (large_dom st)" by (auto simp: large_dom_def g)
  show "large_regs (add_large a h st) = insert (a, lh_mmap_size h) (large_regs st)" using n by (auto simp: large_regs_def g)
  have "large_block x y \<in> large_live (add_large a h st)" if "get_large x st = Some y" for x y
    using that n g [of x] by (intro large_liveI) auto
  moreover have "large_block a h \<in> large_live (add_large a h st)" using g [of a] by (intro large_liveI) simp
  moreover have "large_live (add_large a h st) \<subseteq> insert (large_block a h) (large_live st)"
    by (auto simp: large_live_def g split: if_splits)
  ultimately show "large_live (add_large a h st) = insert (large_block a h) (large_live st)" unfolding large_live_def [of st] by blast
  show "heap_regs K (add_large a h st) = heap_regs K st" by (simp add: heap_regs_def add_large_def)
qed

lemma add_large_counts:
  assumes n: "st_regions st a = None" and l: "large_ok st" and f: "finite (large_dom st)" and h: "large_header_ok a h"
  shows "large_ok (add_large a h st)"
proof -
  note ac = add_large_access [OF n]
  have "(\<Sum>x \<in> large_dom st. lh_mmap_size (the (get_large x (add_large a h st)))) = (\<Sum>x \<in> large_dom st. lh_mmap_size (the (get_large x st)))"
    by (rule sum.cong) (use ac(4) in \<open>auto simp: ac(1)\<close>)
  then have "(\<Sum>x \<in> large_dom (add_large a h st). lh_mmap_size (the (get_large x (add_large a h st)))) = lh_mmap_size h + st_large_bytes st"
    using l f ac(4) unfolding ac(3) by (simp add: large_ok_def ac(1))
  moreover have "of_nat (card (large_dom (add_large a h st))) = st_large_count st + 1"
    using l f ac(4) unfolding ac(3) by (simp add: large_ok_def)
  ultimately show ?thesis using l h by (simp add: large_ok_def ac(1)) (simp add: add_large_def add.commute)
qed

lemma fresh_base:
  assumes inv: "heap_inv K st g hl" and e: "os_alloc_aligned K n al (st_os st) = (a, os)" "a \<noteq> 0"
  shows "st_regions st a = None"
proof (rule ccontr)
  assume "st_regions st a \<noteq> None"
  then consider h where "get_large a st = Some h" | "get_seg a st \<noteq> None"
    by (cases "the (st_regions st a)") (auto simp: get_large_def get_seg_def)
  then have "\<exists>m. (a, m) \<in> seg_regions (set (cg_segs g)) \<union> regs K st \<union> reg_region K (st_registry st)"
    using world_regs(6,7) [OF inv] by cases (auto simp: seg_regions_def)
  then show False using fresh_region(5) [OF inv e] by blast
qed

text \<open>The steps of \<open>alloc_large\<close> after the region has been granted.\<close>

lemma grant_large_ok:
  assumes inv: "heap_inv K st g hl" and l: "large_ok st" and r: "roomy (st_registry st)"
    and e: "os_alloc_aligned K (lh_mmap_size h) SEGMENT_SIZE (st_os st) = (a, os)" "a \<noteq> 0" and h: "large_header_ok a h"
  obtains r' os' where "region_register K a (st_registry st) os = Some (r', os')"
    "heap_inv K ((add_large a h (st\<lparr>st_os := os\<rparr>))\<lparr>st_registry := r', st_os := os'\<rparr>) g hl"
    "large_ok ((add_large a h (st\<lparr>st_os := os\<rparr>))\<lparr>st_registry := r', st_os := os'\<rparr>)"
    "small_live ((add_large a h (st\<lparr>st_os := os\<rparr>))\<lparr>st_registry := r', st_os := os'\<rparr>) g = small_live st g"
    "same_on (regs K st \<union> small_live st g) (st_mem st) (mem os')" "\<forall>x \<in> region_set (a, lh_mmap_size h). mem os' x = 0"
    "rg_slots r' \<noteq> None \<longrightarrow> reg_keys (st_registry st) = dom (st_regions st) \<longrightarrow> reg_keys r' = insert a (dom (st_regions st))"
    "slack (st_registry st) \<longrightarrow> roomy r'"
proof -
  note f = heap_inv_facts [OF inv] and w = world_regs [OF inv] and fr = fresh_region [OF inv e] and n = fresh_base [OF inv e]
  let ?S = "seg_regions (set (cg_segs g))" and ?n = "lh_mmap_size h"
  let ?st1 = "st\<lparr>st_registry := st_registry st, st_os := os\<rparr>"
  have e1: "st\<lparr>st_os := os\<rparr> = ?st1" by simp
  have m: "same_on (?S \<union> regs K st) (st_mem st) (mem os)" using fr(6) by (auto simp: same_on_def)
  have 1: "base_inv K (insert (a, ?n) (regs K st)) ?st1 g {}" "heaps_ok ?st1 (cg_out g) hl" "small_live ?st1 g = small_live st g"
    "hframe (regs K st \<union> small_live st g) st ?st1" "aband_owned ?st1 g"
    by (rule heap_os_change [OF f(1,3,7) w(4,5) fr(1), where Q = "regs K st"]; use w(2,3,6) fr(2-4) m in simp)+
  let ?st2 = "add_large a h ?st1"
  have n1: "st_regions ?st1 a = None" using n by simp
  note ac = add_large_access [OF n1]
  have st2: "?st2 = ?st1\<lparr>st_regions := (st_regions ?st1)(a \<mapsto> LargeRegion h), st_large_count := st_large_count ?st1 + 1,
     st_large_bytes := st_large_bytes ?st1 + ?n\<rparr>" by (simp add: add_large_def)
  have lg: "\<forall>x y. get_large x ?st2 = Some y \<longrightarrow> (x, lh_mmap_size y) \<in> insert (a, ?n) (regs K st)"
    using w(6) unfolding ac(1) by (simp add: get_large_def)
  have keys: "reg_keys (st_registry ?st1) \<subseteq> dom ((st_regions ?st1)(a \<mapsto> LargeRegion h))" using w(5) by auto
  note rc = regions_change [OF 1(1) _ keys, where c = "st_large_count ?st1 + 1" and b = "st_large_bytes ?st1 + ?n", folded st2]
  have 2: "base_inv K (insert (a, ?n) (regs K st)) ?st2 g {}" "heaps_ok ?st2 (cg_out g) hl = heaps_ok ?st1 (cg_out g) hl"
    "aband_owned ?st2 g = aband_owned ?st1 g" "small_live ?st2 g = small_live ?st1 g" "threads_ok ?st2 = threads_ok ?st1"
    by (rule rc [OF ac(2) lg])+
  have o1: "outer_frame st ?st1" by (simp add: outer_frame_def get_large_def)
  have rg: "heap_regs K ?st2 = heap_regs K st" "large_regs ?st2 = insert (a, ?n) (large_regs st)"
    using ac(5,7) outer_regs [OF o1] by simp_all
  have dj: "heap_regs K ?st2 \<inter> large_regs ?st2 = {}" "regs K ?st2 = insert (a, ?n) (regs K st)" using f(5) fr(3) unfolding rg by auto
  have inv2: "heap_inv K ?st2 g hl" unfolding heap_inv_def dj(2) using 2 1 f(2,4) dj(1) outer_threads [OF o1] by simp
  note w2 = world_regs [OF inv2]
  have reg2: "st_registry ?st2 = st_registry st" "st_os ?st2 = os" "st_regions ?st2 = (st_regions st)(a \<mapsto> LargeRegion h)"
    by (simp_all add: add_large_def)
  have sa: "segment_aligned a" using h by (simp add: large_header_ok_def)
  obtain r' os' where 3: "region_register K a (st_registry st) os = Some (r', os')" "reg_inv r'"
    "reg_keys (st_registry st) \<subseteq> reg_keys r'" "reg_keys r' \<subseteq> insert a (reg_keys (st_registry st))"
    "rg_slots r' = None \<or> reg_keys r' = insert a (reg_keys (st_registry st))" "slack (st_registry st) \<longrightarrow> roomy r'"
    by (rule register_returns [OF w(4) r aligned_live [OF sa e(2)]])
  have t: "os_holds K os' (?S \<union> regs K ?st2 \<union> reg_region K r') \<and> (?S \<union> regs K ?st2) \<inter> reg_region K r' = {} \<and>
      same_on (?S \<union> regs K ?st2) (mem os) (mem os')"
    by (rule register_tracks [OF _ _ 3(1)]) (use w2(1,3) reg2 in simp_all)
  have kd: "reg_keys r' \<subseteq> dom (st_regions ?st2)" using 3(4) w(5) unfolding reg2 by auto
  let ?st3 = "?st2\<lparr>st_registry := r', st_os := os'\<rparr>"
  note f2 = heap_inv_facts [OF inv2]
  have 4: "base_inv K (regs K ?st2) ?st3 g {}" "heaps_ok ?st3 (cg_out g) hl" "small_live ?st3 g = small_live ?st2 g"
    "hframe (regs K ?st2 \<union> small_live ?st2 g) ?st2 ?st3" "aband_owned ?st3 g"
    by (rule heap_os_change [OF f2(1,3,7) 3(2) kd conjunct1 [OF t] w2(2) _ w2(6), where Q = "regs K ?st2"]; use t reg2 in simp)+
  have o3: "outer_frame ?st2 ?st3" by (simp add: outer_frame_def get_large_def)
  have inv3: "heap_inv K ?st3 g hl" by (rule heap_inv_outer [OF 4(1) f2(2) 4(2) o3 f2(4,5) 4(5)])
  have "large_ok ?st1" using l by (simp add: large_ok_def large_dom_def get_large_def)
  moreover have "finite (large_dom ?st1)" using finite_large_dom [OF inv] by (simp add: large_dom_def get_large_def)
  ultimately have "large_ok ?st2" by (rule add_large_counts [OF n1 _ _ h])
  then have lk: "large_ok ?st3" by (simp add: large_ok_def large_dom_def get_large_def)
  have sm: "same_on (regs K st \<union> small_live st g) (st_mem st) (mem os')"
  proof (rule same_on_trans [of _ _ "mem os"])
    show "same_on (regs K st \<union> small_live st g) (st_mem st) (mem os)" using 1(4) by (simp add: hframe_def)
    show "same_on (regs K st \<union> small_live st g) (mem os) (mem os')"
      by (rule same_on_subset [of "regs K ?st2 \<union> small_live ?st2 g"]) (use 4(4) dj(2) 2(4) 1(3) reg2 in \<open>auto simp: hframe_def\<close>)
  qed
  have "mem os' x = 0" if "x \<in> region_set (a, ?n)" for x
  proof -
    have "mem os' x = mem os x" using t that dj(2) by (simp add: same_on_def)
    then show ?thesis using os_holds_alloc(5) [OF w(1) e that] by simp
  qed
  moreover have "small_live ?st3 g = small_live st g" using 4(3) 2(4) 1(3) by simp
  ultimately show thesis using that [OF 3(1)] inv3 lk sm 3(5,6) unfolding e1 by auto
qed

text \<open>What \<open>alloc_large\<close> promises: nothing changes on failure; otherwise one fresh block, aligned, at
  least as large as asked for, and zero-filled.\<close>

definition large_result :: "u64 \<Rightarrow> nat \<Rightarrow> addr \<Rightarrow> State \<Rightarrow> State \<Rightarrow> bool" where
  "large_result sz k p st st' \<longleftrightarrow> (if p = 0 then large_live st' = large_live st
     else \<exists>n. sz \<le> n \<and> n \<noteq> 0 \<and> (p, n) \<notin> large_live st \<and> large_live st' = insert (p, n) (large_live st) \<and> 2 ^ k dvd unat p \<and> 16 dvd unat p \<and>
       (\<forall>x \<in> region_set (p, n). st_mem st' x = 0))"

text \<open>Why it fails: the size overflows, or the kernel refuses the region.\<close>

definition large_refused :: "kernel \<Rightarrow> u64 \<Rightarrow> nat \<Rightarrow> State \<Rightarrow> bool" where
  "large_refused K sz k st \<longleftrightarrow> (let t = large_offset (2 ^ k) + sz; n = round_up t (os_page_size K) in
     t < sz \<or> n < t \<or> fst (os_alloc_aligned K n SEGMENT_SIZE (st_os st)) = 0)"

lemma large_block_new:
  assumes inv: "heap_inv K st' g hl" "large_ok st'" and h: "get_large a st' = Some h" "lh_offset h = large_offset (2 ^ k)" "k \<le> 21"
    "unat (lh_offset h) + unat sz \<le> unat (lh_mmap_size h)"
  shows "a + lh_offset h \<noteq> 0" "sz \<le> lh_mmap_size h - lh_offset h" "2 ^ k dvd unat (a + lh_offset h)" "16 dvd unat (a + lh_offset h)"
proof -
  note b = large_block_facts [OF inv h(1)] and o = large_offset_ok [OF h(3)]
  show "sz \<le> lh_mmap_size h - lh_offset h" using b(4) h(4) by (simp add: word_le_nat_alt)
  have "unat (a + lh_offset h) \<noteq> 0" using b(3) h(2) o(1) by simp
  then show "a + lh_offset h \<noteq> 0" by auto
  have "2 ^ 22 dvd unat a" using inv(2) h(1) by (simp add: large_ok_def large_header_ok_def segment_aligned_def)
  moreover have "(2 :: nat) ^ k dvd 2 ^ 22" by (rule le_imp_power_dvd) (use h(3) in simp)
  moreover have "(2 :: nat) ^ 4 dvd 2 ^ 22" by (rule le_imp_power_dvd) simp
  ultimately have "2 ^ k dvd unat a" "2 ^ 4 dvd unat a" using dvd_trans by blast+
  then show "2 ^ k dvd unat (a + lh_offset h)" "16 dvd unat (a + lh_offset h)" unfolding b(3) using o(2,3) h(2) by simp_all
qed

definition large_post :: "kernel \<Rightarrow> cghost \<Rightarrow> hghost \<Rightarrow> u64 \<Rightarrow> nat \<Rightarrow> addr \<Rightarrow> State \<Rightarrow> State \<Rightarrow> bool" where
  "large_post K g hl sz k p st st' \<longleftrightarrow> heap_inv K st' g hl \<and> large_ok st' \<and> small_live st' g = small_live st g \<and>
     same_on (regs K st \<union> small_live st g) (st_mem st) (st_mem st') \<and> registry_step st st' \<and> st_t_heap st' = st_t_heap st \<and>
     large_result sz k p st st' \<and> (p = 0 \<longrightarrow> large_refused K sz k st)"

lemma alloc_large_unfold:
  defines "o1 \<equiv> \<lambda>k. large_offset (2 ^ k)" and "n1 \<equiv> \<lambda>K sz k. round_up (large_offset (2 ^ k) + sz) (os_page_size K)"
  shows "alloc_large K sz (2 ^ k) st = (if o1 k + sz < sz then Some (0, st) else if n1 K sz k < o1 k + sz then Some (0, st)
      else case os_alloc_aligned K (n1 K sz k) SEGMENT_SIZE (st_os st) of (a, os) \<Rightarrow>
          if a = 0 then Some (0, st\<lparr>st_os := os\<rparr>)
          else do { (r, os') \<leftarrow> region_register K a (st_registry st) os;
            Some (a + o1 k, (add_large a \<lparr>lh_kind = Large, lh_mmap_size = n1 K sz k, lh_offset = o1 k, lh_req_size = sz\<rparr> (st\<lparr>st_os := os\<rparr>))
              \<lparr>st_registry := r, st_os := os'\<rparr>) })"
  unfolding o1_def n1_def alloc_large_def large_offset_def [symmetric] add_large_def Let_def
  by (cases "os_alloc_aligned K (round_up (large_offset (2 ^ k) + sz) (os_page_size K)) SEGMENT_SIZE (st_os st)") (simp del: constants_value)

lemma large_post_refused:
  assumes inv: "heap_inv K st g hl" "large_ok st" and e: "os_alloc_aligned K n SEGMENT_SIZE (st_os st) = (0, os)" and r: "large_refused K sz k st"
  shows "large_post K g hl sz k 0 st (st\<lparr>st_os := os\<rparr>)"
proof -
  note f = heap_inv_facts [OF inv(1)] and w = world_regs [OF inv(1)] and h = os_holds_refused [OF world_regs(1) [OF inv(1)] e]
  let ?st = "st\<lparr>st_registry := st_registry st, st_os := os\<rparr>"
  have i: "base_inv K (regs K st) ?st g {}" "heaps_ok ?st (cg_out g) hl" "small_live ?st g = small_live st g"
    "hframe (regs K st \<union> small_live st g) st ?st" "aband_owned ?st g"
    by (rule heap_os_change [OF f(1,3,7) w(4,5) h(1) w(2,3,6), where Q = "regs K st"]; simp add: h(2))+
  have "outer_frame st ?st" by (simp add: outer_frame_def get_large_def)
  then have "heap_inv K ?st g hl" by (intro heap_inv_outer [OF i(1) f(2) i(2)]) (use f i(5) in simp_all)
  moreover have "large_ok ?st" "large_live ?st = large_live st" using inv(2) by (simp_all add: large_ok_def large_dom_def large_live_def get_large_def)
  ultimately show ?thesis using i(3,4) r
    by (simp add: large_post_def large_result_def registry_step_def slack_roomy reg_exact_def hframe_def)
qed

lemma large_result_granted:
  assumes inv: "heap_inv K st g hl" "large_ok st" and n: "st_regions st a = None"
    and i': "heap_inv K st' g hl" "large_ok st'" and gl: "\<And>c. get_large c st' = (if c = a then Some h else get_large c st)"
    and z: "\<forall>x \<in> region_set (a, lh_mmap_size h). st_mem st' x = 0"
    and k: "k \<le> 21" "lh_offset h = large_offset (2 ^ k)" and un: "unat (lh_offset h) + unat sz \<le> unat (lh_mmap_size h)"
  shows "large_result sz k (a + lh_offset h) st st'" "a + lh_offset h \<noteq> 0"
proof -
  have ga: "get_large a st' = Some h" using gl by simp
  note nb = large_block_new [OF i' ga k(2,1) un] and lb = large_block_facts [OF i' ga]
  have na: "get_large a st = None" using n by (simp add: get_large_def)
  have lv: "large_live st' = insert (large_block a h) (large_live st)" 
  proof (intro subset_antisym subsetI)
    fix b assume "b \<in> large_live st'"
    then obtain c j where c: "b = large_block c j" "get_large c st' = Some j" by (auto simp: large_live_def)
    then show "b \<in> insert (large_block a h) (large_live st)" using gl [of c] large_liveI [of c st j] by (cases "c = a") simp_all
  next
    fix b assume "b \<in> insert (large_block a h) (large_live st)"
    then consider "b = large_block a h" | c j where "b = large_block c j" "get_large c st = Some j" by (auto simp: large_live_def)
    then show "b \<in> large_live st'"
    proof cases
      case (2 c j)
      then have "get_large c st' = Some j" using gl [of c] na by (cases "c = a") simp_all
      then show ?thesis using large_liveI 2(1) by simp
    qed (use large_liveI [OF ga] in simp)
  qed
  have "\<forall>x \<in> region_set (large_block a h). st_mem st' x = 0" using lb(7) z by auto
  moreover have "large_block a h \<notin> large_live st"
  proof
    assume "large_block a h \<in> large_live st"
    then obtain c j where c: "get_large c st = Some j" "a + lh_offset h = c + lh_offset j" by (auto simp: large_live_def large_block_def)
    then have "c = a" using large_block_facts(5) [OF inv c(1)] lb(5) by simp
    then show False using c(1) na by simp
  qed
  ultimately show "large_result sz k (a + lh_offset h) st st'" unfolding large_result_def lv using nb lb(8)
    by (auto simp: large_block_def intro!: exI [of _ "lh_mmap_size h - lh_offset h"])
  show "a + lh_offset h \<noteq> 0" by (rule nb(1))
qed

lemma large_post_granted:
  assumes inv: "heap_inv K st g hl" "large_ok st" and r: "roomy (st_registry st)" and k: "k \<le> 21" "lh_offset h = large_offset (2 ^ k)"
    and e: "os_alloc_aligned K (lh_mmap_size h) SEGMENT_SIZE (st_os st) = (a, os)" "a \<noteq> 0"
    and h: "lh_kind h = Large" "unat (lh_offset h) + unat sz \<le> unat (lh_mmap_size h)" "sz \<noteq> 0"
  shows "\<exists>r os'. region_register K a (st_registry st) os = Some (r, os') \<and>
    large_post K g hl sz k (a + lh_offset h) st ((add_large a h (st\<lparr>st_os := os\<rparr>))\<lparr>st_registry := r, st_os := os'\<rparr>)"
proof -
  have "unat SEGMENT_SIZE dvd unat a" by (rule os_holds_alloc(2) [OF world_regs(1) [OF inv(1)] e])
  moreover have "0 < unat sz" using h(3) by (simp add: unat_gt_0)
  ultimately have ho: "large_header_ok a h" using large_offset_ok [OF k(1)] h(1,2) k(2) by (simp add: large_header_ok_def segment_aligned_def)
  obtain r' os' where 3: "region_register K a (st_registry st) os = Some (r', os')"
    "heap_inv K ((add_large a h (st\<lparr>st_os := os\<rparr>))\<lparr>st_registry := r', st_os := os'\<rparr>) g hl"
    "large_ok ((add_large a h (st\<lparr>st_os := os\<rparr>))\<lparr>st_registry := r', st_os := os'\<rparr>)"
    "small_live ((add_large a h (st\<lparr>st_os := os\<rparr>))\<lparr>st_registry := r', st_os := os'\<rparr>) g = small_live st g"
    "same_on (regs K st \<union> small_live st g) (st_mem st) (mem os')" "\<forall>x \<in> region_set (a, lh_mmap_size h). mem os' x = 0"
    "rg_slots r' \<noteq> None \<longrightarrow> reg_keys (st_registry st) = dom (st_regions st) \<longrightarrow> reg_keys r' = insert a (dom (st_regions st))"
    "slack (st_registry st) \<longrightarrow> roomy r'"
    by (rule grant_large_ok [OF inv r e ho])
  let ?st = "(add_large a h (st\<lparr>st_os := os\<rparr>))\<lparr>st_registry := r', st_os := os'\<rparr>"
  have n: "st_regions st a = None" by (rule fresh_base [OF inv(1) e])
  then have ac: "get_large c (add_large a h (st\<lparr>st_os := os\<rparr>)) = (if c = a then Some h else get_large c (st\<lparr>st_os := os\<rparr>))" for c
    using add_large_access(1) [of "st\<lparr>st_os := os\<rparr>" a c h] by simp
  then have gl: "get_large c ?st = (if c = a then Some h else get_large c st)" for c by (simp add: get_large_def)
  have z: "\<forall>x \<in> region_set (a, lh_mmap_size h). st_mem ?st x = 0" using 3(6) by simp
  note lr = large_result_granted [OF inv n 3(2,3) gl z k h(2)]
  have "registry_step st ?st" using 3(7,8) by (simp add: registry_step_def reg_exact_def add_large_def)
  moreover have "st_t_heap ?st = st_t_heap st" by (simp add: add_large_def)
  ultimately have "large_post K g hl sz k (a + lh_offset h) st ?st" using 3(2-5) lr unfolding large_post_def by simp
  then show ?thesis using 3(1) by blast
qed

lemma alloc_large_ok:
  assumes inv: "heap_inv K st g hl" and l: "large_ok st" and r: "roomy (st_registry st)" and k: "k \<le> 21" and sz: "sz \<noteq> 0"
  shows "\<exists>p st'. alloc_large K sz (2 ^ k) st = Some (p, st') \<and> large_post K g hl sz k p st st'"
proof -
  let ?o = "large_offset (2 ^ k)"
  let ?t = "?o + sz"
  let ?n = "round_up ?t (os_page_size K)"
  note unf = alloc_large_unfold [of K sz k st]
  obtain a os where e: "os_alloc_aligned K ?n SEGMENT_SIZE (st_os st) = (a, os)" by fastforce
  consider "?t < sz \<or> ?n < ?t" | "\<not> ?t < sz" "\<not> ?n < ?t" "a = 0" | "\<not> ?t < sz" "\<not> ?n < ?t" "a \<noteq> 0" by blast
  then show ?thesis
  proof cases
    case 1
    then have "alloc_large K sz (2 ^ k) st = Some (0, st)" "large_refused K sz k st" using unf by (auto simp: large_refused_def Let_def)
    then show ?thesis using inv l
      by (intro exI [of _ 0] exI [of _ st]) (simp add: large_post_def registry_step_def slack_roomy large_result_def)
  next
    case 2
    then have "large_refused K sz k st" using e by (simp add: large_refused_def Let_def)
    then show ?thesis using large_post_refused [OF inv l e [unfolded 2(3)]] unf 2 e by simp
  next
    case 3
    have ut: "unat ?t = unat ?o + unat sz"
      using 3(1) unat_add_less_iff [of sz ?o] by (intro unat_add_nowrap) (simp add: add.commute)
    have un: "unat ?o + unat sz \<le> unat ?n" using 3(2) ut by (simp add: word_less_nat_alt)
    let ?h = "\<lparr>lh_kind = Large, lh_mmap_size = ?n, lh_offset = ?o, lh_req_size = sz\<rparr>"
    obtain r' os' where "region_register K a (st_registry st) os = Some (r', os')"
      "large_post K g hl sz k (a + ?o) st ((add_large a ?h (st\<lparr>st_os := os\<rparr>))\<lparr>st_registry := r', st_os := os'\<rparr>)"
      using large_post_granted [OF inv l r k, where h = ?h and a = a and os = os and sz = sz] e 3(3) un sz by auto
    then show ?thesis using unf 3 e by (simp del: constants_value)
  qed
qed

section \<open>Freeing\<close>

definition drop_large :: "addr \<Rightarrow> LargeHeader \<Rightarrow> State \<Rightarrow> State" where
  "drop_large a h st = st\<lparr>st_regions := (st_regions st)(a := None), st_large_count := st_large_count st - 1,
     st_large_bytes := st_large_bytes st - lh_mmap_size h\<rparr>"

lemma drop_large_access:
  assumes "get_large a st = Some h"
  shows "get_large x (drop_large a h st) = (if x = a then None else get_large x st)" "get_seg x (drop_large a h st) = get_seg x st"
    "large_dom (drop_large a h st) = large_dom st - {a}" "a \<in> large_dom st"
    "heap_regs K (drop_large a h st) = heap_regs K st"
proof -
  show g: "get_large x (drop_large a h st) = (if x = a then None else get_large x st)" for x by (simp add: drop_large_def get_large_def)
  show "get_seg x (drop_large a h st) = get_seg x st" using assms
    by (auto simp: drop_large_def get_seg_def get_large_def split: option.splits Region.splits)
  show "large_dom (drop_large a h st) = large_dom st - {a}" "a \<in> large_dom st" using assms by (auto simp: large_dom_def g)
  show "heap_regs K (drop_large a h st) = heap_regs K st" by (simp add: heap_regs_def drop_large_def)
qed

lemma drop_large_counts:
  assumes l: "large_ok st" and f: "finite (large_dom st)" and h: "get_large a st = Some h"
  shows "large_ok (drop_large a h st)"
proof -
  note ac = drop_large_access [OF h]
  have "(\<Sum>x \<in> large_dom st - {a}. lh_mmap_size (the (get_large x (drop_large a h st)))) =
      (\<Sum>x \<in> large_dom st - {a}. lh_mmap_size (the (get_large x st)))"
    by (rule sum.cong) (auto simp: ac(1))
  moreover have "(\<Sum>x \<in> large_dom st. lh_mmap_size (the (get_large x st))) =
      lh_mmap_size h + (\<Sum>x \<in> large_dom st - {a}. lh_mmap_size (the (get_large x st)))"
    using sum.remove [OF f ac(4), of "\<lambda>x. lh_mmap_size (the (get_large x st))"] h by simp
  ultimately have "(\<Sum>x \<in> large_dom (drop_large a h st). lh_mmap_size (the (get_large x (drop_large a h st)))) = st_large_bytes st - lh_mmap_size h"
    using l unfolding ac(3) by (simp add: large_ok_def)
  moreover have "(of_nat (card (large_dom st - {a})) :: u64) = st_large_count st - 1"
    using l card.remove [OF f ac(4)] by (simp add: large_ok_def)
  ultimately show ?thesis using l unfolding large_ok_def ac(3) by (simp add: ac(1)) (simp add: drop_large_def)
qed

lemma large_block_inj:
  assumes inv: "heap_inv K st g hl" "large_ok st" and a: "get_large a st = Some h" "get_large b st = Some j" and e: "large_block a h = large_block b j"
  shows "a = b" "h = j"
proof -
  show ab: "a = b" using large_block_facts(5) [OF inv a(1)] large_block_facts(5) [OF inv a(2)] e by (simp add: large_block_def)
  then show "h = j" using a by simp
qed

lemma drop_large_live:
  assumes inv: "heap_inv K st g hl" "large_ok st" and h: "get_large a st = Some h"
  shows "large_live (drop_large a h st) = large_live st - {large_block a h}"
    "large_regs (drop_large a h st) = large_regs st - {(a, lh_mmap_size h)}"
proof -
  note ac = drop_large_access [OF h]
  have i: "large_block x y \<in> large_live (drop_large a h st)" if "get_large x st = Some y" "x \<noteq> a" for x y
    using that ac(1) [of x] by (intro large_liveI) simp
  show "large_live (drop_large a h st) = large_live st - {large_block a h}"
  proof (intro equalityI subsetI)
    fix c assume "c \<in> large_live (drop_large a h st)"
    then obtain x y where x: "c = large_block x y" "get_large x st = Some y" "x \<noteq> a" by (auto simp: large_live_def ac(1) split: if_splits)
    then show "c \<in> large_live st - {large_block a h}" using large_liveI [OF x(2)] large_block_inj(1) [OF inv x(2) h] by auto
  next
    fix c assume "c \<in> large_live st - {large_block a h}"
    then obtain x y where "c = large_block x y" "get_large x st = Some y" "c \<noteq> large_block a h" by (auto simp: large_live_def)
    then show "c \<in> large_live (drop_large a h st)" using i [of x y] h by (cases "x = a") auto
  qed
  have "(x, m) \<in> large_regs (drop_large a h st) \<longleftrightarrow> (x, m) \<in> large_regs st - {(a, lh_mmap_size h)}" for x m
    using h by (cases "x = a") (auto simp: large_regs_def ac(1))
  then show "large_regs (drop_large a h st) = large_regs st - {(a, lh_mmap_size h)}" by auto
qed

lemma free_large_ok:
  assumes inv: "heap_inv K st g hl" and l: "large_ok st" and r: "roomy (st_registry st)" and h: "get_large a st = Some h"
  shows "\<exists>st'. free_large K (a + lh_offset h) st = Some st' \<and> heap_inv K st' g hl \<and> large_ok st' \<and>
    small_live st' g = small_live st g \<and> large_live st' = large_live st - {large_block a h} \<and> st_mem st' = st_mem st \<and>
    reg_frame st st' \<and> st_t_heap st' = st_t_heap st"
proof -
  note f = heap_inv_facts [OF inv] and w = world_regs [OF inv] and lb = large_block_facts [OF inv l h]
  let ?n = "lh_mmap_size h" and ?S = "seg_regions (set (cg_segs g))"
  have sa: "segment_aligned a" using l h by (simp add: large_ok_def large_header_ok_def)
  obtain r' where 1: "region_unregister a (st_registry st) = Some r'" "reg_inv r'" "reg_keys r' = reg_keys (st_registry st) - {a}"
    "roomy r'" "slack (st_registry st) \<longrightarrow> slack r'" "rg_slots r' = None \<longleftrightarrow> rg_slots (st_registry st) = None"
    by (rule unregister_roomy [OF w(4) r aligned_live [OF sa lb(1)]])
  have rr: "reg_region K r' = reg_region K (st_registry st)" by (rule unregister_region [OF 1(1)])
  let ?st1 = "st\<lparr>st_registry := r', st_os := st_os st\<rparr>"
  have kd: "reg_keys r' \<subseteq> dom (st_regions st)" using 1(3) w(5) by auto
  have 2: "base_inv K (regs K st) ?st1 g {}" "heaps_ok ?st1 (cg_out g) hl" "small_live ?st1 g = small_live st g"
    "hframe (regs K st \<union> small_live st g) st ?st1" "aband_owned ?st1 g"
    by (rule heap_os_change [OF f(1,3,7) 1(2) kd _ w(2) _ w(6), where Q = "regs K st"]; use w(1,3) rr in simp)+
  have h1: "get_large a ?st1 = Some h" using h by (simp add: get_large_def)
  note ac = drop_large_access [OF h1]
  let ?st2 = "drop_large a h ?st1"
  have st2: "?st2 = ?st1\<lparr>st_regions := (st_regions ?st1)(a := None), st_large_count := st_large_count ?st1 - 1,
     st_large_bytes := st_large_bytes ?st1 - ?n\<rparr>" by (simp add: drop_large_def)
  have keys: "reg_keys (st_registry ?st1) \<subseteq> dom ((st_regions ?st1)(a := None))" using 1(3) w(5) by auto
  have lg: "\<forall>x y. get_large x ?st2 = Some y \<longrightarrow> (x, lh_mmap_size y) \<in> regs K st"
    using w(6) unfolding ac(1) by (simp add: get_large_def)
  note rc = regions_change [OF 2(1) _ keys, where c = "st_large_count ?st1 - 1" and b = "st_large_bytes ?st1 - ?n", folded st2]
  have 3: "base_inv K (regs K st) ?st2 g {}" "heaps_ok ?st2 (cg_out g) hl = heaps_ok ?st1 (cg_out g) hl"
    "aband_owned ?st2 g = aband_owned ?st1 g" "small_live ?st2 g = small_live ?st1 g" "threads_ok ?st2 = threads_ok ?st1"
    by (rule rc [OF ac(2) lg])+
  have h3: "heaps_ok ?st2 (cg_out g) hl" "aband_owned ?st2 g" using 3(2,3) 2(2,5) by simp_all
  let ?os = "os_free K a ?n (st_os st)"
  have "?S \<union> regs K st \<union> reg_region K (st_registry st) - {(a, ?n)} = ?S \<union> (regs K st - {(a, ?n)}) \<union> reg_region K (st_registry st)"
    using w(2,3) lb(2) by blast
  moreover have "(a, ?n) \<in> ?S \<union> regs K st \<union> reg_region K (st_registry st)" using lb(2) by blast
  ultimately have os: "os_holds K ?os (?S \<union> (regs K st - {(a, ?n)}) \<union> reg_region K r')" "mem ?os = st_mem st"
    using os_holds_free [OF w(1), of a ?n] rr by simp_all
  have reg2: "st_registry ?st2 = r'" "st_os ?st2 = st_os st" "st_regions ?st2 = (st_regions st)(a := None)" by (simp_all add: drop_large_def)
  let ?st3 = "?st2\<lparr>st_registry := r', st_os := ?os\<rparr>"
  have i1: "heap_inv K ?st1 g hl" by (rule heap_inv_outer [OF 2(1) f(2) 2(2) _ f(4,5) 2(5)]) (simp add: outer_frame_def get_large_def)
  have l1: "large_ok ?st1" "large_live ?st1 = large_live st" "large_regs ?st1 = large_regs st" "heap_regs K ?st1 = heap_regs K st" "large_dom ?st1 = large_dom st"
    using l by (simp_all add: large_ok_def large_live_def large_dom_def large_regs_def heap_regs_def get_large_def)
  note dl = drop_large_live [OF i1 l1(1) h1]
  have ne: "(a, ?n) \<notin> heap_regs K st" using f(5) h by (auto simp: large_regs_def)
  have rg: "regs K ?st2 = regs K st - {(a, ?n)}" "heap_regs K ?st2 \<inter> large_regs ?st2 = {}"
    unfolding dl(2) ac(5) l1(3,4) using f(5) ne by auto
  have lg2: "\<forall>x y. get_large x ?st2 = Some y \<longrightarrow> (x, lh_mmap_size y) \<in> regs K st - {(a, ?n)}" 
  proof (intro allI impI)
    fix x y assume "get_large x ?st2 = Some y"
    then have "(x, lh_mmap_size y) \<in> large_regs ?st2" unfolding large_regs_def by blast
    then show "(x, lh_mmap_size y) \<in> regs K st - {(a, ?n)}" using rg(1) by blast
  qed
  have dj: "?S \<inter> (regs K st - {(a, ?n)}) = {}" "(?S \<union> (regs K st - {(a, ?n)})) \<inter> reg_region K r' = {}"
    using w(2,3) unfolding rr by blast+
  have kd2: "reg_keys r' \<subseteq> dom (st_regions ?st2)" using keys reg2 by simp
  have sm: "same_on (?S \<union> {}) (st_mem ?st2) (mem ?os)" using os(2) reg2 by simp
  have 4: "base_inv K (regs K st - {(a, ?n)}) ?st3 g {}" "heaps_ok ?st3 (cg_out g) hl" "small_live ?st3 g = small_live ?st2 g"
    "aband_owned ?st3 g"
    by (rule heap_os_change [OF 3(1) h3 1(2) kd2 os(1) dj lg2 sm])+
  have o3: "outer_frame ?st2 ?st3" by (simp add: outer_frame_def get_large_def)
  have "threads_ok ?st2" using 3(5) heap_inv_facts(4) [OF i1] by simp
  then have "heap_inv K ?st3 g hl" by (intro heap_inv_outer [OF _ f(2) 4(2) o3 _ rg(2) 4(4)]) (use 4(1) rg(1) in simp_all)
  moreover have "free_large K (a + lh_offset h) st = Some ?st3"
    using lb(5) h 1(1) by (simp add: free_large_def Let_def drop_large_def)
  moreover have "large_ok ?st2" by (rule drop_large_counts [OF l1(1) _ h1]) (use finite_large_dom [OF inv] l1(5) in simp)
  then have "large_ok ?st3" by (simp add: large_ok_def large_dom_def get_large_def)
  moreover have "large_live ?st3 = large_live st - {large_block a h}" using dl(1) l1(2) by (simp add: large_live_def get_large_def)
  moreover have "no_new_map st ?st3" by (auto simp: no_new_map_def dest: os_free_mapped)
  then have "reg_frame st ?st3" using 1(3-5) reg2 by (auto simp: reg_frame_def reg_exact_def)
  ultimately show ?thesis using 4(3) 3(4) 2(3) os(2) by (intro exI [of _ ?st3]) (simp add: drop_large_def)
qed

end
