(* ===== verification/HM_Correct.thy ===== *)
theory HM_Correct
  imports Large_Correct
begin

text \<open>
  The public API (src/include/hmalloc/hmalloc.h, src/src/hmalloc.cpp) against what a client
  sees: the set \<open>L\<close> of live blocks, each an address with its usable size. The invariant
  \<open>hm_inv K st L\<close> says that the state is well formed and that its live blocks, small and large,
  are exactly \<open>L\<close>. Every call returns, adds or removes exactly the blocks it promises, and leaves
  the bytes of the other live blocks alone.
\<close>

section \<open>The client's view\<close>

type_synonym blocks = "(addr \<times> u64) set"

definition hm_inv :: "kernel \<Rightarrow> State \<Rightarrow> blocks \<Rightarrow> bool" where
  "hm_inv K st L \<longleftrightarrow> (\<exists>g hl. heap_inv K st g hl \<and> large_ok st \<and> L = small_live st g \<union> large_live st)"

lemma hm_invE:
  assumes "hm_inv K st L"
  obtains g hl where "heap_inv K st g hl" "large_ok st" "L = small_live st g \<union> large_live st"
  using assms unfolding hm_inv_def by blast

lemma small_block_facts:
  assumes inv: "heap_inv K st g hl" and b: "(p, n) \<in> small_live st g"
  shows "p \<noteq> 0" "n \<noteq> 0" "16 dvd unat p" "unat p + unat n < 2 ^ 64" "kind_of p st = Some Small" "hm_usable_size p st = Some n"
proof -
  note c = heap_inv_facts(6) [OF inv]
  obtain q where q: "q \<in> used_pages g" "(p, n) \<in> pblocks st q" using b by (auto simp: small_live_used)
  obtain x fl tf where x: "get_page q st = Some x" "page_ok (st_mem st) x fl tf" "p \<in> page_live x fl tf" "n = ucast (pg_block_size x)"
    using q(2) by (auto simp: pblocks_def)
  have g: "page_geometry x" "p \<in> page_blocks x" using x(2,3) by (simp_all add: page_ok_def page_live_def)
  have d: "16 dvd unat n" using g(1) x(4) by (simp add: page_geometry_def)
  show "16 dvd unat p" "p \<noteq> 0" by (rule block_aligned [OF c q d], simp)+
  show "n \<noteq> 0" using pblocks_nonempty(2) [OF q(2)] by simp
  obtain k where k: "k < unat (pg_capacity x)" "p = block_addr x k" by (rule page_blocks_capacity [OF g])
  show "unat p + unat n < 2 ^ 64" using block_bounds [OF g(1) k(1)] k(2) g(1) x(4) by (simp add: page_geometry_def)
  show ks: "kind_of p st = Some Small" by (rule block_page(3) [OF c q])
  then show "hm_usable_size p st = Some n" using \<open>p \<noteq> 0\<close> block_page(1) [OF c q] x(1,4) by (simp add: hm_usable_size_def)
qed

lemma large_live_facts:
  assumes inv: "heap_inv K st g hl" "large_ok st" and b: "(p, n) \<in> large_live st"
  shows "p \<noteq> 0" "n \<noteq> 0" "16 dvd unat p" "unat p + unat n < 2 ^ 64" "kind_of p st = Some Large" "hm_usable_size p st = Some n"
proof -
  obtain a h where h: "get_large a st = Some h" "p = a + lh_offset h" "n = lh_mmap_size h - lh_offset h"
    using b by (auto simp: large_live_def large_block_def)
  note f = large_block_facts [OF inv h(1)]
  have ok: "large_header_ok a h" using inv(2) h(1) by (simp add: large_ok_def)
  have r: "(a, lh_mmap_size h) \<in> seg_regions (set (cg_segs g)) \<union> regs K st \<union> reg_region K (st_registry st)" using f(2) by blast
  have w: "unat a + unat (lh_mmap_size h) < 2 ^ 64" by (rule os_holds_region(3) [OF world_regs(1) [OF inv(1)] r])
  have "2 ^ 4 dvd (2 :: nat) ^ 22" by (rule le_imp_power_dvd) simp
  then have "16 dvd unat a" using ok dvd_trans [of "2 ^ 4" "2 ^ 22" "unat a"] by (simp add: large_header_ok_def segment_aligned_def)
  then show "16 dvd unat p" using f(3) ok h(2) by (simp add: large_header_ok_def)
  have "unat p \<noteq> 0" using f(3) ok h(2) by (simp add: large_header_ok_def)
  then show "p \<noteq> 0" by auto
  show "n \<noteq> 0" using f(8) h(3) by (simp add: large_block_def)
  show "unat p + unat n < 2 ^ 64" using f(3,4) w h(2,3) ok by (simp add: large_header_ok_def)
  show "kind_of p st = Some Large" using f(6) h(2) by simp
  then show "hm_usable_size p st = Some n" using \<open>p \<noteq> 0\<close> f(5) h by (simp add: hm_usable_size_def)
qed

lemma live_facts:
  assumes "hm_inv K st L" "(p, n) \<in> L"
  shows "p \<noteq> 0" "n \<noteq> 0" "16 dvd unat p" "unat p + unat n < 2 ^ 64" "hm_usable_size p st = Some n"
proof -
  obtain g hl where i: "heap_inv K st g hl" "large_ok st" "L = small_live st g \<union> large_live st" by (rule hm_invE [OF assms(1)])
  then consider "(p, n) \<in> small_live st g" | "(p, n) \<in> large_live st" using assms(2) by blast
  then have "p \<noteq> 0 \<and> n \<noteq> 0 \<and> 16 dvd unat p \<and> unat p + unat n < 2 ^ 64 \<and> hm_usable_size p st = Some n"
  proof cases
    case 1
    note f = small_block_facts [OF i(1) 1]
    then show ?thesis by simp
  next
    case 2
    note f = large_live_facts [OF i(1,2) 2]
    then show ?thesis by simp
  qed
  then show "p \<noteq> 0" "n \<noteq> 0" "16 dvd unat p" "unat p + unat n < 2 ^ 64" "hm_usable_size p st = Some n" by blast+
qed

lemma large_live_region:
  assumes "heap_inv K st g hl" "large_ok st" "b \<in> large_live st"
  obtains a h where "b = large_block a h" "get_large a st = Some h" "(a, lh_mmap_size h) \<in> regs K st"
    "region_set b \<subseteq> region_set (a, lh_mmap_size h)" "(a, lh_mmap_size h) \<in> large_regs st"
proof -
  obtain a h where h: "b = large_block a h" "get_large a st = Some h" using assms(3) by (auto simp: large_live_def)
  have "(a, lh_mmap_size h) \<in> large_regs st" using h(2) unfolding large_regs_def by blast
  then show thesis using that [OF h] large_block_facts(2,7) [OF assms(1,2) h(2)] h(1) by simp
qed

text \<open>Two different live blocks never overlap.\<close>

lemma live_disjoint:
  assumes "hm_inv K st L" "b \<in> L" "d \<in> L" "b \<noteq> d"
  shows "region_set b \<inter> region_set d = {}"
proof -
  obtain g hl where i: "heap_inv K st g hl" "large_ok st" "L = small_live st g \<union> large_live st" by (rule hm_invE [OF assms(1)])
  note f = heap_inv_facts [OF i(1)]
  have mixed: "region_set x \<inter> region_set y = {}" if m: "x \<in> small_live st g" "y \<in> large_live st" for x y
  proof -
    obtain a h where "y = large_block a h" "get_large a st = Some h" "(a, lh_mmap_size h) \<in> regs K st" "region_set y \<subseteq> region_set (a, lh_mmap_size h)"
      by (rule large_live_region [OF i(1,2) m(2)])
    then show ?thesis using small_live_regs [OF f(1) m(1)] by blast
  qed
  have large: "region_set x \<inter> region_set y = {}" if l: "x \<in> large_live st" "y \<in> large_live st" "x \<noteq> y" for x y
  proof -
    obtain a h where a: "x = large_block a h" "get_large a st = Some h" "(a, lh_mmap_size h) \<in> regs K st" "region_set x \<subseteq> region_set (a, lh_mmap_size h)"
      by (rule large_live_region [OF i(1,2) l(1)])
    obtain c j where c: "y = large_block c j" "get_large c st = Some j" "(c, lh_mmap_size j) \<in> regs K st" "region_set y \<subseteq> region_set (c, lh_mmap_size j)"
      by (rule large_live_region [OF i(1,2) l(2)])
    have "a \<noteq> c" using a(1,2) c(1,2) l(3) by (metis option.inject)
    then have "(a, lh_mmap_size h) \<noteq> (c, lh_mmap_size j)" by simp
    then have "region_set (a, lh_mmap_size h) \<inter> region_set (c, lh_mmap_size j) = {}"
      using os_holds_disjoint [OF world_regs(1) [OF i(1)]] a(3) c(3) by blast
    then show ?thesis using a(4) c(4) by blast
  qed
  consider "b \<in> small_live st g" "d \<in> small_live st g" | "b \<in> small_live st g" "d \<in> large_live st"
    | "d \<in> small_live st g" "b \<in> large_live st" | "b \<in> large_live st" "d \<in> large_live st"
    using assms(2,3) i(3) by blast
  then show ?thesis
  proof cases
    case 1
    then show ?thesis using small_live_disjoint [OF f(6)] assms(4) by blast
  next
    case 2
    then show ?thesis by (rule mixed)
  next
    case 3
    then show ?thesis using mixed [of d b] by blast
  next
    case 4
    then show ?thesis using large assms(4) by blast
  qed
qed

section \<open>Steps\<close>

lemma hframe_large:
  assumes "hframe X st st'"
  shows "large_live st' = large_live st" "large_ok st' = large_ok st" "large_regs st' = large_regs st"
  using assms by (simp_all add: hframe_def large_live_def large_ok_def large_dom_def large_regs_def)

lemma live_same_on:
  assumes inv: "heap_inv K st g hl" "large_ok st" and m: "same_on (large_regs st \<union> S) m m'"
  shows "same_on (S \<union> large_live st) m m'"
proof -
  have "m' x = m x" if b: "b \<in> large_live st" "x \<in> region_set b" for b x
  proof -
    obtain a h where "b = large_block a h" "get_large a st = Some h" "(a, lh_mmap_size h) \<in> regs K st"
      "region_set b \<subseteq> region_set (a, lh_mmap_size h)" "(a, lh_mmap_size h) \<in> large_regs st"
      by (rule large_live_region [OF inv b(1)])
    then show ?thesis using m b(2) unfolding same_on_def by blast
  qed
  then show ?thesis using m unfolding same_on_def by blast
qed

lemma small_not_large:
  assumes "heap_inv K st g hl" "large_ok st" "b \<in> small_live st g"
  shows "b \<notin> large_live st"
  using small_block_facts(5) [OF assms(1)] large_live_facts(5) [OF assms(1,2)] assms(3)
  by (metis SegmentKind.distinct(1) option.inject prod.collapse)

text \<open>The state \<open>st'\<close> after an allocation of at least \<open>sz\<close> bytes at a multiple of \<open>al\<close> that returned \<open>p\<close>.\<close>

definition alloc_post :: "kernel \<Rightarrow> nat \<Rightarrow> u64 \<Rightarrow> State \<Rightarrow> blocks \<Rightarrow> addr \<Rightarrow> State \<Rightarrow> blocks \<Rightarrow> bool" where
  "alloc_post K al sz st L p st' L' \<longleftrightarrow> hm_inv K st' L' \<and> same_on L (st_mem st) (st_mem st') \<and> registry_step st st' \<and>
     (if p = 0 then L' = L
      else \<exists>n. sz \<le> n \<and> L' = insert (p, n) L \<and> (p, n) \<notin> L \<and> al dvd unat p)"

text \<open>A request for \<open>sz\<close> bytes may be made when the registry has an empty slot left and, if it is
  a small one, a heap is there for the thread or can be made. Without the first a probe loop may
  not end, without the second the code dereferences a null heap; both are the subject of theorems
  of their own.\<close>

definition hm_ready :: "kernel \<Rightarrow> nat \<Rightarrow> State \<Rightarrow> bool" where
  "hm_ready K t st \<longleftrightarrow> fst (heap_get K t st) \<noteq> NullHeap"

definition can_call :: "kernel \<Rightarrow> nat \<Rightarrow> u64 \<Rightarrow> State \<Rightarrow> bool" where
  "can_call K t sz st \<longleftrightarrow> roomy (st_registry st) \<and> (sz \<noteq> 0 \<longrightarrow> sz \<le> SMALL_SIZE_MAX \<longrightarrow> hm_ready K t st)"

lemma heap_malloc_post:
  assumes inv: "hm_inv K st L" and r: "roomy (st_registry st)" "hm_ready K t st" and sz: "sz \<le> SMALL_SIZE_MAX"
    and al: "al dvd unat (class_sizes ! unat (size_class sz))" "al dvd 65536"
  shows "\<exists>p st' L'. heap_malloc K t sz st = Some (p, st') \<and> alloc_post K al sz st L p st' L' \<and>
    (p = 0 \<longrightarrow> seg_refused K (snd (heap_get K t st)))"
proof -
  obtain g hl where i: "heap_inv K st g hl" "large_ok st" "L = small_live st g \<union> large_live st" by (rule hm_invE [OF inv])
  note c = size_class_bound [OF sz]
  obtain b st' g' hl' where 1: "heap_malloc K t sz st = Some (b, st')" "heap_inv K st' g' hl'"
    "hframe (regs K st \<union> small_live st g) st st'" "registry_step st st'" "alloc_result (size_class sz) b (small_live st g) st' g'"
    "b = 0 \<longrightarrow> seg_refused K (snd (heap_get K t st))"
    using heap_malloc_ok [OF i(1) r(1) c] r(2) unfolding hm_ready_def by blast
  note hf = hframe_large [OF 1(3)]
  have lk: "large_ok st'" using hf(2) i(2) by simp
  let ?L = "small_live st' g' \<union> large_live st'"
  have inv': "hm_inv K st' ?L" using 1(2) lk unfolding hm_inv_def by blast
  have "same_on (large_regs st \<union> small_live st g) (st_mem st) (st_mem st')"
    by (rule same_on_subset [of "regs K st \<union> small_live st g"]) (use 1(3) in \<open>auto simp: hframe_def\<close>)
  then have sm: "same_on L (st_mem st) (st_mem st')" using live_same_on [OF i(1,2)] i(3) by simp
  show ?thesis
  proof (cases "b = 0")
    case True
    then have "?L = L" using 1(5) i(3) hf(1) by (simp add: alloc_result_def)
    then show ?thesis using 1 True inv' sm
      by (intro exI [of _ b] exI [of _ st'] exI [of _ ?L]) (simp add: alloc_post_def)
  next
    case False
    let ?n = "ucast (class_sizes ! unat (size_class sz)) :: u64"
    have s: "served (size_class sz) b (small_live st g) st' g'" using 1(5) False by (simp add: alloc_result_def)
    then have sl: "small_live st' g' = insert (b, ?n) (small_live st g)" "(b, ?n) \<notin> small_live st g"
      by (simp_all add: served_def block_of_def)
    obtain q where q: "q \<in> used_pages g'" "(b, ?n) \<in> pblocks st' q" using s by (auto simp: served_def block_of_def)
    have "al dvd unat b" by (rule block_aligned(1) [OF heap_inv_facts(6) [OF 1(2)] q]) (use al in simp_all)
    moreover have "sz \<le> ?n"
      using class_for_less(2) [of "max 1 (unat sz)"] size_class_index(2) [OF sz] sz by (simp add: word_le_nat_alt)
    moreover have "(b, ?n) \<notin> large_live st" using small_not_large [OF 1(2) lk, of "(b, ?n)"] sl(1) hf(1) by simp
    moreover have "?L = insert (b, ?n) L" using sl(1) hf(1) i(3) by simp
    ultimately show ?thesis using 1 False inv' sm sl(2) i(3)
      by (intro exI [of _ b] exI [of _ st'] exI [of _ ?L]) (auto simp: alloc_post_def)
  qed
qed

lemma alloc_large_post:
  assumes inv: "hm_inv K st L" and r: "roomy (st_registry st)" and k: "k \<le> 21" and sz: "sz \<noteq> 0"
  shows "\<exists>p st' L'. alloc_large K sz (2 ^ k) st = Some (p, st') \<and> alloc_post K (2 ^ k) sz st L p st' L' \<and>
    (p = 0 \<longrightarrow> large_refused K sz k st) \<and> (p \<noteq> 0 \<longrightarrow> 16 dvd unat p \<and> (\<forall>n. (p, n) \<in> L' \<longrightarrow> (\<forall>x \<in> region_set (p, n). st_mem st' x = 0)))"
proof -
  obtain g hl where i: "heap_inv K st g hl" "large_ok st" "L = small_live st g \<union> large_live st" by (rule hm_invE [OF inv])
  obtain p st' where 1: "alloc_large K sz (2 ^ k) st = Some (p, st')" "heap_inv K st' g hl" "large_ok st'" "small_live st' g = small_live st g"
    "same_on (regs K st \<union> small_live st g) (st_mem st) (st_mem st')" "registry_step st st'" "large_result sz k p st st'"
    "p = 0 \<longrightarrow> large_refused K sz k st"
    using alloc_large_ok [OF i(1,2) r k sz] unfolding large_post_def by blast
  let ?L = "small_live st' g \<union> large_live st'"
  have inv': "hm_inv K st' ?L" using 1(2,3) unfolding hm_inv_def by blast
  have "same_on (large_regs st \<union> small_live st g) (st_mem st) (st_mem st')" by (rule same_on_subset [OF 1(5)]) auto
  then have sm: "same_on L (st_mem st) (st_mem st')" using live_same_on [OF i(1,2)] i(3) by simp
  show ?thesis
  proof (cases "p = 0")
    case True
    then have "?L = L" using 1(4,7) i(3) by (simp add: large_result_def)
    then show ?thesis using 1 True inv' sm
      by (intro exI [of _ p] exI [of _ st'] exI [of _ ?L]) (simp add: alloc_post_def)
  next
    case False
    then obtain n where n: "sz \<le> n" "(p, n) \<notin> large_live st" "large_live st' = insert (p, n) (large_live st)" "2 ^ k dvd unat p" "16 dvd unat p"
      "\<forall>x \<in> region_set (p, n). st_mem st' x = 0" using 1(7) by (auto simp: large_result_def)
    have pl: "(p, n) \<in> ?L" using n(3) by simp
    have "(p, n) \<notin> small_live st g" using small_not_large [OF 1(2,3), of "(p, n)"] n(3) 1(4) by auto
    moreover have "?L = insert (p, n) L" using n(3) 1(4) i(3) by simp
    moreover have "m = n" if "(p, m) \<in> ?L" for m using live_facts(5) [OF inv' that] live_facts(5) [OF inv' pl] by simp
    then have "\<forall>m. (p, m) \<in> ?L \<longrightarrow> (\<forall>x \<in> region_set (p, m). st_mem st' x = 0)" using n(6) by blast
    ultimately show ?thesis using 1 False inv' sm n i(3)
      by (intro exI [of _ p] exI [of _ st'] exI [of _ ?L]) (auto simp: alloc_post_def)
  qed
qed

section \<open>Writes into a live block\<close>

lemma same_upd_mem: "upd_mem m st = st\<lparr>st_registry := st_registry st, st_os := (st_os st)\<lparr>mem := m\<rparr>\<rparr>"
  by simp

lemma small_write_ok:
  assumes inv: "heap_inv K st g hl" and b: "b \<in> small_live st g" and m: "\<And>x. x \<notin> region_set b \<Longrightarrow> m x = st_mem st x"
  shows "heap_inv K (upd_mem m st) g hl" "small_live (upd_mem m st) g = small_live st g"
proof -
  obtain p where p: "p \<in> used_pages g" "b \<in> pblocks st p" using b by (auto simp: small_live_used)
  obtain x fl tf where x: "get_page p st = Some x" "page_ok (st_mem st) x fl tf" "fst b \<in> page_live x fl tf" "snd b = ucast (pg_block_size x)"
    using p(2) by (auto simp: pblocks_def)
  have g: "page_geometry x" "fst b \<in> page_blocks x" using x(2,3) by (simp_all add: page_ok_def page_live_def)
  obtain k where k: "k < unat (pg_capacity x)" "fst b = block_addr x k" by (rule page_blocks_capacity [OF g])
  have rs: "region_set b = {y. in_region (block_addr x k) (ucast (pg_block_size x)) y}" using k(2) x(4) by (simp add: region_set_def)
  have "m y = st_mem st y" if "\<not> in_region (pg_area x) PAGE_SIZE y" for y
    using block_in_area [OF g(1) k(1), of y] that by (intro m) (auto simp: rs)
  moreover have "m y = st_mem st y" if c: "c \<in> page_blocks x - {fst b}" "in_region c (ucast (pg_block_size x)) y" for c y
  proof -
    obtain j where j: "j < unat (pg_capacity x)" "c = block_addr x j" using page_blocks_capacity [OF g(1), of c] c(1) by blast
    then show ?thesis using block_disjoint [OF g(1) j(1) k(1), of y] c k(2) by (intro m) (auto simp: rs)
  qed
  ultimately have fr: "page_frame x (page_blocks x - {fst b}) (st_mem st) m" by (simp add: page_frame_def)
  have "set fl \<subseteq> page_blocks x - {fst b}" "set tf \<subseteq> page_blocks x - {fst b}"
    using x(2,3) by (auto simp: page_ok_def page_live_def)
  then have ok: "page_ok m x fl tf" by (rule page_ok_frame [OF x(2) fr])
  have st: "page_step p x m st = upd_mem m st" using x(1) by (simp add: page_step_def set_page_def get_page_def fun_upd_idem)
  note h = heap_page_step [OF inv p(1) x(1) refl ok fr, unfolded st]
  have "pblocks st p = (\<lambda>b. (b, ucast (pg_block_size x))) ` page_live x fl tf" by (rule pblocks_eq [OF x(1,2)])
  then have "pblocks (upd_mem m st) p = pblocks st p" using h(4) by simp
  moreover have "pblocks st p \<subseteq> small_live st g" using p(1) by (auto simp: small_live_used)
  ultimately show "heap_inv K (upd_mem m st) g hl" "small_live (upd_mem m st) g = small_live st g" using h(1,3) by auto
qed

lemma large_write_ok:
  assumes inv: "heap_inv K st g hl" "large_ok st" and b: "b \<in> large_live st" and m: "\<And>x. x \<notin> region_set b \<Longrightarrow> m x = st_mem st x"
  shows "heap_inv K (upd_mem m st) g hl" "small_live (upd_mem m st) g = small_live st g"
proof -
  note f = heap_inv_facts [OF inv(1)] and w = world_regs [OF inv(1)]
  let ?S = "seg_regions (set (cg_segs g))" and ?os = "(st_os st)\<lparr>mem := m\<rparr>"
  obtain a h where h: "b = large_block a h" "get_large a st = Some h" "(a, lh_mmap_size h) \<in> regs K st"
    "region_set b \<subseteq> region_set (a, lh_mmap_size h)" "(a, lh_mmap_size h) \<in> large_regs st" by (rule large_live_region [OF inv b])
  have "m x = st_mem st x" if q: "q \<in> ?S" "x \<in> region_set q" for q x
  proof -
    have "q \<noteq> (a, lh_mmap_size h)" using q(1) h(3) w(2) by blast
    then have "region_set q \<inter> region_set (a, lh_mmap_size h) = {}" using os_holds_disjoint [OF w(1)] q(1) h(3) by blast
    then show ?thesis using m q(2) h(4) by blast
  qed
  then have s: "same_on (?S \<union> {}) (st_mem st) (mem ?os)" by (simp add: same_on_def)
  have o: "os_holds K ?os (?S \<union> regs K st \<union> reg_region K (st_registry st))" using w(1) by (simp add: os_holds_mem)
  let ?st = "st\<lparr>st_registry := st_registry st, st_os := ?os\<rparr>"
  note i = heap_os_change [OF f(1,3,7) w(4,5) o w(2,3,6) s]
  have "outer_frame st ?st" by (simp add: outer_frame_def get_large_def)
  then have "heap_inv K ?st g hl" by (intro heap_inv_outer [OF i(1) f(2) i(2)]) (use f i(5) in simp_all)
  then show "heap_inv K (upd_mem m st) g hl" "small_live (upd_mem m st) g = small_live st g" using i(3) by simp_all
qed

text \<open>A client may write anything into a block it holds.\<close>

lemma hm_inv_write:
  assumes inv: "hm_inv K st L" and b: "b \<in> L" and m: "\<And>x. x \<notin> region_set b \<Longrightarrow> m x = st_mem st x"
  shows "hm_inv K (upd_mem m st) L" "same_on (L - {b}) (st_mem st) m"
proof -
  obtain g hl where i: "heap_inv K st g hl" "large_ok st" "L = small_live st g \<union> large_live st" by (rule hm_invE [OF inv])
  have l: "large_ok (upd_mem m st)" "large_live (upd_mem m st) = large_live st"
    using i(2) by (simp_all add: large_ok_def large_dom_def large_live_def get_large_def)
  have "heap_inv K (upd_mem m st) g hl \<and> small_live (upd_mem m st) g = small_live st g"
    using small_write_ok [OF i(1) _ m] large_write_ok [OF i(1,2) _ m] b i(3) by blast
  then show "hm_inv K (upd_mem m st) L" using l i(3) unfolding hm_inv_def by metis
  have "x \<notin> region_set b" if "q \<in> L - {b}" "x \<in> region_set q" for q x using live_disjoint [OF inv _ b, of q] that by blast
  then show "same_on (L - {b}) (st_mem st) m" using m by (simp add: same_on_def)
qed

section \<open>The calls\<close>

text \<open>Why \<open>hm_malloc\<close> returns null: the request is empty, or the kernel refused a segment or a region.\<close>

definition malloc_refused :: "kernel \<Rightarrow> nat \<Rightarrow> u64 \<Rightarrow> State \<Rightarrow> bool" where
  "malloc_refused K t sz st \<longleftrightarrow> sz = 0 \<or>
     (if sz \<le> SMALL_SIZE_MAX then seg_refused K (snd (heap_get K t st)) else large_refused K sz 4 st)"

lemma alloc_post_same: "hm_inv K st L \<Longrightarrow> alloc_post K al sz st L 0 st L"
  by (simp add: alloc_post_def registry_step_def slack_roomy)

lemma class_sizes_16: "unat c < 36 \<Longrightarrow> 16 dvd unat (class_sizes ! unat c)"
  using class_sizes_set [of "class_sizes ! unat c"] by (simp add: length_class_sizes)

lemma hm_malloc_post:
  assumes inv: "hm_inv K st L" and cc: "can_call K t sz st"
  shows "\<exists>p st' L'. hm_malloc K t sz st = Some (p, st') \<and> alloc_post K 16 sz st L p st' L' \<and>
    (p = 0 \<longrightarrow> malloc_refused K t sz st)"
proof -
  have r: "roomy (st_registry st)" using cc by (simp add: can_call_def)
  consider "sz = 0" | "sz \<noteq> 0" "sz \<le> SMALL_SIZE_MAX" | "sz \<noteq> 0" "\<not> sz \<le> SMALL_SIZE_MAX" by blast
  then show ?thesis
  proof cases
    case 1
    then show ?thesis using alloc_post_same [OF inv]
      by (intro exI [of _ 0] exI [of _ st] exI [of _ L]) (simp add: hm_malloc_def malloc_refused_def)
  next
    case 2
    have rdy: "hm_ready K t st" using cc 2 by (simp add: can_call_def)
    have "16 dvd (65536 :: nat)" by simp
    then obtain p st' L' where "heap_malloc K t sz st = Some (p, st')" "alloc_post K 16 sz st L p st' L'"
      "p = 0 \<longrightarrow> seg_refused K (snd (heap_get K t st))"
      using heap_malloc_post [OF inv r rdy 2(2) class_sizes_16 [OF size_class_bound [OF 2(2)]]] by blast
    then show ?thesis using 2 by (intro exI [of _ p] exI [of _ st'] exI [of _ L']) (simp add: hm_malloc_def malloc_refused_def)
  next
    case 3
    have "(4 :: nat) \<le> 21" by simp
    then obtain p st' L' where "alloc_large K sz (2 ^ 4) st = Some (p, st')" "alloc_post K (2 ^ 4) sz st L p st' L'"
      "p = 0 \<longrightarrow> large_refused K sz 4 st" using alloc_large_post [OF inv r _ 3(1), of 4] by blast
    then show ?thesis using 3 by (intro exI [of _ p] exI [of _ st'] exI [of _ L']) (simp add: hm_malloc_def malloc_refused_def)
  qed
qed

lemma hm_free_post:
  assumes inv: "hm_inv K st L" and r: "roomy (st_registry st)" and b: "(p, n) \<in> L"
  shows "\<exists>st'. hm_free K t p st = Some st' \<and> hm_inv K st' (L - {(p, n)}) \<and>
    same_on (L - {(p, n)}) (st_mem st) (st_mem st') \<and> reg_frame st st' \<and> st_t_heap st' = st_t_heap st"
proof -
  obtain g hl where i: "heap_inv K st g hl" "large_ok st" "L = small_live st g \<union> large_live st" by (rule hm_invE [OF inv])
  then consider "(p, n) \<in> small_live st g" | "(p, n) \<in> large_live st" using b by blast
  then show ?thesis
  proof cases
    case 1
    obtain st' g' hl' where 2: "heap_free K t p st = Some st'" "heap_inv K st' g' hl'" "small_live st' g' = small_live st g - {(p, n)}"
      "hframe (regs K st \<union> (small_live st g - {(p, n)})) st st'" "reg_frame st st'" "outer_frame st st'"
      using heap_free_ok [OF i(1) r 1] by blast
    note hf = hframe_large [OF 2(4)] and f = small_block_facts [OF i(1) 1]
    have "L - {(p, n)} = small_live st' g' \<union> large_live st'" using 2(3) hf(1) i(3) small_not_large [OF i(1,2) 1] by blast
    then have "hm_inv K st' (L - {(p, n)})" using 2(2) hf(2) i(2) unfolding hm_inv_def by blast
    moreover have "same_on (large_regs st \<union> (small_live st g - {(p, n)})) (st_mem st) (st_mem st')"
      by (rule same_on_subset [of "regs K st \<union> (small_live st g - {(p, n)})"]) (use 2(4) in \<open>auto simp: hframe_def\<close>)
    then have "same_on (small_live st g - {(p, n)} \<union> large_live st) (st_mem st) (st_mem st')" by (rule live_same_on [OF i(1,2)])
    then have "same_on (L - {(p, n)}) (st_mem st) (st_mem st')" by (rule same_on_subset) (use i(3) in blast)
    ultimately show ?thesis using 2(1,5,6) f(1,5) by (intro exI [of _ st']) (simp add: hm_free_def outer_frame_def)
  next
    case 2
    obtain a h where h: "get_large a st = Some h" "(p, n) = large_block a h" using 2 by (auto simp: large_live_def)
    have p: "p = a + lh_offset h" using h(2) by (simp add: large_block_def)
    note f = large_live_facts [OF i(1,2) 2]
    obtain st' where 3: "free_large K p st = Some st'" "heap_inv K st' g hl" "large_ok st'" "small_live st' g = small_live st g"
      "large_live st' = large_live st - {(p, n)}" "st_mem st' = st_mem st" "reg_frame st st'" "st_t_heap st' = st_t_heap st"
      using free_large_ok [OF i(1,2) r h(1), folded p h(2)] by blast
    have "(p, n) \<notin> small_live st g" using small_not_large [OF i(1,2)] 2 by blast
    then have "L - {(p, n)} = small_live st' g \<union> large_live st'" using 3(4,5) i(3) by blast
    then have "hm_inv K st' (L - {(p, n)})" using 3(2,3) unfolding hm_inv_def by blast
    then show ?thesis using 3(1,6,7,8) f(1,5) by (intro exI [of _ st']) (simp add: hm_free_def)
  qed
qed

lemma thread_exit_post:
  assumes inv: "hm_inv K st L" and r: "roomy (st_registry st)"
  shows "\<exists>st'. thread_exit K t st = Some st' \<and> hm_inv K st' L \<and> same_on L (st_mem st) (st_mem st') \<and> reg_frame st st' \<and>
    st_t_heap st' = (st_t_heap st)(t := NullHeap)"
proof -
  obtain g hl where i: "heap_inv K st g hl" "large_ok st" "L = small_live st g \<union> large_live st" by (rule hm_invE [OF inv])
  obtain st' g' hl' where 1: "thread_exit K t st = Some st'" "heap_inv K st' g' hl'" "small_live st' g' = small_live st g"
    "hframe (large_regs st \<union> small_live st g) st st'" "reg_frame st st'" "st_t_heap st' = (st_t_heap st)(t := NullHeap)"
    using thread_exit_ok [OF i(1) r] by blast
  note hf = hframe_large [OF 1(4)]
  have "L = small_live st' g' \<union> large_live st'" using i(3) 1(3) hf(1) by simp
  then have "hm_inv K st' L" using 1(2) hf(2) i(2) unfolding hm_inv_def by blast
  moreover have "same_on L (st_mem st) (st_mem st')"
    unfolding i(3) by (rule live_same_on [OF i(1,2)]) (use 1(4) in \<open>simp add: hframe_def\<close>)
  ultimately show ?thesis using 1(1,5,6) by blast
qed

lemma unat_SIZE_MAX: "unat SIZE_MAX = 2 ^ 64 - 1"
  by (simp add: SIZE_MAX_def unsigned_minus_1_eq_mask mask_eq_exp_minus_1)

lemma calloc_total:
  assumes "sz \<noteq> 0" "\<not> SIZE_MAX div sz < nmemb"
  shows "unat (nmemb * sz) = unat nmemb * unat sz"
proof -
  have "unat nmemb \<le> unat (SIZE_MAX div sz)" using assms(2) by (simp add: word_le_nat_alt [symmetric])
  then have "unat nmemb * unat sz \<le> unat SIZE_MAX div unat sz * unat sz" by (simp add: unat_div)
  also have "\<dots> \<le> unat SIZE_MAX" by simp
  finally show ?thesis by (simp add: unat_SIZE_MAX unat_word_ariths)
qed

lemma calloc_overflow:
  assumes "sz \<noteq> 0" "SIZE_MAX div sz < nmemb"
  shows "2 ^ 64 \<le> unat nmemb * unat sz"
proof -
  have s: "0 < unat sz" using assms(1) by (simp add: unat_gt_0)
  have "unat SIZE_MAX div unat sz < unat nmemb" using assms(2) by (simp add: word_less_nat_alt unat_div)
  then have "unat SIZE_MAX < unat nmemb * unat sz" using s by (simp add: div_less_iff_less_mult)
  then show ?thesis by (simp add: unat_SIZE_MAX)
qed

lemma registry_step_write [simp]: "registry_step st (upd_mem m st') = registry_step st st'"
  by (simp add: registry_step_def reg_exact_def)

lemma region_set_le: "k \<le> n \<Longrightarrow> region_set (p, k) \<subseteq> region_set (p, n)"
  by (auto simp: region_set_def in_region_def)

lemma alloc_post_write:
  assumes a: "alloc_post K al sz st L p st' L'" and p: "p \<noteq> 0" and m: "\<And>x. x \<notin> region_set (p, sz) \<Longrightarrow> m x = st_mem st' x"
  shows "alloc_post K al sz st L p (upd_mem m st') L'"
proof -
  obtain n where n: "sz \<le> n" "L' = insert (p, n) L" "(p, n) \<notin> L" "al dvd unat p" using a p by (auto simp: alloc_post_def)
  have i: "hm_inv K st' L'" "same_on L (st_mem st) (st_mem st')" "registry_step st st'" using a by (simp_all add: alloc_post_def)
  have b: "(p, n) \<in> L'" using n(2) by simp
  have m': "m x = st_mem st' x" if "x \<notin> region_set (p, n)" for x using m region_set_le [OF n(1)] that by blast
  note w = hm_inv_write [OF i(1) b m']
  have "L' - {(p, n)} = L" using n(2,3) by blast
  then have "same_on L (st_mem st) m" using same_on_trans [OF i(2)] w(2) by simp
  then show ?thesis using w(1) i(3) n p by (auto simp: alloc_post_def)
qed

lemma hm_calloc_post:
  assumes inv: "hm_inv K st L" and cc: "can_call K t (nmemb * sz) st" and nz: "nmemb \<noteq> 0" "sz \<noteq> 0" "unat nmemb * unat sz < 2 ^ 64"
  shows "\<exists>p st' L'. hm_calloc K t nmemb sz st = Some (p, st') \<and> alloc_post K 16 (nmemb * sz) st L p st' L' \<and>
    (p = 0 \<longrightarrow> malloc_refused K t (nmemb * sz) st) \<and> (p \<noteq> 0 \<longrightarrow> (\<forall>x \<in> region_set (p, nmemb * sz). st_mem st' x = 0))"
proof -
  let ?n = "nmemb * sz"
  have no: "\<not> SIZE_MAX div sz < nmemb" using calloc_overflow [OF nz(2), of nmemb] nz(3) by linarith
  have "0 < unat nmemb * unat sz" using nz by (simp add: unat_gt_0)
  then have n0: "?n \<noteq> 0" using calloc_total [OF nz(2) no] by auto
  show ?thesis
  proof (cases "?n \<le> SMALL_SIZE_MAX")
    case True
    obtain p st' L' where 1: "heap_malloc K t ?n st = Some (p, st')" "alloc_post K 16 ?n st L p st' L'"
      "p = 0 \<longrightarrow> malloc_refused K t ?n st"
      using hm_malloc_post [OF inv cc] n0 True by (auto simp: hm_malloc_def)
    let ?st = "if p \<noteq> 0 then upd_mem (memset_zero p ?n (st_mem st')) st' else st'"
    have c: "hm_calloc K t nmemb sz st = Some (p, ?st)" using nz no True 1(1) by (simp add: hm_calloc_def Let_def)
    show ?thesis
    proof (cases "p = 0")
      case True
      then show ?thesis using c 1(2,3) by (intro exI [of _ p] exI [of _ ?st] exI [of _ L']) simp
    next
      case False
      have "alloc_post K 16 ?n st L p ?st L'"
        using alloc_post_write [OF 1(2) False, of "memset_zero p ?n (st_mem st')"] False
        by (simp add: memset_zero_def region_set_def)
      moreover have "\<forall>x \<in> region_set (p, ?n). st_mem ?st x = 0" using False by (simp add: memset_zero_def region_set_def)
      ultimately show ?thesis using c False by (intro exI [of _ p] exI [of _ ?st] exI [of _ L']) simp
    qed
  next
    case False
    have "(4 :: nat) \<le> 21" by simp
    then obtain p st' L' where 1: "alloc_large K ?n (2 ^ 4) st = Some (p, st')" "alloc_post K (2 ^ 4) ?n st L p st' L'"
      "p = 0 \<longrightarrow> large_refused K ?n 4 st" "p \<noteq> 0 \<longrightarrow> (\<forall>n. (p, n) \<in> L' \<longrightarrow> (\<forall>x \<in> region_set (p, n). st_mem st' x = 0))"
      using alloc_large_post [OF inv _ _ n0, of 4] cc unfolding can_call_def by blast
    have "\<forall>x \<in> region_set (p, ?n). st_mem st' x = 0" if p: "p \<noteq> 0"
    proof -
      obtain n where "?n \<le> n" "(p, n) \<in> L'" using 1(2) p by (auto simp: alloc_post_def)
      then show ?thesis using 1(4) p region_set_le [of ?n n p] by blast
    qed
    then show ?thesis using 1 nz no False
      by (intro exI [of _ p] exI [of _ st'] exI [of _ L']) (simp add: hm_calloc_def Let_def malloc_refused_def)
  qed
qed

section \<open>Holding blocks\<close>

text \<open>What a client of the API relies on, apart from where blocks come from: it may write into a
  block it holds, and hand any block back from any thread. Moving a block and handing back all
  of them are consequences.\<close>

locale block_holder =
  fixes inv :: "'s \<Rightarrow> blocks \<Rightarrow> bool" and bytes :: "'s \<Rightarrow> memory" and set_bytes :: "memory \<Rightarrow> 's \<Rightarrow> 's"
    and room :: "'s \<Rightarrow> bool" and release :: "nat \<Rightarrow> addr \<Rightarrow> 's \<Rightarrow> 's option"
  assumes bytes_set: "bytes (set_bytes m s) = m"
    and room_set: "room (set_bytes m s) = room s"
    and hold_one: "inv s L \<Longrightarrow> (p, n) \<in> L \<Longrightarrow> (p, k) \<in> L \<Longrightarrow> k = n"
    and write_ok: "inv s L \<Longrightarrow> b \<in> L \<Longrightarrow> (\<And>x. x \<notin> region_set b \<Longrightarrow> m x = bytes s x) \<Longrightarrow>
      inv (set_bytes m s) L \<and> same_on (L - {b}) (bytes s) m"
    and release_ok: "inv s L \<Longrightarrow> room s \<Longrightarrow> (p, n) \<in> L \<Longrightarrow>
      \<exists>s'. release t p s = Some s' \<and> inv s' (L - {(p, n)}) \<and> same_on (L - {(p, n)}) (bytes s) (bytes s') \<and> room s'"
begin

text \<open>The first \<open>k\<close> bytes of one block are copied to another, and the first block is handed back.\<close>

lemma move_block:
  assumes i: "inv s L" and r: "room s" and b: "(p, n) \<in> L" "(q, m) \<in> L" "(q, m) \<noteq> (p, n)" and k: "k \<le> n" "k \<le> m"
  shows "\<exists>s'. release t p (set_bytes (memcpy q p k (bytes s)) s) = Some s' \<and> inv s' (L - {(p, n)}) \<and>
    same_on (L - {(p, n), (q, m)}) (bytes s) (bytes s') \<and> (\<forall>j < k. bytes s' (q + j) = bytes s (p + j))"
proof -
  let ?m = "memcpy q p k (bytes s)"
  have "?m x = bytes s x" if "x \<notin> region_set (q, m)" for x
    using that k(2) by (auto simp: memcpy_def region_set_def in_region_def)
  then have w: "inv (set_bytes ?m s) L" "same_on (L - {(q, m)}) (bytes s) ?m" using write_ok [OF i b(2)] by blast+
  obtain s' where 1: "release t p (set_bytes ?m s) = Some s'" "inv s' (L - {(p, n)})" "same_on (L - {(p, n)}) ?m (bytes s')"
    using release_ok [OF w(1) _ b(1), of t] r unfolding room_set bytes_set by blast
  have "bytes s' (q + j) = bytes s (p + j)" if j: "j < k" for j
  proof -
    have "q + j \<in> region_set (q, m)" using j k(2) by (simp add: region_set_def in_region_def)
    then have "bytes s' (q + j) = ?m (q + j)" using 1(3) b(2,3) unfolding same_on_def by blast
    then show ?thesis using j by (simp add: memcpy_def in_region_def)
  qed
  moreover have "same_on (L - {(p, n), (q, m)}) (bytes s) (bytes s')"
    by (rule same_on_trans [of _ _ ?m]; (rule same_on_subset [OF w(2)] | rule same_on_subset [OF 1(3)]), blast)
  ultimately show ?thesis using 1(1,2) by blast
qed

text \<open>All blocks can be handed back, in any order and by any threads.\<close>

lemma release_all:
  assumes "inv s L" "room s" "distinct (map snd ops)" "set (map snd ops) = fst ` L"
  shows "\<exists>s'. run_ops (\<lambda>(t, p). release t p) ops s = Some s' \<and> inv s' {} \<and> room s'"
  using assms
proof (induction ops arbitrary: s L)
  case Nil
  then show ?case by simp
next
  case (Cons tp ops)
  obtain t p where tp: "tp = (t, p)" by (cases tp)
  then have "p \<in> fst ` L" using Cons.prems(4) by auto
  then obtain n where n: "(p, n) \<in> L" by force
  obtain s' where 1: "release t p s = Some s'" "inv s' (L - {(p, n)})" "room s'" using release_ok [OF Cons.prems(1,2) n, of t] by blast
  have "fst ` (L - {(p, n)}) = fst ` L - {p}" using hold_one [OF Cons.prems(1) n] by force
  then have "set (map snd ops) = fst ` (L - {(p, n)})" using Cons.prems(3,4) tp by auto
  then show ?case using Cons.IH [OF 1(2,3)] Cons.prems(3) 1(1) tp by simp
qed

end

interpretation hm: block_holder "hm_inv K" st_mem upd_mem "\<lambda>st. roomy (st_registry st)" "hm_free K" for K
proof (unfold_locales, goal_cases)
  case (3 s L p n k)
  then show ?case using live_facts(5) [OF 3(1,2)] live_facts(5) [OF 3(1,3)] by simp
next
  case (4 s L b m)
  then show ?case using hm_inv_write [OF 4(1,2)] by simp
next
  case (5 s L p n t)
  then show ?case using hm_free_post [OF 5, of t] unfolding reg_frame_def by blast
qed simp_all

text \<open>What \<open>hm_realloc\<close> of the live block \<open>(p, n)\<close> to \<open>sz\<close> bytes promises when it returned \<open>q\<close>.\<close>

definition realloc_post :: "kernel \<Rightarrow> addr \<Rightarrow> u64 \<Rightarrow> u64 \<Rightarrow> State \<Rightarrow> blocks \<Rightarrow> addr \<Rightarrow> State \<Rightarrow> blocks \<Rightarrow> bool" where
  "realloc_post K p n sz st L q st' L' \<longleftrightarrow> hm_inv K st' L' \<and> same_on (L - {(p, n)}) (st_mem st) (st_mem st') \<and>
     (if q = 0 then (if sz = 0 then L' = L - {(p, n)} else L' = L \<and> same_on L (st_mem st) (st_mem st'))
      else \<exists>m. sz \<le> m \<and> (q, m) \<notin> L - {(p, n)} \<and> L' = insert (q, m) (L - {(p, n)}) \<and> 16 dvd unat q \<and>
        (\<forall>i. i < sz \<longrightarrow> i < n \<longrightarrow> st_mem st' (q + i) = st_mem st (p + i)))"

lemma realloc_move:
  assumes inv: "hm_inv K st L" and b: "(p, n) \<in> L" and a: "alloc_post K 16 sz st L q st1 L1" and q: "q \<noteq> 0" and r: "roomy (st_registry st1)"
    and k: "k = (if sz < n then sz else n)"
  shows "\<exists>st' L'. hm_free K t p (upd_mem (memcpy q p k (st_mem st1)) st1) = Some st' \<and> realloc_post K p n sz st L q st' L'"
proof -
  obtain m where m: "sz \<le> m" "L1 = insert (q, m) L" "(q, m) \<notin> L" "16 dvd unat q" using a q by (auto simp: alloc_post_def)
  have kk: "k \<le> n" "k \<le> m" using k m(1) by auto
  have i1: "hm_inv K st1 L1" "same_on L (st_mem st) (st_mem st1)" using a by (simp_all add: alloc_post_def)
  have b1: "(p, n) \<in> L1" "(q, m) \<in> L1" "(q, m) \<noteq> (p, n)" using b m(2,3) by auto
  obtain st' where 3: "hm_free K t p (upd_mem (memcpy q p k (st_mem st1)) st1) = Some st'" "hm_inv K st' (L1 - {(p, n)})"
    "same_on (L1 - {(p, n), (q, m)}) (st_mem st1) (st_mem st')" "\<forall>j < k. st_mem st' (q + j) = st_mem st1 (p + j)"
    using hm.move_block [OF i1(1) r b1 kk, of t] by blast
  have L1: "L1 - {(p, n)} = insert (q, m) (L - {(p, n)})" "L1 - {(p, n), (q, m)} = L - {(p, n)}" using m(2,3) b1(3) by blast+
  have s: "same_on (L - {(p, n)}) (st_mem st) (st_mem st')" using 3(3) i1(2) unfolding L1(2) same_on_def by auto
  have cp: "st_mem st' (q + i) = st_mem st (p + i)" if i: "i < sz" "i < n" for i
  proof -
    have "i < k" using i k by simp
    moreover have "p + i \<in> region_set (p, n)" using i(2) by (simp add: region_set_def in_region_def)
    ultimately show ?thesis using 3(4) i1(2) b unfolding same_on_def by simp
  qed
  have "realloc_post K p n sz st L q st' (L1 - {(p, n)})" using 3(2) s cp m q unfolding L1 realloc_post_def by auto
  then show ?thesis using 3(1) by blast
qed

lemma hm_realloc_post:
  assumes inv: "hm_inv K st L" and r: "slack (st_registry st)" "can_call K t sz st" and b: "(p, n) \<in> L"
  shows "\<exists>q st' L'. hm_realloc K t p sz st = Some (q, st') \<and> realloc_post K p n sz st L q st' L' \<and>
    (q = 0 \<longrightarrow> malloc_refused K t sz st)"
proof -
  note f = live_facts [OF inv b] and rm = slack_roomy [OF r(1)]
  consider "sz = 0" | "sz \<noteq> 0" "sz \<le> n \<and> (n \<le> SMALL_SIZE_MAX \<or> sz > n div 2)" | "sz \<noteq> 0" "\<not> (sz \<le> n \<and> (n \<le> SMALL_SIZE_MAX \<or> sz > n div 2))" by blast
  then show ?thesis
  proof cases
    case 1
    obtain st' where "hm_free K t p st = Some st'" "hm_inv K st' (L - {(p, n)})" "same_on (L - {(p, n)}) (st_mem st) (st_mem st')"
      using hm_free_post [OF inv rm b, of t] by blast
    then show ?thesis using 1 f(1)
      by (intro exI [of _ 0] exI [of _ st'] exI [of _ "L - {(p, n)}"]) (simp add: hm_realloc_def realloc_post_def malloc_refused_def)
  next
    case 2
    have "insert (p, n) (L - {(p, n)}) = L" using b by blast
    then have "realloc_post K p n sz st L p st L" using inv f(1,3) 2 by (auto simp: realloc_post_def)
    moreover have "hm_realloc K t p sz st = Some (p, st)" using f(1,5) 2 by (simp add: hm_realloc_def)
    ultimately show ?thesis using f(1) by (intro exI [of _ p] exI [of _ st] exI [of _ L]) simp
  next
    case 3
    obtain q st1 L1 where 1: "hm_malloc K t sz st = Some (q, st1)" "alloc_post K 16 sz st L q st1 L1" "q = 0 \<longrightarrow> malloc_refused K t sz st"
      using hm_malloc_post [OF inv r(2)] by blast
    show ?thesis
    proof (cases "q = 0")
      case True
      then have "L1 = L" using 1(2) by (simp add: alloc_post_def)
      then have "realloc_post K p n sz st L 0 st1 L"
        using 1(2) 3(1) by (auto simp: alloc_post_def realloc_post_def same_on_def)
      moreover have "hm_realloc K t p sz st = Some (0, st1)" using f(1,5) 1(1) 3 True by (simp add: hm_realloc_def)
      ultimately show ?thesis using 1(3) True by (intro exI [of _ 0] exI [of _ st1] exI [of _ L]) simp
    next
      case False
      let ?k = "if sz < n then sz else n"
      have "roomy (st_registry st1)" using 1(2) r(1) by (simp add: alloc_post_def registry_step_def)
      then obtain st' L' where 2: "hm_free K t p (upd_mem (memcpy q p ?k (st_mem st1)) st1) = Some st'" "realloc_post K p n sz st L q st' L'"
        using realloc_move [OF inv b 1(2) False _ refl] by blast
      have "hm_realloc K t p sz st = Some (q, st')" using f(1,5) 1(1) 3 False 2(1) by (auto simp: hm_realloc_def Let_def)
      then show ?thesis using 2(2) False by (intro exI [of _ q] exI [of _ st'] exI [of _ L']) simp
    qed
  qed
qed

lemma aligned_class_spec:
  assumes "unat c \<le> 36" "alignment \<noteq> 0"
  shows "\<exists>d. aligned_class alignment c = Some d \<and> unat c \<le> unat d \<and> unat d \<le> 36 \<and>
    (unat d < 36 \<longrightarrow> unat alignment dvd unat (class_sizes ! unat d)) \<and>
    (\<forall>e. unat c \<le> e \<and> e < unat d \<longrightarrow> \<not> unat alignment dvd unat (class_sizes ! e))"
  using assms
proof (induction alignment c rule: aligned_class.induct)
  case (1 alignment c)
  show ?case
  proof (cases "c < num_size_classes")
    case False
    then have "unat c = 36" using 1(2) by (simp add: word_less_nat_alt)
    then show ?thesis using False by (subst aligned_class.simps) (auto simp: word_less_nat_alt)
  next
    case True
    then have c: "unat c < 36" by (simp add: word_less_nat_alt)
    then have s: "class_to_size c = Some (class_sizes ! unat c)" by (rule class_to_size_eq)
    have dvd: "(ucast (class_sizes ! unat c) :: u64) mod alignment = 0 \<longleftrightarrow> unat alignment dvd unat (class_sizes ! unat c)"
      by (simp add: unat_eq_zero [symmetric] unat_mod unat_class_size dvd_eq_mod_eq_0 del: unat_eq_zero)
    show ?thesis
    proof (cases "unat alignment dvd unat (class_sizes ! unat c)")
      case t: True
      then show ?thesis using True s dvd c by (subst aligned_class.simps) (auto simp: word_less_nat_alt)
    next
      case f: False
      have c1: "unat (c + 1) = unat c + 1" using c by (subst unat_word_ariths) simp
      obtain d where d: "aligned_class alignment (c + 1) = Some d" "unat c + 1 \<le> unat d" "unat d \<le> 36"
        "unat d < 36 \<longrightarrow> unat alignment dvd unat (class_sizes ! unat d)"
        "\<forall>e. unat c + 1 \<le> e \<and> e < unat d \<longrightarrow> \<not> unat alignment dvd unat (class_sizes ! e)"
        using 1(1) [OF True s] dvd f 1(3) c unfolding c1 by auto
      have "\<not> unat alignment dvd unat (class_sizes ! e)" if "unat c \<le> e" "e < unat d" for e
        using d(5) f that by (cases "e = unat c") auto
      then show ?thesis using True s dvd f d by (subst aligned_class.simps) auto
    qed
  qed
qed

lemma class_for_size_le:
  fixes d :: u32
  assumes "need \<le> SMALL_SIZE_MAX" "unat (size_class need) \<le> unat d" "unat d < 36"
  shows "need \<le> ucast (class_sizes ! unat d)"
proof -
  have "unat need \<le> unat (class_sizes ! unat (size_class need))"
    using class_for_less(2) [of "max 1 (unat need)"] size_class_index(2) [OF assms(1)] assms(1) by (simp add: word_le_nat_alt)
  also have "\<dots> \<le> unat (class_sizes ! unat d)"
    using class_sizes_mono [of "unat (size_class need)" "unat d"] assms(2,3)
    by (cases "unat (size_class need) < unat d") (simp_all add: less_imp_le)
  finally show ?thesis by (simp add: word_le_nat_alt unat_class_size)
qed

lemma alloc_post_weaken:
  "alloc_post K al sz st L p st' L' \<Longrightarrow> al' dvd al \<Longrightarrow> sz' \<le> sz \<Longrightarrow> alloc_post K al' sz' st L p st' L'"
  unfolding alloc_post_def by (meson dvd_trans order_trans)

lemma aligned_small_post:
  fixes d :: u32
  assumes inv: "hm_inv K st L" and r: "roomy (st_registry st)" "hm_ready K t st" and k: "k \<le> 14"
    and d: "unat d < 36" "2 ^ k dvd unat (class_sizes ! unat d)" and sz: "sz \<le> ucast (class_sizes ! unat d)"
  shows "\<exists>p st' L'. heap_malloc K t (ucast (class_sizes ! unat d)) st = Some (p, st') \<and> alloc_post K (2 ^ k) sz st L p st' L' \<and>
    (p = 0 \<longrightarrow> seg_refused K (snd (heap_get K t st)))"
proof -
  let ?n = "ucast (class_sizes ! unat d) :: u64"
  have "unat (class_sizes ! unat d) \<le> 16384" using class_sizes_nth [OF d(1)] by simp
  then have n: "?n \<le> SMALL_SIZE_MAX" by (simp add: word_le_nat_alt unat_class_size)
  have sc: "size_class ?n = d" by (rule size_class_of_class [OF d(1)])
  have "2 ^ k dvd (2 :: nat) ^ 16" using k by (intro le_imp_power_dvd) simp
  then have "2 ^ k dvd (65536 :: nat)" by simp
  then show ?thesis using heap_malloc_post [OF inv r n] d(2) alloc_post_weaken [OF _ dvd_refl sz] unfolding sc by blast
qed

lemma aligned_large_post:
  assumes inv: "hm_inv K st L" and r: "roomy (st_registry st)" and sz: "sz \<noteq> 0" and k: "k < 64" "\<not> (2 :: u64) ^ k \<le> ALLOC_ALIGN"
  shows "\<exists>p st' L'. (if (2 :: u64) ^ k > SEGMENT_SIZE div 2 then Some (0, st) else alloc_large K sz (2 ^ k) st) = Some (p, st') \<and>
    alloc_post K (2 ^ k) sz st L p st' L' \<and> (p = 0 \<longrightarrow> k > 21 \<or> large_refused K sz (max 4 k) st)"
proof -
  have u: "unat ((2 :: u64) ^ k) = 2 ^ k" by (rule unat_exp_u64 [OF k(1)])
  show ?thesis
  proof (cases "k \<le> 21")
    case True
    have "\<not> (2 :: nat) ^ k \<le> 2 ^ 4" using k(2) u by (simp add: word_le_nat_alt)
    then have k4: "max 4 k = k" using power_increasing [of k 4 "2 :: nat"] by (cases "k \<le> 4") simp_all
    have "(2 :: nat) ^ k \<le> 2 ^ 21" using True by (rule power_increasing) simp
    then have "\<not> (2 :: u64) ^ k > SEGMENT_SIZE div 2" using u by (simp add: word_less_nat_alt unat_div)
    then show ?thesis using alloc_large_post [OF inv r True sz] unfolding k4 by auto
  next
    case False
    then have "(2 :: nat) ^ 22 \<le> 2 ^ k" by (intro power_increasing) simp_all
    then have "(2 :: u64) ^ k > SEGMENT_SIZE div 2" using u by (simp add: word_less_nat_alt unat_div)
    then show ?thesis using alloc_post_same [OF inv] False by (intro exI [of _ 0] exI [of _ st] exI [of _ L]) simp
  qed
qed

lemma hm_aligned_alloc_post:
  assumes inv: "hm_inv K st L" and cc: "can_call K t sz st" and sz: "sz \<noteq> 0" and k: "k < 64"
  shows "\<exists>p st' L'. hm_aligned_alloc K t (2 ^ k) sz st = Some (p, st') \<and> alloc_post K (2 ^ k) sz st L p st' L' \<and>
    (p = 0 \<longrightarrow> k > 21 \<or> seg_refused K (snd (heap_get K t st)) \<or> large_refused K sz (max 4 k) st)"
proof -
  have r: "roomy (st_registry st)" using cc by (simp add: can_call_def)
  have al: "(2 :: u64) ^ k \<noteq> 0" "(2 :: u64) ^ k AND (2 ^ k - 1) = 0" using k is_pow2_iff [of "2 ^ k"] by (auto simp: is_pow2_def)
  have u: "unat ((2 :: u64) ^ k) = 2 ^ k" by (rule unat_exp_u64 [OF k])
  let ?large = "if (2 :: u64) ^ k > SEGMENT_SIZE div 2 then Some (0, st) else alloc_large K sz (2 ^ k) st"
  note large = aligned_large_post [OF inv r sz k]
  let ?need = "if sz > 2 ^ k then sz else 2 ^ k"
  consider "(2 :: u64) ^ k \<le> ALLOC_ALIGN" | "\<not> (2 :: u64) ^ k \<le> ALLOC_ALIGN" "?need \<le> SMALL_SIZE_MAX" | "\<not> (2 :: u64) ^ k \<le> ALLOC_ALIGN" "\<not> ?need \<le> SMALL_SIZE_MAX" by blast
  then show ?thesis
  proof cases
    case 1
    then have "(2 :: nat) ^ k \<le> 2 ^ 4" using u by (simp add: word_le_nat_alt)
    then have "2 ^ k dvd (2 :: nat) ^ 4" by (rule pow2_dvd)
    then have "2 ^ k dvd (16 :: nat)" by simp
    moreover obtain p st' L' where 2: "hm_malloc K t sz st = Some (p, st')" "alloc_post K 16 sz st L p st' L'" "p = 0 \<longrightarrow> malloc_refused K t sz st"
      using hm_malloc_post [OF inv cc] by blast
    ultimately have "alloc_post K (2 ^ k) sz st L p st' L'" using alloc_post_weaken by blast
    moreover have "hm_aligned_alloc K t (2 ^ k) sz st = Some (p, st')" using 2(1) al sz 1 by (simp add: hm_aligned_alloc_def Let_def)
    moreover have "max 4 k = 4" using power_le_imp_le_exp [of "2 :: nat" k 4] \<open>(2 :: nat) ^ k \<le> 2 ^ 4\<close> by simp
    ultimately show ?thesis using 2(3) sz by (intro exI [of _ p] exI [of _ st'] exI [of _ L']) (auto simp: malloc_refused_def split: if_splits)
  next
    case 2
    have "sz \<le> ?need" by auto
    then have "sz \<le> SMALL_SIZE_MAX" using 2(2) by (rule order_trans)
    then have rdy: "hm_ready K t st" using cc sz by (simp add: can_call_def)
    have "(2 :: u64) ^ k \<le> 16384" using 2(2) by (auto split: if_splits)
    then have "(2 :: nat) ^ k \<le> 2 ^ 14" using u by (simp add: word_le_nat_alt)
    then have k14: "k \<le> 14" by (rule power_le_imp_le_exp [rotated]) simp
    obtain d where d: "aligned_class (2 ^ k) (size_class ?need) = Some d" "unat (size_class ?need) \<le> unat d" "unat d \<le> 36"
      "unat d < 36 \<longrightarrow> 2 ^ k dvd unat (class_sizes ! unat d)"
      using aligned_class_spec [of "size_class ?need", OF _ al(1)] size_class_bound [OF 2(2)] u by auto
    show ?thesis
    proof (cases "unat d < 36")
      case True
      have "sz \<le> ?need" by auto
      also have "\<dots> \<le> ucast (class_sizes ! unat d)" by (rule class_for_size_le [OF 2(2) d(2) True])
      finally have le: "sz \<le> ucast (class_sizes ! unat d)" .
      have e: "hm_aligned_alloc K t (2 ^ k) sz st = heap_malloc K t (ucast (class_sizes ! unat d)) st"
        using True d(1) al sz 2 by (simp add: hm_aligned_alloc_def Let_def class_to_size_eq word_less_nat_alt del: if_split)
      show ?thesis unfolding e using aligned_small_post [OF inv r rdy k14 True mp [OF d(4) True] le] by blast
    next
      case False
      then have "hm_aligned_alloc K t (2 ^ k) sz st = ?large"
        using d(1) al sz 2 by (simp add: hm_aligned_alloc_def Let_def word_less_nat_alt del: if_split)
      then show ?thesis using large [OF 2(1)] by auto
    qed
  next
    case 3
    then have "hm_aligned_alloc K t (2 ^ k) sz st = ?large" using al sz by (simp add: hm_aligned_alloc_def Let_def del: if_split)
    then show ?thesis using large [OF 3(1)] by auto
  qed
qed

section \<open>Live blocks are mapped memory\<close>

lemma small_in_segment:
  assumes b: "base_inv K R st g L" and d: "d \<in> small_live st g" and x: "x \<in> region_set d"
  shows "\<exists>s \<in> set (cg_segs g). x \<in> region_set (s, SEGMENT_SIZE)"
proof -
  note f = base_inv_facts [OF b]
  obtain p where p: "p \<in> used_pages g" "d \<in> pblocks st p" using d by (auto simp: small_live_used)
  obtain y where y: "get_page p st = Some y" using p(2) by (auto simp: pblocks_def)
  have e: "p \<in> pooled g \<union> set (cg_aband g) \<union> cg_out g \<union> L" using p(1) by (auto simp: used_pages_def)
  obtain s i where 1: "s \<in> set (cg_segs g)" "i \<in> {1..<64}" "pg_area y = s + of_nat i * PAGE_SIZE"
    by (rule page_core [OF f(1) e]) (use y in simp)
  have "segment_aligned s" using f(1) 1(1) by (simp add: central_core_def seg_inv_def)
  then have "x \<in> region_set (s, SEGMENT_SIZE)" using area_recover(3) [of s i x] 1 pblocks_area [OF y p(2) x] by simp
  then show ?thesis using 1(1) by blast
qed

lemma live_mapped:
  assumes inv: "hm_inv K st L" and b: "b \<in> L" and x: "x \<in> region_set b"
  shows "mapped (st_os st) x"
proof -
  obtain g hl where i: "heap_inv K st g hl" "large_ok st" "L = small_live st g \<union> large_live st" by (rule hm_invE [OF inv])
  note f = heap_inv_facts [OF i(1)] and w = world_regs [OF i(1)]
  consider "b \<in> small_live st g" | "b \<in> large_live st" using b i(3) by blast
  then obtain a n where "(a, n) \<in> seg_regions (set (cg_segs g)) \<union> regs K st \<union> reg_region K (st_registry st)" "x \<in> region_set (a, n)"
  proof cases
    case 1
    then obtain s where "s \<in> set (cg_segs g)" "x \<in> region_set (s, SEGMENT_SIZE)" using small_in_segment [OF f(1) _ x] by blast
    then show thesis using that [of s SEGMENT_SIZE] by (simp add: seg_regions_def)
  next
    case 2
    obtain a h where "b = large_block a h" "get_large a st = Some h" "(a, lh_mmap_size h) \<in> regs K st"
      "region_set b \<subseteq> region_set (a, lh_mmap_size h)" "(a, lh_mmap_size h) \<in> large_regs st" by (rule large_live_region [OF i(1,2) 2])
    then show thesis using that [of a "lh_mmap_size h"] x by blast
  qed
  then show ?thesis using os_holds_region(4) [OF w(1)] by blast
qed

end
