(* ===== verification/HM_Runs.thy ===== *)
theory HM_Runs
  imports HM_Correct
begin

text \<open>
  Runs of the allocator: any sequence of API calls by any threads, with client writes into live
  blocks and thread exits between them, from process start. \<open>hm_run K st L\<close> says that some run
  reaches the state \<open>st\<close> with the live blocks \<open>L\<close>; the invariant of the API holds in every such
  state. The calls interleave as whole calls; the steps inside the remote free protocol are in
  theory \<open>Remote_Free\<close>.
\<close>

section \<open>Process start\<close>

definition no_ghost :: cghost where
  "no_ghost = \<lparr>cg_segs = [], cg_avail = [], cg_pool = (\<lambda>_. []), cg_aband = [], cg_out = {}\<rparr>"

lemma hm_inv_init:
  assumes "kernel_ok K" "os_fresh s"
  shows "hm_inv K (init_state s) {}"
proof -
  have "os_holds K s {}"
    using os_run_tracked [OF os_run.start [OF assms(2)] assms(1)] unfolding os_holds_def by auto
  then have "world_ok K {} (init_state s) {}"
    by (simp add: world_ok_def init_state_def seg_regions_def reg_region_def init_registry_def get_seg_def get_large_def reg_inv_def reg_keys_def)
  then have b: "base_inv K {} (init_state s) no_ghost {}"
    by (simp add: base_inv_def central_lists_def central_core_def parts_def avail_list_def central_counts_def no_ghost_def
        init_state_def init_central_def seg_pages_def pooled_def full_segs_def free_pages_def dlist_def)
  have r: "heap_regs K (init_state s) = {}" "large_regs (init_state s) = {}"
    by (simp_all add: heap_regs_def large_regs_def init_state_def get_large_def)
  have "heaps_ok (init_state s) (cg_out no_ghost) (\<lambda>a c. [])" "threads_ok (init_state s)"
    by (simp_all add: heaps_ok_def threads_ok_def init_state_def no_ghost_def get_page_def)
  moreover have "cache_ok no_ghost" "aband_owned (init_state s) no_ghost"
    by (simp_all add: cache_ok_def no_ghost_def full_segs_def aband_owned_def)
  ultimately have "heap_inv K (init_state s) no_ghost (\<lambda>a c. [])" using b r by (simp add: heap_inv_def)
  moreover have "large_ok (init_state s)" "large_live (init_state s) = {}" "small_live (init_state s) no_ghost = {}"
    by (simp_all add: large_ok_def large_dom_def large_live_def get_large_def init_state_def small_live_def aband_blocks_def no_ghost_def)
  ultimately show ?thesis unfolding hm_inv_def by blast
qed

section \<open>Runs\<close>

text \<open>The client's record of a returned block.\<close>

definition usable :: "addr \<Rightarrow> State \<Rightarrow> u64" where
  "usable p st = (case hm_usable_size p st of Some n \<Rightarrow> n | None \<Rightarrow> 0)"

definition with_block :: "addr \<Rightarrow> State \<Rightarrow> blocks \<Rightarrow> blocks" where
  "with_block p st L = (if p = 0 then L else insert (p, usable p st) L)"

inductive hm_run :: "kernel \<Rightarrow> State \<Rightarrow> blocks \<Rightarrow> bool" for K where
  start: "kernel_ok K \<Longrightarrow> os_fresh s \<Longrightarrow> hm_run K (init_state s) {}"
| malloc: "hm_run K st L \<Longrightarrow> can_call K t sz st \<Longrightarrow> hm_malloc K t sz st = Some (p, st') \<Longrightarrow> hm_run K st' (with_block p st' L)"
| calloc: "hm_run K st L \<Longrightarrow> can_call K t (nmemb * sz) st \<Longrightarrow> hm_calloc K t nmemb sz st = Some (p, st') \<Longrightarrow> hm_run K st' (with_block p st' L)"
| aligned: "hm_run K st L \<Longrightarrow> can_call K t sz st \<Longrightarrow> hm_aligned_alloc K t al sz st = Some (p, st') \<Longrightarrow> hm_run K st' (with_block p st' L)"
| realloc: "hm_run K st L \<Longrightarrow> can_call K t sz st \<Longrightarrow> slack (st_registry st) \<Longrightarrow> (p, n) \<in> L \<Longrightarrow> hm_realloc K t p sz st = Some (q, st') \<Longrightarrow>
    hm_run K st' (if q = 0 \<and> sz \<noteq> 0 then L else with_block q st' (L - {(p, n)}))"
| free: "hm_run K st L \<Longrightarrow> roomy (st_registry st) \<Longrightarrow> (p, n) \<in> L \<Longrightarrow> hm_free K t p st = Some st' \<Longrightarrow> hm_run K st' (L - {(p, n)})"
| exit: "hm_run K st L \<Longrightarrow> roomy (st_registry st) \<Longrightarrow> thread_exit K t st = Some st' \<Longrightarrow> hm_run K st' L"
| store: "hm_run K st L \<Longrightarrow> b \<in> L \<Longrightarrow> (\<And>x. x \<notin> region_set b \<Longrightarrow> m x = st_mem st x) \<Longrightarrow> hm_run K (upd_mem m st) L"

lemma alloc_post_block:
  assumes "alloc_post K al sz st L p st' L'"
  shows "L' = with_block p st' L" "hm_inv K st' (with_block p st' L)"
proof -
  have i: "hm_inv K st' L'" using assms by (simp add: alloc_post_def)
  show "L' = with_block p st' L"
  proof (cases "p = 0")
    case False
    then obtain n where n: "L' = insert (p, n) L" using assms by (auto simp: alloc_post_def)
    then have "hm_usable_size p st' = Some n" using live_facts(5) [OF i] by blast
    then show ?thesis using n False by (simp add: with_block_def usable_def)
  qed (use assms in \<open>simp add: alloc_post_def with_block_def\<close>)
  then show "hm_inv K st' (with_block p st' L)" using i by simp
qed

lemma hm_calloc_null:
  assumes "nmemb = 0 \<or> sz = 0 \<or> 2 ^ 64 \<le> unat nmemb * unat sz"
  shows "hm_calloc K t nmemb sz st = Some (0, st)"
proof (cases "nmemb = 0 \<or> sz = 0")
  case False
  then have "SIZE_MAX div sz < nmemb"
    using calloc_total [of sz nmemb] assms unsigned_less [of "nmemb * sz", where ?'a = nat] by (cases "SIZE_MAX div sz < nmemb") simp_all
  then show ?thesis using False by (simp add: hm_calloc_def)
qed (auto simp: hm_calloc_def)

lemma hm_aligned_null:
  "sz = 0 \<or> \<not> (\<exists>k < 64. al = 2 ^ k) \<Longrightarrow> hm_aligned_alloc K t al sz st = Some (0, st)"
  unfolding is_pow2_iff [symmetric] by (auto simp: hm_aligned_alloc_def is_pow2_def Let_def)

lemma calloc_step:
  assumes "hm_inv K st L" "can_call K t (nmemb * sz) st" "hm_calloc K t nmemb sz st = Some (p, st')"
  shows "hm_inv K st' (with_block p st' L)"
proof (cases "nmemb = 0 \<or> sz = 0 \<or> 2 ^ 64 \<le> unat nmemb * unat sz")
  case True
  then show ?thesis using hm_calloc_null [OF True, of K t st] assms(1,3) by (simp add: with_block_def)
next
  case False
  then obtain L' where "alloc_post K 16 (nmemb * sz) st L p st' L'"
    using hm_calloc_post [OF assms(1,2)] assms(3) by auto
  then show ?thesis by (rule alloc_post_block(2))
qed

lemma aligned_step:
  assumes "hm_inv K st L" "can_call K t sz st" "hm_aligned_alloc K t al sz st = Some (p, st')"
  shows "hm_inv K st' (with_block p st' L)"
proof (cases "sz = 0 \<or> \<not> (\<exists>k < 64. al = 2 ^ k)")
  case True
  then show ?thesis using hm_aligned_null [OF True, of K t st] assms(1,3) by (simp add: with_block_def)
next
  case False
  then obtain k where k: "k < 64" "al = 2 ^ k" by blast
  then obtain L' where "alloc_post K (2 ^ k) sz st L p st' L'"
    using hm_aligned_alloc_post [OF assms(1,2), of k] assms(3) False by auto
  then show ?thesis by (rule alloc_post_block(2))
qed

lemma realloc_step:
  assumes "hm_inv K st L" "slack (st_registry st)" "can_call K t sz st" "(p, n) \<in> L" "hm_realloc K t p sz st = Some (q, st')"
  shows "hm_inv K st' (if q = 0 \<and> sz \<noteq> 0 then L else with_block q st' (L - {(p, n)}))"
proof -
  obtain L' where post: "realloc_post K p n sz st L q st' L'"
    using hm_realloc_post [OF assms(1-4)] assms(5) by auto
  then have i: "hm_inv K st' L'" by (simp add: realloc_post_def)
  show ?thesis
  proof (cases "q = 0")
    case True
    then show ?thesis using post i by (auto simp: realloc_post_def with_block_def split: if_splits)
  next
    case False
    then obtain m where m: "L' = insert (q, m) (L - {(p, n)})" using post by (auto simp: realloc_post_def)
    then have "hm_usable_size q st' = Some m" using live_facts(5) [OF i] by blast
    then show ?thesis using m i False by (simp add: with_block_def usable_def)
  qed
qed

lemma hm_run_inv: "hm_run K st L \<Longrightarrow> hm_inv K st L"
proof (induction rule: hm_run.induct)
  case (start s)
  then show ?case by (rule hm_inv_init)
next
  case (malloc st L t sz p st')
  then obtain L' where "alloc_post K 16 sz st L p st' L'"
    using hm_malloc_post [OF malloc.IH malloc(2)] by auto
  then show ?case by (rule alloc_post_block(2))
next
  case (calloc st L t nmemb sz p st')
  then show ?case using calloc_step by blast
next
  case (aligned st L t al sz p st')
  then show ?case using aligned_step by blast
next
  case (realloc st L t p n sz q st')
  then show ?case using realloc_step [OF realloc.IH realloc(3,2,4,5)] by simp
next
  case (free st L p n t st')
  then show ?case using hm_free_post [OF free.IH free(2,3), of t] by simp
next
  case (exit st L t st')
  then show ?case using thread_exit_post [OF exit.IH exit(2), of t] by simp
next
  case (store st L b m)
  then show ?case using hm_inv_write(1) by blast
qed

section \<open>What a call leaves alone, and what it hands out\<close>

definition undisturbed :: "blocks \<Rightarrow> State \<Rightarrow> State \<Rightarrow> bool" where
  "undisturbed L st st' \<longleftrightarrow> (\<forall>(q, n) \<in> L. hm_usable_size q st' = Some n \<and> (\<forall>x \<in> region_set (q, n). st_mem st' x = st_mem st x))"

definition fresh_block :: "nat \<Rightarrow> u64 \<Rightarrow> addr \<Rightarrow> blocks \<Rightarrow> State \<Rightarrow> bool" where
  "fresh_block al sz p L st' \<longleftrightarrow> (\<exists>n. hm_usable_size p st' = Some n \<and> sz \<le> n \<and> al dvd unat p \<and> 16 dvd unat p \<and> unat p + unat n < 2 ^ 64 \<and>
     (\<forall>x \<in> region_set (p, n). mapped (st_os st') x) \<and> (\<forall>b \<in> L. region_set b \<inter> region_set (p, n) = {}))"

lemma undisturbedI:
  assumes "hm_inv K st' L'" "L \<subseteq> L'" "same_on L (st_mem st) (st_mem st')"
  shows "undisturbed L st st'"
  using live_facts(5) [OF assms(1)] assms(2,3) unfolding undisturbed_def same_on_def by fast

lemma fresh_blockI:
  assumes "hm_inv K st' L'" "(p, n) \<in> L'" "sz \<le> n" "al dvd unat p" "L \<subseteq> L' - {(p, n)}"
  shows "fresh_block al sz p L st'"
proof -
  note f = live_facts [OF assms(1,2)]
  have "mapped (st_os st') x" if "x \<in> region_set (p, n)" for x by (rule live_mapped [OF assms(1,2) that])
  moreover have "region_set b \<inter> region_set (p, n) = {}" if "b \<in> L" for b
    using live_disjoint [OF assms(1) _ assms(2), of b] that assms(5) by blast
  ultimately show ?thesis unfolding fresh_block_def using f(3-5) assms(3,4) by (intro exI [of _ n]) simp
qed

lemma alloc_post_client:
  assumes "alloc_post K al sz st L p st' L'"
  shows "undisturbed L st st'" "p \<noteq> 0 \<Longrightarrow> fresh_block al sz p L st'"
proof -
  have i: "hm_inv K st' L'" "same_on L (st_mem st) (st_mem st')" using assms by (simp_all add: alloc_post_def)
  have "L \<subseteq> L'" using assms by (auto simp: alloc_post_def split: if_splits)
  then show "undisturbed L st st'" by (rule undisturbedI [OF i(1) _ i(2)])
  assume "p \<noteq> 0"
  then obtain n where "sz \<le> n" "L' = insert (p, n) L" "(p, n) \<notin> L" "al dvd unat p" using assms by (auto simp: alloc_post_def)
  then show "fresh_block al sz p L st'" by (intro fresh_blockI [OF i(1)]) auto
qed

lemma realloc_post_client:
  assumes "realloc_post K p n sz st L q st' L'"
  shows "undisturbed (L - {(p, n)}) st st'" "q = 0 \<Longrightarrow> sz \<noteq> 0 \<Longrightarrow> undisturbed L st st'"
    "q \<noteq> 0 \<Longrightarrow> fresh_block 16 sz q (L - {(p, n)}) st'"
proof -
  have i: "hm_inv K st' L'" "same_on (L - {(p, n)}) (st_mem st) (st_mem st')" using assms by (simp_all add: realloc_post_def)
  have "L - {(p, n)} \<subseteq> L'" using assms by (auto simp: realloc_post_def split: if_splits)
  then show "undisturbed (L - {(p, n)}) st st'" by (rule undisturbedI [OF i(1) _ i(2)])
  show "undisturbed L st st'" if "q = 0" "sz \<noteq> 0"
    by (rule undisturbedI [OF i(1)]) (use assms that in \<open>simp_all add: realloc_post_def\<close>)
  assume "q \<noteq> 0"
  then obtain m where "sz \<le> m" "(q, m) \<notin> L - {(p, n)}" "L' = insert (q, m) (L - {(p, n)})" "16 dvd unat q"
    using assms by (auto simp: realloc_post_def)
  then show "fresh_block 16 sz q (L - {(p, n)}) st'" by (intro fresh_blockI [OF i(1)]) auto
qed

section \<open>Example runs\<close>

text \<open>A kernel that keeps two places to map at and uses the first that is free.\<close>

definition steady_kernel :: kernel where
  "steady_kernel = sample_kernel\<lparr>k_mmap := \<lambda>i m n.
     find (\<lambda>p. unat n < 2 ^ 40 \<and> (\<forall>x. in_region p n x \<longrightarrow> \<not> m x)) [0x10000001000, 0x20000001000]\<rparr>"

lemma steady_page_size: "cached_page_size steady_kernel = 4096" "k_pagesize steady_kernel = 4096"
  by (simp_all add: cached_page_size_def sample_kernel_def steady_kernel_def)

lemma steady_kernel_ok: "kernel_ok steady_kernel"
proof -
  have "pagesize_ok steady_kernel"
    unfolding pagesize_ok_def by (intro exI [of _ 12]) (simp add: steady_page_size)
  moreover have "mmap_ok steady_kernel"
    unfolding mmap_ok_def steady_page_size by (auto simp: steady_kernel_def split: if_splits)
  ultimately show ?thesis
    by (simp add: kernel_ok_def munmap_ok_def madvise_ok_def) (simp add: sample_kernel_def steady_kernel_def)
qed

lemma steady_start: "hm_run steady_kernel (init_state sample_os) {}"
  by (rule hm_run.start [OF steady_kernel_ok sample_os_fresh])

lemma steady_heap_alloc:
  "os_alloc_aligned steady_kernel (heap_bytes steady_kernel) (os_page_size steady_kernel) sample_os = (a, s) \<Longrightarrow> a = 0x10000001000"
  by (simp add: os_alloc_aligned_def steady_page_size os_page_size_def heap_bytes_def SIZEOF_HEAP_def is_pow2_def raw_mmap_def)
    (simp add: steady_kernel_def sample_os_def Let_def split: prod.splits)

lemma steady_can_call: "can_call steady_kernel 0 n (init_state sample_os)"
proof -
  obtain a s where e: "os_alloc_aligned steady_kernel (heap_bytes steady_kernel) (os_page_size steady_kernel) sample_os = (a, s)" by fastforce
  have "a = 0x10000001000" by (rule steady_heap_alloc [OF e])
  then show ?thesis using e
    by (simp add: can_call_def hm_ready_def heap_get_def heap_create_def init_state_def roomy_def init_registry_def Let_def)
qed

lemma steady_heap_mapped:
  assumes "mapped (st_os (snd (heap_get steady_kernel 0 (init_state sample_os)))) x"
  shows "in_region 0x10000001000 4096 x"
proof -
  obtain a s where e: "os_alloc_aligned steady_kernel (heap_bytes steady_kernel) (os_page_size steady_kernel) sample_os = (a, s)" by fastforce
  have a: "a = 0x10000001000" by (rule steady_heap_alloc [OF e])
  have b: "heap_bytes steady_kernel = 4096" by (simp add: heap_bytes_def os_page_size_def steady_page_size SIZEOF_HEAP_def)
  have "mapped s x" using assms e a by (simp add: heap_get_def heap_create_def init_state_def set_heap_def Let_def)
  then show ?thesis using os_alloc_contract [OF steady_kernel_ok e] a b by (simp add: os_granted_def sample_os_def)
qed

lemma steady_grants:
  assumes "n \<noteq> 0" "4096 dvd unat n" "unat n < 2 ^ 39" "\<And>x. in_region 0x20000001000 (n + SEGMENT_SIZE) x \<Longrightarrow> \<not> mapped s x"
  shows "fst (os_alloc_aligned steady_kernel n SEGMENT_SIZE s) \<noteq> 0"
proof -
  obtain p s' where e: "os_alloc_aligned steady_kernel n SEGMENT_SIZE s = (p, s')" by fastforce
  have u: "unat (n + SEGMENT_SIZE) = unat n + 4194304" using assms(3) by (subst unat_add_nowrap) simp_all
  then have "k_mmap steady_kernel (syscalls s) (mapped s) (n + SEGMENT_SIZE) \<noteq> None"
    using assms(3,4) by (simp add: steady_kernel_def)
  moreover have "is_pow2 SEGMENT_SIZE" by (simp add: is_pow2_def)
  ultimately show ?thesis using os_alloc_null_iff [OF steady_kernel_ok e] assms(1-3) e
    by (simp add: os_valid_request_def steady_page_size)
qed

lemma steady_segment: "\<not> seg_refused steady_kernel (init_state sample_os)"
proof
  assume "seg_refused steady_kernel (init_state sample_os)"
  then obtain os where "\<forall>x. \<not> mapped os x" "fst (os_alloc_aligned steady_kernel SEGMENT_SIZE SEGMENT_SIZE os) = 0"
    by (auto simp: seg_refused_def init_state_def sample_os_def)
  then show False using steady_grants [of SEGMENT_SIZE os] by simp
qed

text \<open>A fresh process can allocate a small block and a large one.\<close>

lemma steady_not_refused:
  "\<not> malloc_refused steady_kernel 0 24 (init_state sample_os)"
  "\<not> malloc_refused steady_kernel 0 100000 (init_state sample_os)"
  "\<not> large_refused steady_kernel 24 6 (init_state sample_os)"
proof -
  have "\<not> seg_refused steady_kernel (snd (heap_get steady_kernel 0 (init_state sample_os)))"
  proof
    assume "seg_refused steady_kernel (snd (heap_get steady_kernel 0 (init_state sample_os)))"
    then obtain os where os: "\<And>x. mapped os x \<Longrightarrow> in_region 0x10000001000 4096 x" "fst (os_alloc_aligned steady_kernel SEGMENT_SIZE SEGMENT_SIZE os) = 0"
      using steady_heap_mapped unfolding seg_refused_def by blast
    have "\<not> mapped os x" if "in_region 0x20000001000 (SEGMENT_SIZE + SEGMENT_SIZE) x" for x
      using os(1) [of x] that by (auto simp: in_region_iff)
    then show False using steady_grants [of SEGMENT_SIZE os] os(2) by simp
  qed
  then show "\<not> malloc_refused steady_kernel 0 24 (init_state sample_os)" by (simp add: malloc_refused_def)
  have "fst (os_alloc_aligned steady_kernel 102400 SEGMENT_SIZE sample_os) \<noteq> 0"
    by (rule steady_grants) (simp_all add: sample_os_def)
  then show "\<not> malloc_refused steady_kernel 0 100000 (init_state sample_os)"
    by (simp add: malloc_refused_def large_refused_def large_offset_def round_up_def os_page_size_def steady_page_size init_state_def)
  have "fst (os_alloc_aligned steady_kernel 4096 SEGMENT_SIZE sample_os) \<noteq> 0"
    by (rule steady_grants) (simp_all add: sample_os_def)
  then show "\<not> large_refused steady_kernel 24 6 (init_state sample_os)"
    by (simp add: large_refused_def large_offset_def round_up_def os_page_size_def steady_page_size init_state_def)
qed

lemma large_first:
  assumes inv: "hm_inv K st L" and n: "rg_slots (st_registry st) = None" and sz: "SMALL_SIZE_MAX < sz"
    and m: "hm_malloc K t sz st = Some (p, st')"
  shows "slack (st_registry st')"
proof -
  obtain g hl where i: "heap_inv K st g hl" by (rule hm_invE [OF inv])
  note w = world_regs [OF i]
  have "\<not> sz \<le> SMALL_SIZE_MAX" "sz \<noteq> 0" using sz by auto
  then have al: "alloc_large K sz ALLOC_ALIGN st = Some (p, st')" using m by (simp add: hm_malloc_def)
  have same: "slack (st_registry st)" using n by (simp add: slack_def)
  let ?t = "LARGE_OFFSET + sz"
  let ?n = "round_up ?t (os_page_size K)"
  obtain a os where e: "os_alloc_aligned K ?n SEGMENT_SIZE (st_os st) = (a, os)" by fastforce
  show ?thesis
  proof (cases "?t < sz \<or> ?n < ?t \<or> a = 0")
    case True
    then show ?thesis using al e same unfolding alloc_large_def Let_def by (auto split: if_splits simp del: constants_value large_offset_value)
  next
    case False
    then obtain r s where r: "region_register K a (st_registry st) os = Some (r, s)" "st_registry st' = r"
      using al e unfolding alloc_large_def Let_def
      by (auto split: if_splits bind_splits simp del: constants_value large_offset_value)
    have "unat SEGMENT_SIZE dvd unat a" using os_holds_alloc(2) [OF w(1) e] False by blast
    then have "live a" using False by (intro aligned_live) (simp_all add: segment_aligned_def)
    then show ?thesis using register_first [OF w(4) n _ r(1)] r(2) by simp
  qed
qed

lemma steady_small:
  obtains p st where "hm_malloc steady_kernel 0 24 (init_state sample_os) = Some (p, st)" "p \<noteq> 0" "hm_run steady_kernel st {(p, usable p st)}"
    "roomy (st_registry st)" "24 \<le> usable p st"
proof -
  obtain p st L where 1: "hm_malloc steady_kernel 0 24 (init_state sample_os) = Some (p, st)" "alloc_post steady_kernel 16 24 (init_state sample_os) {} p st L"
    "p = 0 \<longrightarrow> malloc_refused steady_kernel 0 24 (init_state sample_os)"
    using hm_malloc_post [OF hm_run_inv [OF steady_start] steady_can_call] by blast
  have p: "p \<noteq> 0" using 1(3) steady_not_refused(1) by blast
  have "slack init_registry" by (simp add: slack_def init_registry_def)
  then have "roomy (st_registry st)" using 1(2) by (simp add: alloc_post_def registry_step_def init_state_def)
  moreover have "hm_run steady_kernel st {(p, usable p st)}"
    using hm_run.malloc [OF steady_start steady_can_call 1(1)] p by (simp add: with_block_def)
  moreover have "24 \<le> usable p st"
    using alloc_post_client(2) [OF 1(2) p] by (auto simp: fresh_block_def usable_def)
  ultimately show thesis using that 1(1) p by blast
qed

lemma steady_large_header:
  assumes m: "hm_malloc steady_kernel 0 100000 (init_state sample_os) = Some (p, st)" and p: "p \<noteq> 0"
  obtains a h where "get_large a st = Some h" "segment_aligned a" "lh_mmap_size h = 102400"
proof -
  have n: "round_up (LARGE_OFFSET + 100000) (os_page_size steady_kernel) = 102400"
    by (simp add: round_up_def os_page_size_def steady_page_size)
  obtain a os where e: "os_alloc_aligned steady_kernel 102400 SEGMENT_SIZE sample_os = (a, os)" by fastforce
  have "alloc_large steady_kernel 100000 ALLOC_ALIGN (init_state sample_os) = Some (p, st)" using m by (simp add: hm_malloc_def)
  then have a: "a \<noteq> 0" "\<exists>h. get_large a st = Some h \<and> lh_mmap_size h = 102400"
    using e p unfolding alloc_large_def Let_def
    by (auto simp: n init_state_def get_large_def split: if_splits bind_splits simp del: constants_value large_offset_value)
  have "os_granted 102400 SEGMENT_SIZE sample_os a os" using os_alloc_contract [OF steady_kernel_ok e] a(1) by simp
  then have "segment_aligned a" by (simp add: os_granted_def segment_aligned_def)
  then show thesis using that a(2) by blast
qed

lemma steady_large_table:
  assumes m: "hm_malloc steady_kernel 0 100000 (init_state sample_os) = Some (p, st)" and p: "p \<noteq> 0"
  shows "rg_slots (st_registry st) \<noteq> None"
proof -
  have n: "round_up (LARGE_OFFSET + 100000) (os_page_size steady_kernel) = 102400"
    by (simp add: round_up_def os_page_size_def steady_page_size)
  obtain a os where e: "os_alloc_aligned steady_kernel 102400 SEGMENT_SIZE sample_os = (a, os)" by fastforce
  have "alloc_large steady_kernel 100000 ALLOC_ALIGN (init_state sample_os) = Some (p, st)" using m by (simp add: hm_malloc_def)
  then obtain r s where r: "a \<noteq> 0" "region_register steady_kernel a init_registry os = Some (r, s)" "st_registry st = r"
    using e p unfolding alloc_large_def Let_def
    by (auto simp: n init_state_def split: if_splits bind_splits simp del: constants_value large_offset_value)
  have g: "os_granted 102400 SEGMENT_SIZE sample_os a os" using os_alloc_contract [OF steady_kernel_ok e] r(1) by simp
  have a: "a = 0x10000400000" using e
    by (simp add: os_alloc_aligned_def steady_page_size is_pow2_def raw_mmap_def) (simp add: steady_kernel_def sample_os_def Let_def split: prod.splits)
  have "\<not> mapped os x" if "in_region 0x20000001000 8192 x" for x
    using that g a by (auto simp: os_granted_def sample_os_def in_region_iff)
  then have "fst (alloc_slots steady_kernel 1024 os) \<noteq> 0"
    by (simp add: alloc_slots_def os_alloc_aligned_def os_page_size_def slots_bytes_def steady_page_size is_pow2_def raw_mmap_def)
      (simp add: steady_kernel_def Let_def split: prod.splits)
  then have "slots_granted steady_kernel init_registry os" by (simp add: slots_granted_def register_grows_def init_registry_def)
  moreover have "live a" unfolding a by (rule aligned_live) (simp_all add: segment_aligned_def)
  moreover have "roomy init_registry" by (simp add: roomy_def init_registry_def)
  ultimately show ?thesis using register_granted [OF reg_inv_init(1), of steady_kernel os a] r(2,3) by fastforce
qed

lemma steady_large:
  obtains p st where "hm_malloc steady_kernel 0 100000 (init_state sample_os) = Some (p, st)" "p \<noteq> 0" "hm_run steady_kernel st {(p, usable p st)}"
    "slack (st_registry st)" "100000 \<le> usable p st" "reg_exact st"
proof -
  obtain p st L where 1: "hm_malloc steady_kernel 0 100000 (init_state sample_os) = Some (p, st)" "alloc_post steady_kernel 16 100000 (init_state sample_os) {} p st L"
    "p = 0 \<longrightarrow> malloc_refused steady_kernel 0 100000 (init_state sample_os)"
    using hm_malloc_post [OF hm_run_inv [OF steady_start] steady_can_call] by blast
  have p: "p \<noteq> 0" using 1(3) steady_not_refused(2) by blast
  have r: "hm_run steady_kernel st {(p, usable p st)}"
    using hm_run.malloc [OF steady_start steady_can_call 1(1)] p by (simp add: with_block_def)
  have "slack (st_registry st)"
    by (rule large_first [OF hm_run_inv [OF steady_start] _ _ 1(1)]) (simp_all add: init_state_def init_registry_def)
  moreover have "100000 \<le> usable p st"
    using alloc_post_client(2) [OF 1(2) p] by (auto simp: fresh_block_def usable_def)
  moreover have "reg_exact (init_state sample_os)" by (simp add: reg_exact_def init_state_def)
  then have "reg_exact st" using 1(2) steady_large_table [OF 1(1) p] by (simp add: alloc_post_def registry_step_def)
  ultimately show thesis using that 1(1) p r by blast
qed

end
