(* ===== verification/HM_Stats.thy ===== *)
theory HM_Stats
  imports HM_Runs
begin

text \<open>
  What the counters of \<open>hm_stats\<close> (src/src/hmalloc.cpp) and \<open>central_stats\<close> (src/src/central.cpp)
  mean in a reachable state: how many regions of each sort there are, that their sizes add up to
  the bytes reserved from the OS, on which list every page of every segment is, and that the live
  blocks are determined by the state. Then what the sweep and a released page leave behind.
\<close>

section \<open>Bytes\<close>

lemma os_holds_bytes:
  assumes "os_holds K s R"
  shows "unat (bytes_mapped (g_stats s)) = (\<Sum>r \<in> R. unat (snd r))"
proof -
  obtain live where l: "osl.tracked K s live" "set live = R" using assms by (auto simp: os_holds_def)
  then have "distinct live" "unat (bytes_mapped (g_stats s)) = regions_bytes live"
    unfolding osl.tracked_def regions_ok_def by blast+
  then show ?thesis using l(2) by (simp add: regions_bytes_def sum_list_distinct_conv_sum_set)
qed

definition seg_set :: "State \<Rightarrow> addr set" where
  "seg_set st = {a. get_seg a st \<noteq> None}"

definition large_size :: "State \<Rightarrow> addr \<Rightarrow> nat" where
  "large_size st a = (case get_large a st of Some h \<Rightarrow> unat (lh_mmap_size h) | None \<Rightarrow> 0)"

definition table_bytes :: "kernel \<Rightarrow> State \<Rightarrow> nat" where
  "table_bytes K st = (if rg_slots (st_registry st) = None then 0 else unat (slots_bytes K (rg_cap (st_registry st))))"

lemma large_regs_image: "large_regs st = (\<lambda>a. (a, of_nat (large_size st a))) ` large_dom st"
  by (fastforce simp: large_regs_def large_dom_def large_size_def)

lemma unat_large_size: "unat (of_nat (large_size st a) :: u64) = large_size st a"
  by (simp add: large_size_def split: option.splits)

lemma reserved_bytes:
  assumes inv: "heap_inv K st g hl"
  shows "unat (bytes_mapped (g_stats (st_os st))) = 2 ^ 22 * card (seg_set st) + unat (heap_bytes K) * card (dom (st_heaps st)) +
    (\<Sum>a \<in> large_dom st. large_size st a) + table_bytes K st"
proof -
  note w = world_regs [OF inv] and f = heap_inv_facts [OF inv]
  let ?S = "seg_regions (set (cg_segs g))" and ?Q = "reg_region K (st_registry st)" and ?n = "\<lambda>r :: addr \<times> u64. unat (snd r)"
  have s: "set (cg_segs g) = seg_set st" using w(7) by (auto simp: seg_set_def)
  have fin: "finite ?S" "finite (heap_regs K st)" "finite (large_regs st)" "finite ?Q"
    using os_holds_finite [OF w(1)] by simp_all
  have "unat (bytes_mapped (g_stats (st_os st))) = sum ?n (?S \<union> regs K st) + sum ?n ?Q"
    unfolding os_holds_bytes [OF w(1)] by (rule sum.union_disjoint) (use fin w(3) in simp_all)
  also have "sum ?n (?S \<union> regs K st) = sum ?n ?S + sum ?n (regs K st)" by (rule sum.union_disjoint) (use fin w(2) in simp_all)
  also have "sum ?n (regs K st) = sum ?n (heap_regs K st) + sum ?n (large_regs st)" by (rule sum.union_disjoint) (use fin f(5) in simp_all)
  also have "sum ?n ?S = 2 ^ 22 * card (seg_set st)"
    unfolding seg_regions_def s by (subst sum.reindex) (simp_all add: inj_on_def)
  also have "sum ?n (heap_regs K st) = unat (heap_bytes K) * card (dom (st_heaps st))"
    unfolding heap_regs_def by (subst sum.reindex) (simp_all add: inj_on_def)
  also have "sum ?n (large_regs st) = (\<Sum>a \<in> large_dom st. large_size st a)"
    unfolding large_regs_image by (subst sum.reindex) (simp_all add: inj_on_def unat_large_size)
  also have "sum ?n ?Q = table_bytes K st"
    by (auto simp: table_bytes_def reg_region_def split: option.splits)
  finally show ?thesis by simp
qed

lemma large_counters:
  assumes inv: "heap_inv K st g hl" "large_ok st"
  shows "unat (st_large_count st) = card (large_dom st)" "unat (st_large_bytes st) = (\<Sum>a \<in> large_dom st. large_size st a)"
proof -
  have h: "large_header_ok a (the (get_large a st))" "get_large a st \<noteq> None" if "a \<in> large_dom st" for a
    using inv(2) that by (auto simp: large_ok_def large_dom_def)
  have le: "(\<Sum>a \<in> large_dom st. large_size st a) < 2 ^ 64"
    using reserved_bytes [OF inv(1)] unsigned_less [of "bytes_mapped (g_stats (st_os st))", where ?'a = nat] by simp
  have "st_large_bytes st = (\<Sum>a \<in> large_dom st. of_nat (large_size st a))"
    using inv(2) by (auto simp: large_ok_def large_size_def large_dom_def intro!: sum.cong)
  then have "st_large_bytes st = of_nat (\<Sum>a \<in> large_dom st. large_size st a)" by simp
  then show "unat (st_large_bytes st) = (\<Sum>a \<in> large_dom st. large_size st a)"
    using le by (simp only:) (simp add: unsigned_of_nat take_bit_nat_eq_self del: of_nat_sum)
  have "1 \<le> large_size st a" if "a \<in> large_dom st" for a
  proof -
    obtain y where y: "get_large a st = Some y" using h(2) \<open>a \<in> large_dom st\<close> by blast
    have "(a, lh_mmap_size y) \<in> seg_regions (set (cg_segs g)) \<union> regs K st \<union> reg_region K (st_registry st)"
      using world_regs(6) [OF inv(1)] y by blast
    then have "lh_mmap_size y \<noteq> 0" by (rule os_holds_region(2) [OF world_regs(1) [OF inv(1)]])
    then show ?thesis using y by (simp add: large_size_def unat_gt_0 Suc_le_eq)
  qed
  then have "card (large_dom st) \<le> (\<Sum>a \<in> large_dom st. large_size st a)" using sum_mono [of "large_dom st" "\<lambda>_. 1" "large_size st"] by simp
  then have "card (large_dom st) < 2 ^ 64" using le by simp
  then show "unat (st_large_count st) = card (large_dom st)"
    using inv(2) by (simp add: large_ok_def unsigned_of_nat take_bit_nat_eq_self)
qed

lemma large_os_free:
  assumes inv: "heap_inv K st g hl" and h: "get_large a st = Some h"
  shows "mapped (os_free K a (lh_mmap_size h) (st_os st)) x \<longleftrightarrow> mapped (st_os st) x \<and> x \<notin> region_set (a, lh_mmap_size h)"
    "bytes_mapped (g_stats (os_free K a (lh_mmap_size h) (st_os st))) = bytes_mapped (g_stats (st_os st)) - lh_mmap_size h"
proof -
  have "(a, lh_mmap_size h) \<in> seg_regions (set (cg_segs g)) \<union> regs K st \<union> reg_region K (st_registry st)"
    using world_regs(6) [OF inv] h by blast
  note u = os_holds_unmap [OF world_regs(1) [OF inv] this]
  show "mapped (os_free K a (lh_mmap_size h) (st_os st)) x \<longleftrightarrow> mapped (st_os st) x \<and> x \<notin> region_set (a, lh_mmap_size h)" by (rule u(1))
  show "bytes_mapped (g_stats (os_free K a (lh_mmap_size h) (st_os st))) = bytes_mapped (g_stats (st_os st)) - lh_mmap_size h" by (rule u(2))
qed

section \<open>The walk over the heaps\<close>

lemma sum_counts_eq:
  assumes "linked NullHeap (hp_nx st) h (map HeapAt hs) NullHeap" "set hs \<subseteq> dom (st_heaps st)"
  shows "sum_counts h m f s st = Some (m + (\<Sum>a\<leftarrow>hs. hp_n_malloc (the (st_heaps st a))),
    f + (\<Sum>a\<leftarrow>hs. hp_n_fast (the (st_heaps st a))), s + (\<Sum>a\<leftarrow>hs. hp_n_slow (the (st_heaps st a))))"
  using assms
proof (induction hs arbitrary: h m f s)
  case Nil
  then show ?case by (subst sum_counts.simps) simp
next
  case (Cons a hs)
  then obtain x where x: "st_heaps st a = Some x" by auto
  then have g: "get_heap h st = Some (a, x)" "h \<noteq> NullHeap" using Cons.prems(1) by (simp_all add: get_heap_def)
  have "hp_nx st (HeapAt a) = hp_reg_next x" using x by (simp add: hp_nx_def get_heap_def)
  then have "linked NullHeap (hp_nx st) (hp_reg_next x) (map HeapAt hs) NullHeap" using Cons.prems(1) by simp
  then show ?case using Cons.IH [of "hp_reg_next x"] Cons.prems(2) g x by (subst sum_counts.simps) (simp add: algebra_simps)
qed

text \<open>A counter of the heaps summed over all of them (in 64 bits).\<close>

definition heap_total :: "(Heap \<Rightarrow> u64) \<Rightarrow> State \<Rightarrow> u64" where
  "heap_total n st = (\<Sum>a \<in> dom (st_heaps st). n (the (st_heaps st a)))"

lemma heap_global_counts_eq:
  assumes "heap_inv K st g hl"
  shows "heap_global_counts st = Some (heap_total hp_n_malloc st, heap_total hp_n_fast st, heap_total hp_n_slow st)"
proof -
  obtain hs where h: "linked NullHeap (hp_nx st) (st_g_registry st) (map HeapAt hs) NullHeap" "set hs = dom (st_heaps st)"
    using heap_inv_facts(4) [OF assms] unfolding threads_ok_def by blast
  have "distinct hs" using linked_distinct [OF h(1)] by (simp add: distinct_map)
  then have "(\<Sum>a\<leftarrow>hs. n (the (st_heaps st a))) = heap_total n st" for n
    using h(2) by (simp add: heap_total_def sum_list_distinct_conv_sum_set)
  then show ?thesis using sum_counts_eq [OF h(1)] h(2) unfolding heap_global_counts_def by simp
qed

section \<open>Segments\<close>

lemma num_segments:
  assumes "heap_inv K st g hl"
  shows "unat (cs_num_segments (st_central st)) = card (seg_set st)" "distinct (cg_segs g)" "set (cg_segs g) = seg_set st" "finite (seg_set st)"
proof -
  note f = base_inv_facts [OF heap_inv_facts(1) [OF assms]]
  show d: "distinct (cg_segs g)" using f(1) unfolding central_core_def by (auto intro: linked_distinct)
  show s: "set (cg_segs g) = seg_set st" using world_regs(7) [OF assms] by (auto simp: seg_set_def)
  then show "finite (seg_set st)" by (metis List.finite_set)
  have "unat (cs_num_segments (st_central st)) = length (cg_segs g)" using f(4) by (simp add: central_counts_def)
  then show "unat (cs_num_segments (st_central st)) = card (seg_set st)" using distinct_card [OF d] s by simp
qed

section \<open>Where the pages are\<close>

text \<open>The lists of pages as the code walks them, from a head along \<open>next\<close>: the lists of the heaps, the
  list of abandoned pages and the free list of each segment.\<close>

definition listed :: "State \<Rightarrow> page_ptr \<Rightarrow> page_ptr set" where
  "listed st p = {q. \<exists>xs. linked NullPage (pg_nx st) p xs NullPage \<and> q \<in> set xs}"

definition heap_pages :: "State \<Rightarrow> page_ptr set" where
  "heap_pages st = {q. \<exists>a x c. st_heaps st a = Some x \<and> c < 36 \<and> hp_pages x ! c \<noteq> EmptyPage \<and> q \<in> listed st (hp_pages x ! c)}"

definition abandoned_pages :: "State \<Rightarrow> page_ptr set" where
  "abandoned_pages st = listed st (cs_abandoned (st_central st))"

definition pool_pages :: "State \<Rightarrow> page_ptr set" where
  "pool_pages st = {q. \<exists>s x. get_seg s st = Some x \<and> q \<in> listed st (sg_free_list x)}"

text \<open>The blocks of a state that are neither on a list of their page nor given back: those of the
  pages of heaps and of abandoned pages, and the large ones.\<close>

definition live_blocks :: "State \<Rightarrow> blocks" where
  "live_blocks st = (\<Union>q \<in> heap_pages st \<union> abandoned_pages st. pblocks st q) \<union> large_live st"

lemma listed_eq: "linked NullPage (pg_nx st) p xs NullPage \<Longrightarrow> listed st p = set xs"
  unfolding listed_def by (auto dest: linked_unique)

lemma page_lists:
  assumes inv: "heap_inv K st g hl"
  shows "heap_pages st = cg_out g" "abandoned_pages st = set (cg_aband g)" "pool_pages st = pooled g"
proof -
  note f = heap_inv_facts [OF inv] and n = num_segments(3) [OF inv]
  have l: "linked NullPage (pg_nx st) (cs_abandoned (st_central st)) (cg_aband g) NullPage" using f(6) by (simp add: central_core_def)
  then show "abandoned_pages st = set (cg_aband g)" by (simp add: abandoned_pages_def listed_eq)
  have hl: "heap_lists st x (hl a)" if "st_heaps st a = Some x" for a x using f(3) that by (simp add: heaps_ok_def)
  have "(hp_pages x ! c \<noteq> EmptyPage \<and> q \<in> listed st (hp_pages x ! c)) \<longleftrightarrow> q \<in> set (hl a c)"
    if x: "st_heaps st a = Some x" "c < 36" for a x c q
  proof (cases "hl a c = []")
    case True
    then show ?thesis using hl [OF x(1)] x(2) by (simp add: heap_lists_def)
  next
    case False
    then have d: "dlist NullPage (pg_nx st) (pg_pv st) (hp_pages x ! c) (hl a c)" using hl [OF x(1)] x(2) by (simp add: heap_lists_def)
    then have "hp_pages x ! c \<in> set (hl a c)" using False by (cases "hl a c") (auto simp: dlist_def)
    then have "hp_pages x ! c \<in> cg_out g" using f(3) x by (auto simp: heaps_ok_def)
    then have "hp_pages x ! c \<noteq> EmptyPage" using used_not_pooled(2) [OF f(6)] by (fastforce simp: used_pages_def)
    moreover have "listed st (hp_pages x ! c) = set (hl a c)" using d by (intro listed_eq) (simp add: dlist_def)
    ultimately show ?thesis by simp
  qed
  moreover have "cg_out g = {p. \<exists>a \<in> dom (st_heaps st). \<exists>c < 36. p \<in> set (hl a c)}" using f(3) by (simp add: heaps_ok_def)
  ultimately show "heap_pages st = cg_out g" unfolding heap_pages_def by blast
  have p: "listed st (sg_free_list x) = PageAt s ` set (cg_pool g s)" if x: "get_seg s st = Some x" for s x
  proof -
    have "s \<in> set (cg_segs g)" using x n by (simp add: seg_set_def)
    then have "seg_inv st s (cg_pool g s)" using f(6) by (simp add: central_core_def)
    then show ?thesis using x listed_eq by (auto simp: seg_inv_def)
  qed
  show "pool_pages st = pooled g"
  proof (intro set_eqI iffI)
    fix q assume "q \<in> pool_pages st"
    then obtain s x where "get_seg s st = Some x" "q \<in> PageAt s ` set (cg_pool g s)" unfolding pool_pages_def using p by blast
    then show "q \<in> pooled g" unfolding pooled_def n seg_set_def by auto
  next
    fix q assume "q \<in> pooled g"
    then obtain s i x where "get_seg s st = Some x" "i \<in> set (cg_pool g s)" "q = PageAt s i" unfolding pooled_def n seg_set_def by auto
    then show "q \<in> pool_pages st" unfolding pool_pages_def using p by blast
  qed
qed

lemma live_blocks_eq: "hm_inv K st L \<Longrightarrow> live_blocks st = L"
proof -
  assume "hm_inv K st L"
  then obtain g hl where i: "heap_inv K st g hl" "L = small_live st g \<union> large_live st" by (rule hm_invE)
  show ?thesis using page_lists [OF i(1)] i(2) by (simp add: live_blocks_def small_live_used used_pages_def)
qed

lemma page_partition:
  assumes "heap_inv K st g hl"
  shows "seg_pages (seg_set st) = heap_pages st \<union> pool_pages st \<union> abandoned_pages st"
    "heap_pages st \<inter> pool_pages st = {}" "heap_pages st \<inter> abandoned_pages st = {}" "pool_pages st \<inter> abandoned_pages st = {}"
  using heap_inv_facts(6) [OF assms] num_segments(3) [OF assms] unfolding page_lists [OF assms]
  by (auto simp: central_core_def parts_def)

section \<open>Counts of pages\<close>

text \<open>The length of a segment's page free list, as the segment counts it.\<close>

definition seg_free :: "State \<Rightarrow> addr \<Rightarrow> nat" where
  "seg_free st s = (case get_seg s st of Some x \<Rightarrow> unat (sg_free_count x) | None \<Rightarrow> 0)"

lemma seg_free_pool:
  assumes "heap_inv K st g hl" "s \<in> set (cg_segs g)"
  shows "seg_free st s = length (cg_pool g s)" "distinct (cg_pool g s)" "set (cg_pool g s) \<subseteq> {1..<64}"
proof -
  have "seg_inv st s (cg_pool g s)" using base_inv_facts(1) [OF heap_inv_facts(1) [OF assms(1)]] assms(2) by (simp add: central_core_def)
  then obtain x where x: "get_seg s st = Some x" "unat (sg_free_count x) = length (cg_pool g s)" "set (cg_pool g s) \<subseteq> {1..<64}"
    "linked NullPage (pg_nx st) (sg_free_list x) (map (PageAt s) (cg_pool g s)) NullPage" by (auto simp: seg_inv_def)
  show "seg_free st s = length (cg_pool g s)" "set (cg_pool g s) \<subseteq> {1..<64}" using x by (simp_all add: seg_free_def)
  show "distinct (cg_pool g s)" using linked_distinct [OF x(4)] by (simp add: distinct_map)
qed

lemma card_seg_pages: "finite S \<Longrightarrow> card (seg_pages S) = 63 * card S"
proof -
  assume "finite S"
  have "seg_pages S = (\<lambda>(s, i). PageAt s i) ` (S \<times> {1..<64})" by (auto simp: seg_pages_def)
  moreover have "inj_on (\<lambda>(s, i). PageAt s i) (S \<times> {1..<64})" by (auto simp: inj_on_def)
  ultimately show ?thesis by (simp add: card_image card_cartesian_product)
qed

lemma card_pooled:
  assumes "heap_inv K st g hl"
  shows "card (pooled g) = (\<Sum>s \<in> seg_set st. seg_free st s)" "finite (pooled g)"
proof -
  note n = num_segments [OF assms] and p = seg_free_pool [OF assms]
  have e: "pooled g = (\<lambda>(s, i). PageAt s i) ` (SIGMA s : seg_set st. set (cg_pool g s))" using n(3) by (auto simp: pooled_def)
  then show "finite (pooled g)" using n(4) by simp
  have "inj_on (\<lambda>(s, i). PageAt s i) (SIGMA s : seg_set st. set (cg_pool g s))" by (auto simp: inj_on_def)
  then have "card (pooled g) = card (SIGMA s : seg_set st. set (cg_pool g s))" unfolding e by (rule card_image)
  also have "\<dots> = (\<Sum>s \<in> seg_set st. card (set (cg_pool g s)))" using n(4) by (simp add: card_SigmaI)
  also have "\<dots> = (\<Sum>s \<in> seg_set st. seg_free st s)" using p n(3) by (intro sum.cong) (simp_all add: distinct_card)
  finally show "card (pooled g) = (\<Sum>s \<in> seg_set st. seg_free st s)" .
qed

lemma page_cards:
  assumes inv: "heap_inv K st g hl"
  shows "unat (cs_pages_in_use (st_central st)) = card (heap_pages st)" "unat (cs_free_page_count (st_central st)) = card (pool_pages st)"
    "unat (cs_abandoned_count (st_central st)) = card (abandoned_pages st)"
proof -
  note f = base_inv_facts [OF heap_inv_facts(1) [OF inv]] and n = num_segments [OF inv]
  have c: "unat (cs_free_page_count (st_central st)) = free_pages g" "unat (cs_abandoned_count (st_central st)) = length (cg_aband g)"
    "unat (cs_pages_in_use (st_central st)) = card (cg_out g)" using f(4) by (simp_all add: central_counts_def)
  have "free_pages g = card (pooled g)"
    unfolding card_pooled(1) [OF inv] free_pages_def n(3) using seg_free_pool(1) [OF inv] n(3) by (intro sum.cong) simp_all
  moreover have "distinct (cg_aband g)" using f(1) unfolding central_core_def by (auto intro: linked_distinct)
  ultimately show "unat (cs_pages_in_use (st_central st)) = card (heap_pages st)" "unat (cs_free_page_count (st_central st)) = card (pool_pages st)"
    "unat (cs_abandoned_count (st_central st)) = card (abandoned_pages st)"
    unfolding page_lists [OF inv] using c by (simp_all add: distinct_card)
qed

lemma page_counters:
  assumes inv: "heap_inv K st g hl"
  shows "unat (cs_free_page_count (st_central st)) = (\<Sum>s \<in> seg_set st. seg_free st s)"
    "63 * card (seg_set st) = unat (cs_pages_in_use (st_central st)) + unat (cs_free_page_count (st_central st)) + unat (cs_abandoned_count (st_central st))"
proof -
  note c = page_cards [OF inv] and p = page_partition [OF inv] and n = num_segments [OF inv]
  show "unat (cs_free_page_count (st_central st)) = (\<Sum>s \<in> seg_set st. seg_free st s)"
    using c(2) card_pooled(1) [OF inv] page_lists(3) [OF inv] by simp
  have "finite (seg_pages (seg_set st))" using n(4) by (simp add: seg_pages_def finite_image_set2)
  then have fin: "finite (heap_pages st)" "finite (pool_pages st)" "finite (abandoned_pages st)" using p(1) by simp_all
  have "card (seg_pages (seg_set st)) = card (heap_pages st \<union> pool_pages st) + card (abandoned_pages st)"
    unfolding p(1) by (rule card_Un_disjoint) (use fin p in auto)
  also have "card (heap_pages st \<union> pool_pages st) = card (heap_pages st) + card (pool_pages st)"
    by (rule card_Un_disjoint) (use fin p in auto)
  finally show "63 * card (seg_set st) = unat (cs_pages_in_use (st_central st)) + unat (cs_free_page_count (st_central st)) + unat (cs_abandoned_count (st_central st))"
    using card_seg_pages [OF n(4)] c by simp
qed

lemma free_segments:
  assumes inv: "heap_inv K st g hl"
  shows "card {s \<in> seg_set st. seg_free st s = 63} \<le> 1"
    "unat (cs_free_segments (st_central st)) = card {s \<in> seg_set st. seg_free st s = 63}"
proof -
  note f = base_inv_facts [OF heap_inv_facts(1) [OF inv]] and n = num_segments [OF inv]
  have e: "{s \<in> seg_set st. seg_free st s = 63} = full_segs g"
    using n(3) seg_free_pool(1) [OF inv] by (auto simp: full_segs_def)
  show "card {s \<in> seg_set st. seg_free st s = 63} \<le> 1"
    unfolding e using heap_inv_facts(2) [OF inv] by (simp add: cache_ok_def SEGMENT_CACHE_def)
  show "unat (cs_free_segments (st_central st)) = card {s \<in> seg_set st. seg_free st s = 63}"
    unfolding e using f(4) by (simp add: central_counts_def)
qed

section \<open>The abandoned pages\<close>

text \<open>The abandoned pages that hold one of the blocks \<open>L\<close>.\<close>

definition held_pages :: "State \<Rightarrow> blocks \<Rightarrow> page_ptr set" where
  "held_pages st L = {q. page_owner st q = Some AbandonedOwner \<and>
     (\<exists>(p, n) \<in> L. kind_of p st = Some Small \<and> page_of (segment_of p) p = q)}"

lemma held_pages_eq:
  assumes inv: "heap_inv K st g hl" "large_ok st" "L = small_live st g \<union> large_live st"
  shows "held_pages st L = {p \<in> set (cg_aband g). pblocks st p \<noteq> {}}"
proof (intro set_eqI iffI)
  note f = heap_inv_facts [OF inv(1)]
  fix q assume "q \<in> held_pages st L"
  then obtain p n where q: "page_owner st q = Some AbandonedOwner" "(p, n) \<in> L" "kind_of p st = Some Small" "page_of (segment_of p) p = q"
    by (auto simp: held_pages_def)
  have "(p, n) \<notin> large_live st" using large_live_facts(5) [OF inv(1,2)] q(3) by fastforce
  then have "(p, n) \<in> small_live st g" using q(2) inv(3) by blast
  then obtain r where r: "r \<in> used_pages g" "(p, n) \<in> pblocks st r" by (auto simp: small_live_used)
  then have e: "r = q" using block_page(1) [OF f(6) r] q(4) by simp
  have "q \<notin> cg_out g"
  proof
    assume "q \<in> cg_out g"
    then obtain a c where "owned st a c q" using f(3) unfolding heaps_ok_def by blast
    then show False using q(1) by (auto simp: owned_def page_owner_def)
  qed
  then show "q \<in> {p \<in> set (cg_aband g). pblocks st p \<noteq> {}}" using r e by (auto simp: used_pages_def)
next
  note f = heap_inv_facts [OF inv(1)]
  fix q assume q: "q \<in> {p \<in> set (cg_aband g). pblocks st p \<noteq> {}}"
  then obtain p n where b: "(p, n) \<in> pblocks st q" by auto
  have u: "q \<in> used_pages g" using q by (simp add: used_pages_def)
  then have "(p, n) \<in> L" using b inv(3) by (auto simp: small_live_used)
  then show "q \<in> held_pages st L"
    using block_page(1,3) [OF f(6) u b] f(7) q unfolding held_pages_def aband_owned_def by blast
qed

text \<open>A call into the central heap that hands out no page keeps the invariant and the live blocks.\<close>

lemma central_post:
  assumes i: "heap_inv K st g hl" "large_ok st" "L = small_live st g \<union> large_live st"
    and c: "base_inv K (regs K st) st' g' {}" "cache_ok g'" "keeps (regs K st) (cg_out g) st st'" "aband_frame st g st' g'" "cg_out g' = cg_out g"
  shows "heap_inv K st' g' hl" "hm_inv K st' L" "same_on L (st_mem st) (st_mem st')"
proof -
  note f = heap_inv_facts [OF i(1)]
  have o: "outer_frame st st'" using c(3) by (simp add: keeps_def)
  note lv = central_live [OF c(3,4) order_refl]
  have h: "heaps_ok st' (cg_out g') hl" using keeps_heaps [OF f(3) c(3)] c(5) by simp
  show i': "heap_inv K st' g' hl" by (rule heap_inv_outer [OF c(1,2) h o f(4,5) aband_owned_frame [OF f(7) c(4)]])
  have fr: "hframe (regs K st \<union> small_live st g) st st'" using outer_hframe [OF o lv(2)] by (simp add: small_live_def Un_assoc)
  note hf = hframe_large [OF fr]
  have "L = small_live st' g' \<union> large_live st'" using i(3) hf(1) lv(1) c(5) by (simp add: small_live_def)
  then show "hm_inv K st' L" using i' hf(2) i(2) unfolding hm_inv_def by blast
  have "same_on (large_regs st \<union> small_live st g) (st_mem st) (st_mem st')"
    by (rule same_on_subset [of "regs K st \<union> small_live st g"]) (use fr in \<open>auto simp: hframe_def\<close>)
  then show "same_on L (st_mem st) (st_mem st')" unfolding i(3) by (rule live_same_on [OF i(1,2)])
qed

text \<open>A page is back: on the free list of its segment, or its segment has been returned as well.\<close>

definition given_back :: "State \<Rightarrow> page_ptr \<Rightarrow> bool" where
  "given_back st q \<longleftrightarrow> q \<in> pool_pages st \<or> q \<notin> seg_pages (seg_set st)"

lemma given_backI:
  assumes "heap_inv K st g hl" "q \<notin> heap_pages st" "q \<notin> abandoned_pages st"
  shows "given_back st q"
  using page_partition(1) [OF assms(1)] assms(2,3) by (auto simp: given_back_def)

lemma sweep_post:
  assumes inv: "hm_inv K st L" and r: "roomy (st_registry st)"
  shows "\<exists>st'. sweep_abandoned K st = Some st' \<and> hm_inv K st' L \<and> same_on L (st_mem st) (st_mem st') \<and>
    heap_pages st' = heap_pages st \<and> abandoned_pages st' = held_pages st L \<and>
    held_pages st L \<subseteq> abandoned_pages st \<and> (\<forall>q \<in> abandoned_pages st - held_pages st L. given_back st' q)"
proof -
  obtain g hl where i: "heap_inv K st g hl" "large_ok st" "L = small_live st g \<union> large_live st" by (rule hm_invE [OF inv])
  note f = heap_inv_facts [OF i(1)]
  have l: "link_of [] = None" by (simp add: link_of_def)
  obtain st' g' where 1: "sweep_abandoned K st = Some st'" "base_inv K (regs K st) st' g' {}" "cache_ok g'" "sweep_frame (regs K st) st g st' g'"
    "cg_aband g' = filter (\<lambda>p. pblocks st p \<noteq> {}) (cg_aband g)"
    using sweep_loop_ok [OF f(1) r f(2), of "[]"] unfolding l sweep_abandoned_def by auto
  have k: "keeps (regs K st) (cg_out g) st st'" "aband_frame st g st' g'" "cg_out g' = cg_out g" using 1(4) by (simp_all add: sweep_frame_def)
  note p = central_post [OF i 1(2,3) k]
  have h: "heap_pages st' = heap_pages st" using page_lists(1) [OF i(1)] page_lists(1) [OF p(1)] k(3) by simp
  have a: "abandoned_pages st' = held_pages st L" using page_lists(2) [OF p(1)] held_pages_eq [OF i] 1(5) by simp
  have "given_back st' q" if "q \<in> abandoned_pages st - held_pages st L" for q
    by (rule given_backI [OF p(1)]) (use that h a page_partition(3) [OF i(1)] in auto)
  moreover have "held_pages st L \<subseteq> abandoned_pages st" using page_lists(2) [OF i(1)] held_pages_eq [OF i] by auto
  ultimately show ?thesis using 1(1) p h a by blast
qed

lemma acquire_release_post:
  assumes inv: "hm_inv K st L" and r: "roomy (st_registry st)" and c: "unat c < 36"
    and a: "central_acquire_page K owner c (class_sizes ! unat c) st = Some (pg, st')" "pg \<noteq> NullPage" "roomy (st_registry st')"
  shows "\<exists>st''. central_release_page K pg st' = Some st'' \<and> hm_inv K st'' L \<and>
    same_on L (st_mem st) (st_mem st'') \<and> pg \<notin> heap_pages st \<and> heap_pages st'' = heap_pages st \<and>
    given_back st'' pg"
proof -
  obtain g hl where i: "heap_inv K st g hl" "large_ok st" "L = small_live st g \<union> large_live st" by (rule hm_invE [OF inv])
  note f = heap_inv_facts [OF i(1)]
  obtain g' where 1: "base_inv K (regs K st) st' g' {}" "cache_ok g'" "keeps (regs K st) (cg_out g) st st'" "aband_frame st g st' g'"
    "pg \<notin> cg_out g" "cg_out g' = insert pg (cg_out g)"
    using central_acquire_page_ok [OF f(1) r f(2) class_size_class [OF c], of owner c] a(1,2) by auto
  obtain st'' g'' where 2: "central_release_page K pg st' = Some st''" "base_inv K (regs K st) st'' g'' {}" "cache_ok g''"
    "cg_out g'' = cg_out g' - {pg}" "cg_aband g'' = cg_aband g'" "keeps (regs K st) (cg_out g' - {pg}) st' st''"
    "aband_frame st' g' st'' g''"
    using central_release_page_ok [OF 1(1) a(3) 1(2), of pg] 1(6) by auto
  have e: "cg_out g' - {pg} = cg_out g" using 1(5,6) by simp
  note p = central_post [OF i 2(2,3) keeps_trans [OF 1(3) 2(6) [unfolded e]] aband_frame_trans [OF 1(4) 2(7)] 2(4) [unfolded e]]
  have h: "heap_pages st'' = heap_pages st" using page_lists(1) [OF i(1)] page_lists(1) [OF p(1)] 2(4) e by simp
  have "pg \<notin> set (cg_aband g')" using base_inv_facts(1) [OF 1(1)] 1(6) by (auto simp: central_core_def parts_def)
  then have "given_back st'' pg"
    by (intro given_backI [OF p(1)]) (use page_lists [OF p(1)] 2(4,5) in auto)
  then show ?thesis using 2(1) p h 1(5) page_lists(1) [OF i(1)] by blast
qed

section \<open>A new page\<close>

lemma acquire_post:
  assumes inv: "hm_inv K st L" and r: "roomy (st_registry st)" and c: "unat c < 36"
  shows "\<exists>pg st'. central_acquire_page K owner c (class_sizes ! unat c) st = Some (pg, st') \<and> same_on L (st_mem st) (st_mem st') \<and>
    (if pg = NullPage then seg_refused K st
     else \<exists>x. get_page pg st' = Some x \<and> page_unused x \<and> pg_owner x = owner \<and> pg_size_class x = c \<and>
       pg_block_size x = class_sizes ! unat c \<and> (\<forall>b \<in> L. \<forall>a \<in> region_set b. \<not> in_region (pg_area x) PAGE_SIZE a))"
proof -
  obtain g hl where i: "heap_inv K st g hl" "large_ok st" "L = small_live st g \<union> large_live st" by (rule hm_invE [OF inv])
  note f = heap_inv_facts [OF i(1)]
  let ?bs = "class_sizes ! unat c"
  obtain pg st' g' where 1: "central_acquire_page K owner c ?bs st = Some (pg, st')" "base_inv K (regs K st) st' g' {}"
    "keeps (regs K st) (cg_out g) st st'" "aband_frame st g st' g'"
    "if pg = NullPage then cg_out g' = cg_out g \<and> reg_frame st st' \<and> seg_refused K st
     else pg \<notin> cg_out g \<and> cg_out g' = insert pg (cg_out g) \<and> acquired owner c ?bs st' pg"
    using central_acquire_page_ok [OF f(1) r f(2) class_size_class [OF c]] by blast
  note lv = central_live [OF 1(3,4) order_refl]
  have "same_on (large_regs st \<union> small_live st g) (st_mem st) (st_mem st')"
    by (rule same_on_subset [OF lv(2)]) (auto simp: small_live_def)
  then have sm: "same_on L (st_mem st) (st_mem st')" unfolding i(3) by (rule live_same_on [OF i(1,2)])
  show ?thesis
  proof (cases "pg = NullPage")
    case True
    then show ?thesis using 1(1,5) sm by auto
  next
    case False
    then have pg: "pg \<notin> cg_out g" "cg_out g' = insert pg (cg_out g)" "acquired owner c ?bs st' pg" using 1(5) by simp_all
    then obtain x where x: "get_page pg st' = Some x" "page_unused x" "pg_owner x = owner" "pg_size_class x = c" "pg_block_size x = ?bs"
      by (auto simp: acquired_def)
    note f' = base_inv_facts [OF 1(2)]
    have ps: "pg \<in> seg_pages (set (cg_segs g'))" using used_seg_pages [OF f'(1)] pg(2) by (auto simp: used_pages_def)
    have "\<not> in_region (pg_area x) PAGE_SIZE a" if b: "b \<in> L" "a \<in> region_set b" for b a
    proof -
      consider "b \<in> small_live st g" | "b \<in> large_live st" using b(1) i(3) by blast
      then show ?thesis
      proof cases
        case 1
        then have "b \<in> (\<Union>p \<in> cg_out g. pblocks st' p) \<union> aband_blocks st' g'" using lv(1) by (simp add: small_live_def)
        then obtain q where q: "q \<in> cg_out g \<union> set (cg_aband g')" "b \<in> pblocks st' q" by (auto simp: aband_blocks_def)
        have "set (cg_aband g') \<inter> cg_out g' = {}" using f'(1) by (simp add: central_core_def parts_def)
        then have ne: "q \<noteq> pg" using q(1) pg(1,2) by auto
        have qs: "q \<in> seg_pages (set (cg_segs g'))" using used_seg_pages [OF f'(1)] pg(2) q(1) by (auto simp: used_pages_def)
        obtain y where y: "get_page q st' = Some y" using q(2) by (auto simp: pblocks_def)
        show ?thesis using area_disjoint [OF f'(1) qs ps ne y x(1) pblocks_area [OF y q(2) b(2)]] .
      next
        case 2
        obtain d h where d: "b = large_block d h" "get_large d st = Some h" "(d, lh_mmap_size h) \<in> regs K st"
          "region_set b \<subseteq> region_set (d, lh_mmap_size h)" "(d, lh_mmap_size h) \<in> large_regs st" by (rule large_live_region [OF i(1,2) 2])
        then show ?thesis using area_region [OF \<open>base_inv K (regs K st) st' g' {}\<close> ps x(1), of a "(d, lh_mmap_size h)"] b(2) by blast
      qed
    qed
    then show ?thesis using 1(1) sm x False by auto
  qed
qed

end
