(* ===== verification/Override_Correct.thy ===== *)
theory Override_Correct
  imports Override HM_Stats
begin

text \<open>
  The malloc replacement (src/src/override.cpp) on top of the API: which pointers its test takes
  for hmalloc's, what happens to the others, and what its entry points return.
\<close>

section \<open>Whose pointer\<close>

lemma ours_spec:
  assumes inv: "hm_inv K st L" and r: "roomy (st_registry st)" and p: "region_base p \<noteq> 0"
  shows "ours p st = Some (region_base p \<in> reg_keys (st_registry st))"
proof -
  obtain g hl where i: "heap_inv K st g hl" by (rule hm_invE [OF inv])
  have "live (region_base p)" by (rule aligned_live [OF segment_aligned_region_base p])
  then show ?thesis using owns_spec [OF world_regs(4) [OF i] r] by (simp add: ours_def)
qed

lemma region_nonzero:
  assumes inv: "hm_inv K st L" and a: "st_regions st a \<noteq> None"
  shows "a \<noteq> 0"
proof -
  obtain g hl where i: "heap_inv K st g hl" by (rule hm_invE [OF inv])
  note w = world_regs [OF i]
  obtain n where "(a, n) \<in> seg_regions (set (cg_segs g)) \<union> regs K st \<union> reg_region K (st_registry st)"
  proof (cases "get_seg a st")
    case None
    then obtain h where "get_large a st = Some h" using a by (auto simp: get_seg_def get_large_def split: Region.splits option.splits)
    then show thesis using that [of "lh_mmap_size h"] w(6) by blast
  next
    case (Some x)
    then have "(a, SEGMENT_SIZE) \<in> seg_regions (set (cg_segs g))" using w(7) by (auto simp: seg_regions_def)
    then show thesis using that by blast
  qed
  then show ?thesis by (rule os_holds_region(1) [OF w(1)])
qed

lemma live_region:
  assumes inv: "hm_inv K st L" and b: "(p, n) \<in> L"
  shows "st_regions st (region_base p) \<noteq> None" "region_base p \<noteq> 0"
proof -
  obtain g hl where i: "heap_inv K st g hl" "large_ok st" "L = small_live st g \<union> large_live st" by (rule hm_invE [OF inv])
  have "kind_of p st \<noteq> None" using small_block_facts(5) [OF i(1)] large_live_facts(5) [OF i(1,2)] b i(3) by fastforce
  then show "st_regions st (region_base p) \<noteq> None" by (simp add: kind_of_def)
  then show "region_base p \<noteq> 0" by (rule region_nonzero [OF inv])
qed

lemma ours_live:
  assumes "hm_inv K st L" "roomy (st_registry st)" "reg_exact st" "(p, n) \<in> L"
  shows "ours p st = Some True"
proof -
  note l = live_region [OF assms(1,4)]
  have "region_base p \<in> reg_keys (st_registry st)" using l(1) assms(3) by (auto simp: reg_exact_def)
  then show ?thesis using ours_spec [OF assms(1,2) l(2)] by simp
qed

text \<open>The window of a large region reaches to the next segment boundary, past its last byte.\<close>

lemma ours_window:
  assumes inv: "hm_inv K st L" and r: "roomy (st_registry st)" "reg_exact st" and a: "get_large a st = Some h" "region_base x = a"
  shows "ours x st = Some True" "kind_of x st = Some Large" "x \<noteq> 0"
    "hm_free K t x st = free_large K (a + lh_offset h) st"
proof -
  obtain g hl where i: "heap_inv K st g hl" "large_ok st" "L = small_live st g \<union> large_live st" by (rule hm_invE [OF inv])
  note lb = large_block_facts [OF i(1,2) a(1)]
  have d: "st_regions st a = Some (LargeRegion h)" using a(1) by (auto simp: get_large_def split: option.splits Region.splits)
  then have "a \<in> reg_keys (st_registry st)" using r(2) by (auto simp: reg_exact_def)
  then show "ours x st = Some True" using ours_spec [OF inv r(1), of x] a(2) lb(1) by simp
  show k: "kind_of x st = Some Large" using lb(5,6) a(2) by (simp add: kind_of_def)
  show x: "x \<noteq> 0" using a(2) lb(1) by (auto simp: region_base_def)
  show "hm_free K t x st = free_large K (a + lh_offset h) st"
    using k x lb(5) a(2) by (simp add: hm_free_def free_large_def)
qed

lemma fresh_block_write [simp]: "fresh_block al sz p L (upd_mem m st) = fresh_block al sz p L st"
  proof -
  have "hm_usable_size p (upd_mem m st) = hm_usable_size p st" by (simp add: hm_usable_size_def kind_of_def get_large_def get_page_def cong: if_cong)
  then show ?thesis by (simp add: fresh_block_def)
qed

end
