(* ===== verification/Remote_Free.thy ===== *)
theory Remote_Free
  imports Page_Ops
begin

text \<open>
  The cross-thread free protocol step by step (\<open>heap_free_remote\<close> and \<open>page_collect\<close> of
  src/src/heap.cpp): any number of threads push blocks onto a page's \<open>thread_free\<close> list with a
  compare-and-swap loop while the owner takes the whole list with one exchange, walks it and
  splices it into its own list, allocates, extends and frees. Every atomic access and every
  access to a block's link is a step of its own; steps interleave freely. The theory shows that
  no block is lost or duplicated, that the owner's walk ends however the steps interleave, and
  that a quiescent page is a page as the sequential operations know it.
\<close>

section \<open>The step relation\<close>

text \<open>Where a freeing thread is: the \<open>head\<close> it last read, before and after it linked its block.\<close>

datatype pc = Idle | Loaded addr addr | Prepared addr addr

text \<open>Where the owner is in \<open>page_collect\<close>: the taken list, \<open>tail\<close> and the count \<open>n\<close>.\<close>

datatype owner_pc = OwnerIdle | Walking addr addr u32

record rf_state =
  rf_page :: Page
  rf_mem :: memory
  rf_pc :: "nat \<Rightarrow> pc"
  rf_owner :: owner_pc
  rf_live :: "addr set"  \<comment> \<open>the blocks in the hands of users\<close>

text \<open>A freeing thread inside \<open>heap_free_remote\<close>.\<close>

inductive remote_step :: "rf_state \<Rightarrow> rf_state \<Rightarrow> bool" where
  load_head: "rf_pc s t = Idle \<Longrightarrow> b \<in> rf_live s \<Longrightarrow>
    remote_step s (s\<lparr>rf_pc := (rf_pc s)(t := Loaded b (pg_thread_free (rf_page s))), rf_live := rf_live s - {b}\<rparr>)"
| link_block: "rf_pc s t = Loaded b h \<Longrightarrow>
    remote_step s (s\<lparr>rf_mem := store64 b h (rf_mem s), rf_pc := (rf_pc s)(t := Prepared b h)\<rparr>)"
| cas_success: "rf_pc s t = Prepared b h \<Longrightarrow> pg_thread_free (rf_page s) = h \<Longrightarrow>
    remote_step s (s\<lparr>rf_page := (rf_page s)\<lparr>pg_thread_free := b\<rparr>, rf_pc := (rf_pc s)(t := Idle)\<rparr>)"
| cas_failure: "rf_pc s t = Prepared b h \<Longrightarrow>
    remote_step s (s\<lparr>rf_pc := (rf_pc s)(t := Loaded b (pg_thread_free (rf_page s)))\<rparr>)"

text \<open>The owner inside \<open>page_collect\<close>.\<close>

inductive collect_step :: "rf_state \<Rightarrow> rf_state \<Rightarrow> bool" where
  exchange: "rf_owner s = OwnerIdle \<Longrightarrow> pg_thread_free (rf_page s) = l \<Longrightarrow>
    collect_step s (s\<lparr>rf_page := (rf_page s)\<lparr>pg_thread_free := 0\<rparr>,
      rf_owner := (if l = 0 then OwnerIdle else Walking l l 1)\<rparr>)"
| walk: "rf_owner s = Walking l tail n \<Longrightarrow> load64 (rf_mem s) tail \<noteq> 0 \<Longrightarrow>
    collect_step s (s\<lparr>rf_owner := Walking l (load64 (rf_mem s) tail) (n + 1)\<rparr>)"
| splice: "rf_owner s = Walking l tail n \<Longrightarrow> load64 (rf_mem s) tail = 0 \<Longrightarrow>
    collect_step s (s\<lparr>rf_mem := store64 tail (pg_free (rf_page s)) (rf_mem s),
      rf_page := (rf_page s)\<lparr>pg_free := l, pg_used := pg_used (rf_page s) - n\<rparr>, rf_owner := OwnerIdle\<rparr>)"

text \<open>The owner's other operations, each outside \<open>page_collect\<close>, on fields no other thread reads.\<close>

inductive owner_step :: "rf_state \<Rightarrow> rf_state \<Rightarrow> bool" where
  pop: "rf_owner s = OwnerIdle \<Longrightarrow> page_pop (rf_page s) (rf_mem s) = Some (b, pg) \<Longrightarrow>
    owner_step s (s\<lparr>rf_page := pg, rf_live := insert b (rf_live s)\<rparr>)"
| extend: "rf_owner s = OwnerIdle \<Longrightarrow> pg_reserved (rf_page s) < pg_capacity (rf_page s) \<Longrightarrow>
    page_extend (rf_page s) (rf_mem s) = Some (pg, m) \<Longrightarrow>
    owner_step s (s\<lparr>rf_page := pg, rf_mem := m\<rparr>)"
| owner_free: "rf_owner s = OwnerIdle \<Longrightarrow> b \<in> rf_live s \<Longrightarrow>
    page_free_local b (rf_page s) (rf_mem s) = (pg, m) \<Longrightarrow>
    owner_step s (s\<lparr>rf_page := pg, rf_mem := m, rf_live := rf_live s - {b}\<rparr>)"

text \<open>One step of anyone; a user may write any byte of a block in users' hands.\<close>

inductive rf_step :: "rf_state \<Rightarrow> rf_state \<Rightarrow> bool" where
  remote: "remote_step s s' \<Longrightarrow> rf_step s s'"
| collect: "collect_step s s' \<Longrightarrow> rf_step s s'"
| owner: "owner_step s s' \<Longrightarrow> rf_step s s'"
| user_store: "b \<in> rf_live s \<Longrightarrow> in_region b (ucast (pg_block_size (rf_page s))) x \<Longrightarrow>
    rf_step s (s\<lparr>rf_mem := (rf_mem s)(x := v)\<rparr>)"

definition rf_init :: "Page \<Rightarrow> memory \<Rightarrow> rf_state" where
  "rf_init pg m = \<lparr>rf_page = pg, rf_mem = m, rf_pc = (\<lambda>_. Idle), rf_owner = OwnerIdle, rf_live = {}\<rparr>"

definition rf_reach :: "rf_state \<Rightarrow> bool" where
  "rf_reach s \<longleftrightarrow> (\<exists>pg m. page_unused pg \<and> rf_step\<^sup>*\<^sup>* (rf_init pg m) s)"

section \<open>The invariant\<close>

text \<open>The blocks on neither list are each in one place.\<close>

datatype place = User | InFlight nat | Taken

fun holds :: "pc \<Rightarrow> addr \<Rightarrow> bool" where
  "holds Idle b \<longleftrightarrow> False"
| "holds (Loaded c h) b \<longleftrightarrow> c = b"
| "holds (Prepared c h) b \<longleftrightarrow> c = b"

definition owner_ok :: "memory \<Rightarrow> owner_pc \<Rightarrow> addr list \<Rightarrow> bool" where
  "owner_ok m ow wl \<longleftrightarrow> (case ow of OwnerIdle \<Rightarrow> wl = []
     | Walking l tail n \<Rightarrow> blist m l wl \<and> (\<exists>ys zs. wl = ys @ tail # zs \<and> n = of_nat (Suc (length ys))))"

definition rf_inv :: "rf_state \<Rightarrow> addr list \<Rightarrow> addr list \<Rightarrow> addr list \<Rightarrow> (addr \<Rightarrow> place) \<Rightarrow> bool" where
  "rf_inv s fl tf wl loc \<longleftrightarrow>
     page_ok (rf_mem s) (rf_page s) fl tf \<and>
     rf_live s = {b \<in> page_live (rf_page s) fl tf. loc b = User} \<and>
     (\<forall>t b. holds (rf_pc s t) b \<longleftrightarrow> b \<in> page_live (rf_page s) fl tf \<and> loc b = InFlight t) \<and>
     (\<forall>t b h. rf_pc s t = Prepared b h \<longrightarrow> load64 (rf_mem s) b = h) \<and>
     set wl = {b \<in> page_live (rf_page s) fl tf. loc b = Taken} \<and>
     owner_ok (rf_mem s) (rf_owner s) wl"

lemma rf_invI:
  assumes "page_ok (rf_mem s) (rf_page s) fl tf"
    "rf_live s = {b \<in> page_live (rf_page s) fl tf. loc b = User}"
    "\<And>t b. holds (rf_pc s t) b \<longleftrightarrow> b \<in> page_live (rf_page s) fl tf \<and> loc b = InFlight t"
    "\<And>t b h. rf_pc s t = Prepared b h \<Longrightarrow> load64 (rf_mem s) b = h"
    "set wl = {b \<in> page_live (rf_page s) fl tf. loc b = Taken}"
    "owner_ok (rf_mem s) (rf_owner s) wl"
  shows "rf_inv s fl tf wl loc"
  using assms unfolding rf_inv_def by blast

text \<open>A write into the page that spares the links of in-flight and taken blocks keeps their part.\<close>

lemma rf_links_kept:
  assumes inv: "rf_inv s fl tf wl loc" and fr: "page_frame (rf_page s) L (rf_mem s) m'"
    and L: "{b \<in> page_live (rf_page s) fl tf. loc b = Taken} \<subseteq> L"
  shows "owner_ok m' (rf_owner s) wl"
    "\<And>t b h. rf_pc s t = Prepared b h \<Longrightarrow> b \<in> L \<Longrightarrow> load64 m' b = h"
proof -
  have g: "page_geometry (rf_page s)" and PL: "page_live (rf_page s) fl tf \<subseteq> page_blocks (rf_page s)"
    using inv by (auto simp: rf_inv_def page_ok_def page_live_def)
  have "set wl \<subseteq> L" "set wl \<subseteq> page_blocks (rf_page s)" using inv L PL by (auto simp: rf_inv_def)
  then have "linked 0 (load64 m') p wl q = linked 0 (load64 (rf_mem s)) p wl q" for p q
    by (rule frame_linked [OF fr g])
  then show "owner_ok m' (rf_owner s) wl"
    using inv by (simp add: rf_inv_def owner_ok_def split: owner_pc.splits)
  show "load64 m' b = h" if p: "rf_pc s t = Prepared b h" "b \<in> L" for t b h
  proof -
    have "holds (rf_pc s t) b" using p(1) by simp
    then have "b \<in> page_blocks (rf_page s)" using inv PL unfolding rf_inv_def by blast
    then show ?thesis using frame_load [OF fr g p(2)] inv p(1) unfolding rf_inv_def by metis
  qed
qed

lemma holds_upd:
  "holds p = holds (f t) \<Longrightarrow> holds ((f(t := p)) t') = holds (f t')"
  by simp

section \<open>Every step keeps the invariant\<close>

lemma load_head_inv:
  assumes inv: "rf_inv s fl tf wl loc" and p: "rf_pc s t = Idle" "b \<in> rf_live s"
  shows "rf_inv (s\<lparr>rf_pc := (rf_pc s)(t := Loaded b h), rf_live := rf_live s - {b}\<rparr>) fl tf wl (loc(b := InFlight t))"
proof (rule rf_invI)
  have b: "b \<in> page_live (rf_page s) fl tf" "loc b = User" using inv p(2) by (auto simp: rf_inv_def)
  have no: "\<not> holds (rf_pc s t') b" "\<not> holds (rf_pc s t) c" for t' c
    using inv b p(1) unfolding rf_inv_def by auto
  show "holds (rf_pc (s\<lparr>rf_pc := (rf_pc s)(t := Loaded b h), rf_live := rf_live s - {b}\<rparr>) t') c \<longleftrightarrow>
      c \<in> page_live (rf_page (s\<lparr>rf_pc := (rf_pc s)(t := Loaded b h), rf_live := rf_live s - {b}\<rparr>)) fl tf \<and>
      (loc(b := InFlight t)) c = InFlight t'" for t' c
    using inv b no unfolding rf_inv_def by auto
qed (use inv p in \<open>auto simp: rf_inv_def split: if_splits\<close>)

lemma prepared_or_loaded:
  assumes inv: "rf_inv s fl tf wl loc" and p: "rf_pc s t = Loaded b h \<or> rf_pc s t = Prepared b h"
  shows "b \<in> page_live (rf_page s) fl tf" "loc b = InFlight t" "page_geometry (rf_page s)"
    "b \<in> page_blocks (rf_page s)"
proof -
  have "holds (rf_pc s t) b" using p by auto
  then show "b \<in> page_live (rf_page s) fl tf" "loc b = InFlight t" using inv unfolding rf_inv_def by blast+
  then show "page_geometry (rf_page s)" "b \<in> page_blocks (rf_page s)"
    using inv by (auto simp: rf_inv_def page_ok_def page_live_def)
qed

lemma link_block_inv:
  assumes inv: "rf_inv s fl tf wl loc" and p: "rf_pc s t = Loaded b h"
  shows "rf_inv (s\<lparr>rf_mem := store64 b h (rf_mem s), rf_pc := (rf_pc s)(t := Prepared b h)\<rparr>) fl tf wl loc"
proof (rule rf_invI)
  note b = prepared_or_loaded [OF inv disjI1 [OF p]]
  let ?m = "store64 b h (rf_mem s)"
  have fr: "page_frame (rf_page s) (page_blocks (rf_page s) - {b}) (rf_mem s) ?m"
    by (rule frame_store [OF b(3,4)]) simp
  have "{c \<in> page_live (rf_page s) fl tf. loc c = Taken} \<subseteq> page_blocks (rf_page s) - {b}"
    using b(2) by (auto simp: page_live_def)
  note kept = rf_links_kept [OF inv fr this]
  have "page_ok ?m (rf_page s) fl tf"
    by (rule page_ok_frame [OF _ fr]) (use inv b(1) in \<open>auto simp: rf_inv_def page_ok_def page_live_def\<close>)
  then show "page_ok (rf_mem (s\<lparr>rf_mem := ?m, rf_pc := (rf_pc s)(t := Prepared b h)\<rparr>))
      (rf_page (s\<lparr>rf_mem := ?m, rf_pc := (rf_pc s)(t := Prepared b h)\<rparr>)) fl tf" by simp
  show "owner_ok (rf_mem (s\<lparr>rf_mem := ?m, rf_pc := (rf_pc s)(t := Prepared b h)\<rparr>))
      (rf_owner (s\<lparr>rf_mem := ?m, rf_pc := (rf_pc s)(t := Prepared b h)\<rparr>)) wl"
    using kept(1) by simp
  show "load64 (rf_mem (s\<lparr>rf_mem := ?m, rf_pc := (rf_pc s)(t := Prepared b h)\<rparr>)) c = h'"
    if c: "rf_pc (s\<lparr>rf_mem := ?m, rf_pc := (rf_pc s)(t := Prepared b h)\<rparr>) t' = Prepared c h'" for t' c h'
  proof (cases "t' = t")
    case True
    then show ?thesis using c by simp
  next
    case False
    then have c': "rf_pc s t' = Prepared c h'" using c by simp
    note cb = prepared_or_loaded [OF inv disjI2 [OF c']]
    then have "c \<in> page_blocks (rf_page s) - {b}" using b(2) False by auto
    then show ?thesis using kept(2) [OF c'] by simp
  qed
  have "holds (((rf_pc s)(t := Prepared b h)) t') = holds (rf_pc s t')" for t'
    by (rule holds_upd) (simp add: fun_eq_iff p)
  then show "holds (rf_pc (s\<lparr>rf_mem := ?m, rf_pc := (rf_pc s)(t := Prepared b h)\<rparr>) t') c \<longleftrightarrow>
      c \<in> page_live (rf_page (s\<lparr>rf_mem := ?m, rf_pc := (rf_pc s)(t := Prepared b h)\<rparr>)) fl tf \<and>
      loc c = InFlight t'" for t' c
    using inv unfolding rf_inv_def by simp
qed (use inv p in \<open>auto simp: rf_inv_def\<close>)

lemma cas_success_inv:
  assumes inv: "rf_inv s fl tf wl loc" and p: "rf_pc s t = Prepared b h" "pg_thread_free (rf_page s) = h"
  shows "rf_inv (s\<lparr>rf_page := (rf_page s)\<lparr>pg_thread_free := b\<rparr>, rf_pc := (rf_pc s)(t := Idle)\<rparr>) fl (b # tf) wl loc"
proof (rule rf_invI)
  note b = prepared_or_loaded [OF inv disjI2 [OF p(1)]]
  let ?pg = "(rf_page s)\<lparr>pg_thread_free := b\<rparr>"
  have ok: "page_ok (rf_mem s) (rf_page s) fl tf" using inv by (simp add: rf_inv_def)
  have st: "page_static ?pg = page_static (rf_page s)" "pg_reserved ?pg = pg_reserved (rf_page s)"
    by (simp_all add: page_static_def)
  note f = page_ok_fields [OF ok st]
  have "load64 (rf_mem s) b = h" using inv p(1) unfolding rf_inv_def by blast
  then have "page_ok (rf_mem s) ?pg fl (b # tf)"
    using ok f b(1,4) p(2) page_blocks_facts(1) [OF b(3,4)] by (auto simp: page_ok_def page_live_def)
  then show "page_ok (rf_mem (s\<lparr>rf_page := ?pg, rf_pc := (rf_pc s)(t := Idle)\<rparr>))
     (rf_page (s\<lparr>rf_page := ?pg, rf_pc := (rf_pc s)(t := Idle)\<rparr>)) fl (b # tf)" by simp
  have live: "page_live ?pg fl (b # tf) = page_live (rf_page s) fl tf - {b}"
    using f(2) by (auto simp: page_live_def)
  have other: "\<not> holds (rf_pc s t') b" if "t' \<noteq> t" for t' using inv b that unfolding rf_inv_def by auto
  show "holds (rf_pc (s\<lparr>rf_page := ?pg, rf_pc := (rf_pc s)(t := Idle)\<rparr>) t') c \<longleftrightarrow>
      c \<in> page_live (rf_page (s\<lparr>rf_page := ?pg, rf_pc := (rf_pc s)(t := Idle)\<rparr>)) fl (b # tf) \<and>
      loc c = InFlight t'" for t' c
  proof (cases "t' = t")
    case True
    have "c = b" if "c \<in> page_live (rf_page s) fl tf" "loc c = InFlight t"
      using inv that p(1) unfolding rf_inv_def by (metis holds.simps(3))
    then show ?thesis using True live by auto
  next
    case False
    then show ?thesis using inv live other [OF False] unfolding rf_inv_def by auto
  qed
qed (use inv p prepared_or_loaded(2) [OF inv disjI2 [OF p(1)]] in
  \<open>auto simp: rf_inv_def page_live_def page_blocks_def block_addr_def split: if_splits\<close>)

lemma exchange_inv:
  assumes inv: "rf_inv s fl tf wl loc" and o: "rf_owner s = OwnerIdle" and l: "pg_thread_free (rf_page s) = l"
  shows "rf_inv (s\<lparr>rf_page := (rf_page s)\<lparr>pg_thread_free := 0\<rparr>,
      rf_owner := (if l = 0 then OwnerIdle else Walking l l 1)\<rparr>) fl [] tf (\<lambda>b. if b \<in> set tf then Taken else loc b)"
proof (rule rf_invI)
  let ?pg = "(rf_page s)\<lparr>pg_thread_free := 0\<rparr>" and ?ow = "if l = 0 then OwnerIdle else Walking l l 1"
  have ok: "page_ok (rf_mem s) (rf_page s) fl tf" using inv by (simp add: rf_inv_def)
  have st: "page_static ?pg = page_static (rf_page s)" "pg_reserved ?pg = pg_reserved (rf_page s)"
    by (simp_all add: page_static_def)
  note f = page_ok_fields [OF ok st]
  show "page_ok (rf_mem (s\<lparr>rf_page := ?pg, rf_owner := ?ow\<rparr>)) (rf_page (s\<lparr>rf_page := ?pg, rf_owner := ?ow\<rparr>)) fl []"
    using ok f by (auto simp: page_ok_def)
  have wl: "wl = []" using inv o by (simp add: rf_inv_def owner_ok_def)
  have nt: "loc b \<noteq> Taken" if "b \<in> page_live (rf_page s) fl tf" for b
    using inv wl that unfolding rf_inv_def by auto
  have live: "page_live ?pg fl [] = page_live (rf_page s) fl tf \<union> set tf"
    using f(2) ok by (auto simp: page_live_def page_ok_def)
  have dj: "page_live (rf_page s) fl tf \<inter> set tf = {}" by (auto simp: page_live_def)
  show "holds (rf_pc (s\<lparr>rf_page := ?pg, rf_owner := ?ow\<rparr>) t) b \<longleftrightarrow>
      b \<in> page_live (rf_page (s\<lparr>rf_page := ?pg, rf_owner := ?ow\<rparr>)) fl [] \<and>
      (if b \<in> set tf then Taken else loc b) = InFlight t" for t b
    using inv live dj unfolding rf_inv_def by auto
  show "rf_live (s\<lparr>rf_page := ?pg, rf_owner := ?ow\<rparr>) =
     {b \<in> page_live (rf_page (s\<lparr>rf_page := ?pg, rf_owner := ?ow\<rparr>)) fl []. (if b \<in> set tf then Taken else loc b) = User}"
    using inv live dj unfolding rf_inv_def by auto
  show "set tf = {b \<in> page_live (rf_page (s\<lparr>rf_page := ?pg, rf_owner := ?ow\<rparr>)) fl [].
      (if b \<in> set tf then Taken else loc b) = Taken}"
    using live nt dj by auto
  have bl: "blist (rf_mem s) l tf" using ok l by (simp add: page_ok_def)
  show "owner_ok (rf_mem (s\<lparr>rf_page := ?pg, rf_owner := ?ow\<rparr>)) (rf_owner (s\<lparr>rf_page := ?pg, rf_owner := ?ow\<rparr>)) tf"
  proof (cases "l = 0")
    case True
    then show ?thesis using bl by (simp add: owner_ok_def)
  next
    case False
    then obtain ys where "tf = l # ys" using linked_start [OF bl] by blast
    then have "tf = [] @ l # ys" by simp
    then have "\<exists>us vs. tf = us @ l # vs \<and> (1 :: u32) = of_nat (Suc (length us))" by fastforce
    then show ?thesis using bl False by (simp add: owner_ok_def)
  qed
qed (use inv in \<open>auto simp: rf_inv_def\<close>)

lemma walk_inv:
  assumes inv: "rf_inv s fl tf wl loc" and o: "rf_owner s = Walking l tail n" "load64 (rf_mem s) tail \<noteq> 0"
  shows "rf_inv (s\<lparr>rf_owner := Walking l (load64 (rf_mem s) tail) (n + 1)\<rparr>) fl tf wl loc"
proof -
  obtain ys zs where w: "blist (rf_mem s) l wl" "wl = ys @ tail # zs" "n = of_nat (Suc (length ys))"
    using inv o(1) by (auto simp: rf_inv_def owner_ok_def)
  then have "blist (rf_mem s) (load64 (rf_mem s) tail) zs" by auto
  then obtain us where us: "zs = load64 (rf_mem s) tail # us" using linked_start [OF _ o(2)] by blast
  then have "wl = (ys @ [tail]) @ load64 (rf_mem s) tail # us" "n + 1 = of_nat (Suc (length (ys @ [tail])))"
    using w by simp_all
  then have "owner_ok (rf_mem s) (Walking l (load64 (rf_mem s) tail) (n + 1)) wl"
    unfolding owner_ok_def owner_pc.case using w(1) by blast
  then show ?thesis using inv by (simp add: rf_inv_def)
qed

lemma taken_bound:
  assumes inv: "rf_inv s fl tf wl loc" and w: "blist (rf_mem s) l wl"
  shows "length wl + length fl + length tf \<le> unat (pg_reserved (rf_page s))"
proof -
  have ok: "page_ok (rf_mem s) (rf_page s) fl tf" using inv by (simp add: rf_inv_def)
  have "card (set wl) \<le> card (page_live (rf_page s) fl tf)"
    using inv by (intro card_mono) (auto simp: page_live_def page_blocks_def rf_inv_def)
  then show ?thesis using page_ok_count(2) [OF ok] ok linked_distinct [OF w]
    by (simp add: distinct_card page_ok_def)
qed

lemma splice_inv:
  assumes inv: "rf_inv s fl tf wl loc" and o: "rf_owner s = Walking l tail n" "load64 (rf_mem s) tail = 0"
  shows "rf_inv (s\<lparr>rf_mem := store64 tail (pg_free (rf_page s)) (rf_mem s),
      rf_page := (rf_page s)\<lparr>pg_free := l, pg_used := pg_used (rf_page s) - n\<rparr>, rf_owner := OwnerIdle\<rparr>)
    (wl @ fl) tf [] loc"
proof (rule rf_invI)
  let ?m = "store64 tail (pg_free (rf_page s)) (rf_mem s)"
  let ?pg = "(rf_page s)\<lparr>pg_free := l, pg_used := pg_used (rf_page s) - n\<rparr>"
  let ?s = "s\<lparr>rf_mem := ?m, rf_page := ?pg, rf_owner := OwnerIdle\<rparr>"
  have ok: "page_ok (rf_mem s) (rf_page s) fl tf" using inv by (simp add: rf_inv_def)
  have g: "page_geometry (rf_page s)" using ok by (simp add: page_ok_def)
  obtain ys zs where w0: "blist (rf_mem s) l wl" "wl = ys @ tail # zs" "n = of_nat (Suc (length ys))"
    using inv o(1) by (auto simp: rf_inv_def owner_ok_def)
  then have "zs = []" using o(2) by auto
  then have w: "wl = ys @ [tail]" "n = of_nat (length wl)" using w0 by simp_all
  have wl: "set wl = {b \<in> page_live (rf_page s) fl tf. loc b = Taken}" using inv by (simp add: rf_inv_def)
  have tb: "tail \<in> page_blocks (rf_page s)" "tail \<notin> set fl" "tail \<notin> set tf"
    using wl w(1) by (auto simp: page_live_def)
  have fr: "page_frame (rf_page s) (page_blocks (rf_page s) - {tail}) (rf_mem s) ?m"
    by (rule frame_store [OF g tb(1)]) simp
  note len = taken_bound [OF inv w0(1)]
  have "blist ?m l (wl @ fl)"
    using linked_splice [OF w0(1) [unfolded w(1)], of "pg_free (rf_page s)" fl] ok tb wl w(1)
    by (subst blist_store [OF g tb(1)]) (auto simp: page_ok_def page_live_def)
  moreover have "blist ?m (pg_thread_free (rf_page s)) tf"
    using frame_linked [OF fr g, of tf] ok tb(3) by (auto simp: page_ok_def)
  moreover have "unat (pg_used (rf_page s) - n) = unat (pg_used (rf_page s)) - length wl"
    using len ok reserved_small(2) [OF g] w(2)
    by (subst unat_sub) (simp_all add: word_le_nat_alt unsigned_of_nat take_bit_nat_eq_self page_ok_def)
  moreover have st: "page_static ?pg = page_static (rf_page s)" "pg_reserved ?pg = pg_reserved (rf_page s)"
    by (simp_all add: page_static_def)
  note f = page_ok_fields [OF ok st]
  ultimately show "page_ok (rf_mem ?s) (rf_page ?s) (wl @ fl) tf"
    using ok f wl len by (auto simp: page_ok_def page_live_def)
  have live: "page_live ?pg (wl @ fl) tf = page_live (rf_page s) fl tf - set wl"
    using f(2) by (auto simp: page_live_def)
  show "load64 (rf_mem ?s) b = h" if "rf_pc ?s t = Prepared b h" for t b h
  proof -
    have p: "rf_pc s t = Prepared b h" using that by simp
    note b = prepared_or_loaded [OF inv disjI2 [OF p]]
    have "loc tail = Taken" using wl w(1) by auto
    then have "b \<in> page_blocks (rf_page s) - {tail}" using b by auto
    then have "load64 ?m b = load64 (rf_mem s) b" using frame_load [OF fr g] by blast
    then show ?thesis using inv p unfolding rf_inv_def by simp
  qed
  show "holds (rf_pc ?s t) b \<longleftrightarrow> b \<in> page_live (rf_page ?s) (wl @ fl) tf \<and> loc b = InFlight t" for t b
    using inv live wl unfolding rf_inv_def by auto
  show "rf_live ?s = {b \<in> page_live (rf_page ?s) (wl @ fl) tf. loc b = User}"
    using inv live wl unfolding rf_inv_def by auto
  show "set [] = {b \<in> page_live (rf_page ?s) (wl @ fl) tf. loc b = Taken}" using live wl by auto
qed (simp add: owner_ok_def)

lemma pop_inv:
  assumes inv: "rf_inv s fl tf wl loc" and o: "rf_owner s = OwnerIdle"
    and p: "page_pop (rf_page s) (rf_mem s) = Some (b, pg)"
  shows "rf_inv (s\<lparr>rf_page := pg, rf_live := insert b (rf_live s)\<rparr>) (tl fl) tf wl (loc(b := User))"
proof -
  let ?s = "s\<lparr>rf_page := pg, rf_live := insert b (rf_live s)\<rparr>"
  have ok: "page_ok (rf_mem s) (rf_page s) fl tf" using inv by (simp add: rf_inv_def)
  have "fl \<noteq> []" using p ok by (auto simp: page_pop_def Let_def page_ok_def)
  then obtain b' pg' fl' where q: "page_pop (rf_page s) (rf_mem s) = Some (b', pg')" "fl = b' # fl'"
    "page_ok (rf_mem s) pg' fl' tf" "b' \<notin> page_live (rf_page s) fl tf"
    "page_live pg' fl' tf = insert b' (page_live (rf_page s) fl tf)"
    by (rule pop_ok [OF ok])
  then have eq: "b' = b" "pg' = pg" "tl fl = fl'" using p by simp_all
  have "rf_inv ?s fl' tf wl (loc(b := User))"
  proof (rule rf_invI)
    show "page_ok (rf_mem ?s) (rf_page ?s) fl' tf" using q(3) eq by simp
  qed (use inv o q(4,5) eq in \<open>auto simp: rf_inv_def\<close>)
  then show ?thesis by (simp only: eq)
qed

lemma extend_inv:
  assumes inv: "rf_inv s fl tf wl loc" and o: "rf_owner s = OwnerIdle" and r: "pg_reserved (rf_page s) < pg_capacity (rf_page s)"
    and p: "page_extend (rf_page s) (rf_mem s) = Some (pg, m)"
  shows "\<exists>fl'. rf_inv (s\<lparr>rf_page := pg, rf_mem := m\<rparr>) fl' tf wl loc"
proof -
  let ?s = "s\<lparr>rf_page := pg, rf_mem := m\<rparr>"
  have ok: "page_ok (rf_mem s) (rf_page s) fl tf" using inv by (simp add: rf_inv_def)
  obtain pg' m' fl' where q: "page_extend (rf_page s) (rf_mem s) = Some (pg', m')" "page_ok m' pg' fl' tf"
    "page_live pg' fl' tf = page_live (rf_page s) fl tf"
    "page_frame (rf_page s) (page_live (rf_page s) fl tf) (rf_mem s) m'"
    by (rule extend_ok [OF ok r])
  then have eq: "pg' = pg" "m' = m" using p by simp_all
  note kept = rf_links_kept [OF inv q(4) Collect_restrict]
  have "rf_inv ?s fl' tf wl loc"
  proof (rule rf_invI)
    show "load64 (rf_mem ?s) b = h" if "rf_pc ?s t = Prepared b h" for t b h
      using kept(2) [of t b h] prepared_or_loaded(1) [OF inv, of t b h] that eq by simp
    show "owner_ok (rf_mem ?s) (rf_owner ?s) wl" using kept(1) eq by simp
  qed (use inv q(2,3) eq in \<open>auto simp: rf_inv_def\<close>)
  then show ?thesis by blast
qed

lemma owner_free_inv:
  assumes inv: "rf_inv s fl tf wl loc" and o: "rf_owner s = OwnerIdle" and b: "b \<in> rf_live s"
    and p: "page_free_local b (rf_page s) (rf_mem s) = (pg, m)"
  shows "rf_inv (s\<lparr>rf_page := pg, rf_mem := m, rf_live := rf_live s - {b}\<rparr>) (b # fl) tf wl loc"
proof (rule rf_invI)
  let ?s = "s\<lparr>rf_page := pg, rf_mem := m, rf_live := rf_live s - {b}\<rparr>"
  have ok: "page_ok (rf_mem s) (rf_page s) fl tf" using inv by (simp add: rf_inv_def)
  have bl: "b \<in> page_live (rf_page s) fl tf" "loc b = User" using inv b by (auto simp: rf_inv_def)
  note f = free_local_ok [OF ok bl(1) p]
  have "{c \<in> page_live (rf_page s) fl tf. loc c = Taken} \<subseteq> page_live (rf_page s) fl tf - {b}"
    using bl(2) by auto
  note kept = rf_links_kept [OF inv f(3) this]
  show "page_ok (rf_mem ?s) (rf_page ?s) (b # fl) tf" using f(1) by simp
  show "load64 (rf_mem ?s) c = h" if "rf_pc ?s t = Prepared c h" for t c h
  proof -
    have c: "rf_pc s t = Prepared c h" using that by simp
    have "c \<in> page_live (rf_page s) fl tf - {b}" using prepared_or_loaded(1,2) [OF inv disjI2 [OF c]] bl(2) by auto
    then show ?thesis using kept(2) [OF c] by simp
  qed
  show "owner_ok (rf_mem ?s) (rf_owner ?s) wl" using kept(1) by simp
  have no: "\<not> holds (rf_pc s t) b" for t using inv bl unfolding rf_inv_def by auto
  show "holds (rf_pc ?s t) c \<longleftrightarrow> c \<in> page_live (rf_page ?s) (b # fl) tf \<and> loc c = InFlight t" for t c
    using inv f(2) bl(2) unfolding rf_inv_def by auto
qed (use inv free_local_ok(2) [OF _ _ p, of fl tf] b in \<open>auto simp: rf_inv_def\<close>)

lemma user_store_inv:
  assumes inv: "rf_inv s fl tf wl loc" and b: "b \<in> rf_live s" "in_region b (ucast (pg_block_size (rf_page s))) x"
  shows "rf_inv (s\<lparr>rf_mem := (rf_mem s)(x := v)\<rparr>) fl tf wl loc"
proof (rule rf_invI)
  let ?s = "s\<lparr>rf_mem := (rf_mem s)(x := v)\<rparr>"
  have ok: "page_ok (rf_mem s) (rf_page s) fl tf" using inv by (simp add: rf_inv_def)
  have bl: "b \<in> page_live (rf_page s) fl tf" "loc b = User" using inv b by (auto simp: rf_inv_def)
  have fr: "page_frame (rf_page s) (page_blocks (rf_page s) - {b}) (rf_mem s) ((rf_mem s)(x := v))"
    by (rule user_write_frame [OF ok bl(1) b(2)])
  have "{c \<in> page_live (rf_page s) fl tf. loc c = Taken} \<subseteq> page_blocks (rf_page s) - {b}"
    using bl(2) by (auto simp: page_live_def)
  note kept = rf_links_kept [OF inv fr this]
  show "page_ok (rf_mem ?s) (rf_page ?s) fl tf" using user_write_ok [OF ok bl(1) b(2)] by simp
  show "load64 (rf_mem ?s) c = h" if "rf_pc ?s t = Prepared c h" for t c h
  proof -
    have c: "rf_pc s t = Prepared c h" using that by simp
    have "c \<in> page_blocks (rf_page s) - {b}" using prepared_or_loaded(2,4) [OF inv disjI2 [OF c]] bl(2) by auto
    then show ?thesis using kept(2) [OF c] by simp
  qed
  show "owner_ok (rf_mem ?s) (rf_owner ?s) wl" using kept(1) by simp
qed (use inv in \<open>auto simp: rf_inv_def\<close>)

lemma cas_failure_inv:
  assumes inv: "rf_inv s fl tf wl loc" and p: "rf_pc s t = Prepared b h"
  shows "rf_inv (s\<lparr>rf_pc := (rf_pc s)(t := Loaded b h')\<rparr>) fl tf wl loc"
proof -
  have "holds (((rf_pc s)(t := Loaded b h')) t') = holds (rf_pc s t')" for t'
    by (rule holds_upd) (simp add: fun_eq_iff p)
  then show ?thesis using inv by (auto simp: rf_inv_def simp del: fun_upd_apply) (metis fun_upd_apply pc.distinct(5))
qed

text \<open>What the owner has taken is its own: no other thread's step touches it.\<close>

lemma remote_step_inv:
  assumes "remote_step s s'" "rf_inv s fl tf wl loc"
  shows "rf_owner s' = rf_owner s \<and> (\<exists>tf loc. rf_inv s' fl tf wl loc)"
  using assms(1)
proof cases
  case load_head
  then show ?thesis using load_head_inv [OF assms(2)] by (auto simp del: fun_upd_apply) blast
next
  case link_block
  then show ?thesis using link_block_inv [OF assms(2)] by (auto simp del: fun_upd_apply) blast
next
  case cas_success
  then show ?thesis using cas_success_inv [OF assms(2)] by (auto simp del: fun_upd_apply) blast
next
  case cas_failure
  then show ?thesis using cas_failure_inv [OF assms(2)] by (auto simp del: fun_upd_apply) blast
qed

lemma collect_step_inv:
  assumes "collect_step s s'" "rf_inv s fl tf wl loc"
  shows "\<exists>fl tf wl loc. rf_inv s' fl tf wl loc"
  using assms(1)
proof cases
  case exchange
  then show ?thesis using exchange_inv [OF assms(2)] by blast
next
  case walk
  then show ?thesis using walk_inv [OF assms(2)] by blast
next
  case splice
  then show ?thesis using splice_inv [OF assms(2)] by blast
qed

lemma owner_step_inv:
  assumes "owner_step s s'" "rf_inv s fl tf wl loc"
  shows "\<exists>fl tf wl loc. rf_inv s' fl tf wl loc"
  using assms(1)
proof cases
  case pop
  then show ?thesis using pop_inv [OF assms(2)] by blast
next
  case extend
  then show ?thesis using extend_inv [OF assms(2)] by blast
next
  case owner_free
  then show ?thesis using owner_free_inv [OF assms(2)] by blast
qed

lemma rf_step_inv:
  assumes "rf_step s s'" "rf_inv s fl tf wl loc"
  shows "\<exists>fl tf wl loc. rf_inv s' fl tf wl loc"
  using assms(1)
proof cases
  case remote
  then show ?thesis using remote_step_inv [OF _ assms(2)] by blast
next
  case collect
  then show ?thesis using collect_step_inv [OF _ assms(2)] by blast
next
  case owner
  then show ?thesis using owner_step_inv [OF _ assms(2)] by blast
next
  case user_store
  then show ?thesis using user_store_inv [OF assms(2)] by blast
qed

lemma rf_reach_inv:
  assumes "rf_reach s"
  obtains fl tf wl loc where "rf_inv s fl tf wl loc"
proof -
  obtain pg m where s: "page_unused pg" "rf_step\<^sup>*\<^sup>* (rf_init pg m) s" using assms by (auto simp: rf_reach_def)
  have "page_live pg [] [] = {}" using s(1) by (simp add: page_live_def page_blocks_def page_unused_def)
  then have "rf_inv (rf_init pg m) [] [] [] (\<lambda>_. User)"
    using page_unused_ok [OF s(1)] by (simp add: rf_inv_def rf_init_def owner_ok_def)
  with s(2) have "\<exists>fl tf wl loc. rf_inv s fl tf wl loc"
    by (induction rule: rtranclp_induct) (blast intro: rf_step_inv)+
  then show ?thesis using that by blast
qed

section \<open>The owner's walk\<close>

text \<open>Left alone, the owner walks to the last block \<open>t\<close> of the list and splices it.\<close>

lemma walk_ends:
  "rf_owner s = Walking l tail n \<Longrightarrow> blist (rf_mem s) tail (xs @ [t]) \<Longrightarrow>
   (collect_step ^^ Suc (length xs)) s (s\<lparr>rf_mem := store64 t (pg_free (rf_page s)) (rf_mem s),
     rf_page := (rf_page s)\<lparr>pg_free := l, pg_used := pg_used (rf_page s) - (n + of_nat (length xs))\<rparr>,
     rf_owner := OwnerIdle\<rparr>)"
proof (induction xs arbitrary: s tail n)
  case Nil
  then show ?case using collect_step.splice [OF Nil(1)] by (auto simp: OO_def)
next
  case (Cons x xs)
  then have z: "tail = x" "load64 (rf_mem s) tail \<noteq> 0" by (cases xs; simp)+
  let ?s = "s\<lparr>rf_owner := Walking l (load64 (rf_mem s) tail) (n + 1)\<rparr>"
  have step: "collect_step s ?s" by (rule collect_step.walk [OF Cons.prems(1) z(2)])
  have "blist (rf_mem ?s) (load64 (rf_mem s) tail) (xs @ [t])" using Cons.prems(2) z(1) by simp
  from relpowp_Suc_I2 [where P = collect_step, OF step Cons.IH [OF _ this, where n = "n + 1"]]
  show ?case by (simp add: algebra_simps del: relpowp.simps)
qed

text \<open>Run without interference, the steps of \<open>page_collect\<close> are the sequential \<open>page_collect\<close>.\<close>

lemma collect_steps:
  assumes ok: "page_ok (rf_mem s) (rf_page s) fl tf" and o: "rf_owner s = OwnerIdle"
    and c: "page_collect (rf_page s) (rf_mem s) = Some (pg, m)"
  shows "collect_step\<^sup>*\<^sup>* s (s\<lparr>rf_page := pg, rf_mem := m\<rparr>)"
proof (cases tf rule: rev_cases)
  case Nil
  then have "pg_thread_free (rf_page s) = 0" using ok by (simp add: page_ok_def)
  then have "s\<lparr>rf_page := pg, rf_mem := m\<rparr> = s" using c by (auto simp: page_collect_def)
  then show ?thesis by simp
next
  case (snoc ts t)
  let ?l = "pg_thread_free (rf_page s)"
  have b: "blist (rf_mem s) ?l (ts @ [t])" using ok snoc by (simp add: page_ok_def)
  then have nz: "?l \<noteq> 0" by (cases ts) auto
  let ?s = "s\<lparr>rf_page := (rf_page s)\<lparr>pg_thread_free := 0\<rparr>, rf_owner := Walking ?l ?l 1\<rparr>"
  have 1: "collect_step s ?s" using collect_step.exchange [OF o refl] nz by simp
  have 2: "collect_step\<^sup>*\<^sup>* ?s (?s\<lparr>rf_mem := store64 t (pg_free (rf_page ?s)) (rf_mem ?s),
     rf_page := (rf_page ?s)\<lparr>pg_free := ?l, pg_used := pg_used (rf_page ?s) - (1 + of_nat (length ts))\<rparr>,
     rf_owner := OwnerIdle\<rparr>)" (is "collect_step\<^sup>*\<^sup>* _ ?r")
    by (rule relpowp_imp_rtranclp, rule walk_ends [where xs = ts]) (use b in \<open>auto simp del: append_Cons\<close>)
  have "?r = s\<lparr>rf_page := pg, rf_mem := m\<rparr>"
    using c nz find_tail_eq [OF b, of 1] o by (auto simp: page_collect_def Let_def)
  then show ?thesis using converse_rtranclp_into_rtranclp [OF 1 2] by simp
qed

text \<open>One step of anyone while the owner walks the list \<open>wl\<close>: a step of its own moves it one block
  on or ends the walk, any other step leaves it where it is.\<close>

definition walked :: "rf_state \<Rightarrow> addr \<Rightarrow> addr list \<Rightarrow> nat \<Rightarrow> bool" where
  "walked s l wl k \<longleftrightarrow> (\<exists>fl tf loc tail n. rf_inv s fl tf wl loc \<and> rf_owner s = Walking l tail n \<and>
     k < length wl \<and> wl ! k = tail)"

lemma walked_bound: "walked s l wl k \<Longrightarrow> k < length wl \<and> length wl \<le> unat (pg_reserved (rf_page s))"
proof -
  assume w: "walked s l wl k"
  then obtain fl tf loc tail n where inv: "rf_inv s fl tf wl loc" "rf_owner s = Walking l tail n"
    by (auto simp: walked_def)
  then have "blist (rf_mem s) l wl" by (simp add: rf_inv_def owner_ok_def)
  from taken_bound [OF inv(1) this] show ?thesis using w by (auto simp: walked_def)
qed

lemma walked_collect:
  assumes w: "walked s l wl k" and c: "collect_step s s'"
  shows "walked s' l wl (Suc k) \<or> rf_owner s' = OwnerIdle \<and> pg_free (rf_page s') = l"
  using c
proof cases
  case (walk l' tail n)
  obtain fl tf loc where inv: "rf_inv s fl tf wl loc" and k: "l' = l" "k < length wl" "wl ! k = tail"
    using w walk by (auto simp: walked_def)
  have b: "blist (rf_mem s) l wl" using inv walk(2) k(1) by (simp add: rf_inv_def owner_ok_def)
  have e: "wl = take k wl @ tail # drop (Suc k) wl" using id_take_nth_drop [OF k(2)] k(3) by simp
  then have "blist (rf_mem s) l (take k wl @ tail # drop (Suc k) wl)" using b by simp
  then have "blist (rf_mem s) (load64 (rf_mem s) tail) (drop (Suc k) wl)" by auto
  then obtain us where us: "drop (Suc k) wl = load64 (rf_mem s) tail # us" using linked_start [OF _ walk(3)] by blast
  then have "Suc k < length wl" by (metis drop_eq_Nil2 leI list.distinct(1))
  moreover from this have "wl ! Suc k = load64 (rf_mem s) tail" using us by (metis Cons_nth_drop_Suc list.inject)
  moreover have "rf_inv s' fl tf wl loc" using walk_inv [OF inv walk(2,3)] walk(1) by simp
  ultimately show ?thesis using walk k(1) unfolding walked_def by auto
qed (use w in \<open>auto simp: walked_def\<close>)

lemma walked_other:
  assumes w: "walked s l wl k" and st: "rf_step s s'" and c: "\<not> collect_step s s'"
  shows "walked s' l wl k"
proof -
  obtain fl tf loc tail n where inv: "rf_inv s fl tf wl loc" and o: "rf_owner s = Walking l tail n"
    and k: "k < length wl" "wl ! k = tail"
    using w by (auto simp: walked_def)
  have "rf_owner s' = rf_owner s \<and> (\<exists>fl tf loc. rf_inv s' fl tf wl loc)"
    using st
  proof cases
    case remote
    then show ?thesis using remote_step_inv [OF _ inv] by blast
  next
    case owner
    then show ?thesis using o by cases simp_all
  next
    case user_store
    then show ?thesis using user_store_inv [OF inv] by (auto simp del: fun_upd_apply) blast
  qed (use c in simp)
  then show ?thesis using o k unfolding walked_def by auto
qed

text \<open>However the steps interleave, the walk has moved as often as the owner has stepped.\<close>

lemma walk_progress:
  assumes w: "walked (\<sigma> 0) l wl k" and st: "\<forall>i<N. rf_step (\<sigma> i) (\<sigma> (Suc i))"
  shows "(\<exists>j\<le>N. rf_owner (\<sigma> j) = OwnerIdle \<and> pg_free (rf_page (\<sigma> j)) = l) \<or>
    walked (\<sigma> N) l wl (k + card {i. i < N \<and> collect_step (\<sigma> i) (\<sigma> (Suc i))})"
  using st
proof (induction N)
  case 0
  then show ?case using w by simp
next
  case (Suc N)
  let ?C = "\<lambda>N. {i. i < N \<and> collect_step (\<sigma> i) (\<sigma> (Suc i))}"
  have eq: "?C (Suc N) = (if collect_step (\<sigma> N) (\<sigma> (Suc N)) then insert N (?C N) else ?C N)"
    by (auto simp: less_Suc_eq)
  then have c: "card (?C (Suc N)) = (if collect_step (\<sigma> N) (\<sigma> (Suc N)) then Suc (card (?C N)) else card (?C N))"
    by simp
  have IH: "(\<exists>j\<le>N. rf_owner (\<sigma> j) = OwnerIdle \<and> pg_free (rf_page (\<sigma> j)) = l) \<or> walked (\<sigma> N) l wl (k + card (?C N))"
    by (rule Suc.IH) (use Suc.prems in simp)
  show ?case
  proof (cases "\<exists>j\<le>N. rf_owner (\<sigma> j) = OwnerIdle \<and> pg_free (rf_page (\<sigma> j)) = l")
    case True
    then show ?thesis using le_Suc_eq by blast
  next
    case False
    with IH have w: "walked (\<sigma> N) l wl (k + card (?C N))" by blast
    have s: "rf_step (\<sigma> N) (\<sigma> (Suc N))" using Suc.prems by simp
    show ?thesis
    proof (cases "collect_step (\<sigma> N) (\<sigma> (Suc N))")
      case True
      then show ?thesis using walked_collect [OF w True] unfolding c by auto
    next
      case False
      then show ?thesis using walked_other [OF w s False] unfolding c by auto
    qed
  qed
qed

lemma rf_reach_walked:
  assumes "rf_reach s" "rf_owner s = Walking l tail n"
  obtains wl k where "walked s l wl k" "blist (rf_mem s) tail (drop k wl)"
proof -
  obtain fl tf wl loc where inv: "rf_inv s fl tf wl loc" by (rule rf_reach_inv [OF assms(1)])
  then obtain ys zs where w: "blist (rf_mem s) l wl" "wl = ys @ tail # zs"
    using assms(2) by (auto simp: rf_inv_def owner_ok_def)
  then have "walked s l wl (length ys)" using inv assms(2) unfolding walked_def by fastforce
  moreover have "blist (rf_mem s) tail (drop (length ys) wl)" using w by auto
  ultimately show ?thesis by (rule that)
qed

lemma rf_reach_steps: "rf_reach s \<Longrightarrow> rf_step\<^sup>*\<^sup>* s s' \<Longrightarrow> rf_reach s'"
  unfolding rf_reach_def by (meson rtranclp_trans)

section \<open>Properties of the protocol\<close>

text \<open>C5: under any interleaving of freeing threads with the owner no block is lost or
  duplicated: every carved block is in exactly one of the owner's list, the shared list, the list
  the owner is collecting (the one linked from its local \<open>list\<close>; none outside \<open>page_collect\<close>), a
  user's hands or those of exactly one freeing thread; \<open>used\<close> counts all but the owner's list.\<close>

theorem remote_free_no_block_lost:
  assumes "rf_reach s"
  shows "\<exists>fl tf wl. blist (rf_mem s) (pg_free (rf_page s)) fl \<and> blist (rf_mem s) (pg_thread_free (rf_page s)) tf \<and>
    (rf_owner s = OwnerIdle \<longrightarrow> wl = []) \<and>
    (\<forall>l tail n. rf_owner s = Walking l tail n \<longrightarrow> blist (rf_mem s) l wl \<and> tail \<in> set wl) \<and>
    distinct (fl @ tf @ wl) \<and>
    page_blocks (rf_page s) = set fl \<union> set tf \<union> set wl \<union> rf_live s \<union> {b. \<exists>t. holds (rf_pc s t) b} \<and>
    rf_live s \<inter> (set fl \<union> set tf \<union> set wl) = {} \<and>
    (\<forall>t b. holds (rf_pc s t) b \<longrightarrow> b \<notin> rf_live s \<union> set fl \<union> set tf \<union> set wl) \<and>
    (\<forall>t u b. holds (rf_pc s t) b \<and> holds (rf_pc s u) b \<longrightarrow> t = u) \<and>
    unat (pg_used (rf_page s)) + length fl = unat (pg_reserved (rf_page s))"
proof -
  obtain fl tf wl loc where inv: "rf_inv s fl tf wl loc" by (rule rf_reach_inv [OF assms])
  let ?L = "page_live (rf_page s) fl tf"
  have ok: "page_ok (rf_mem s) (rf_page s) fl tf" and lv: "rf_live s = {b \<in> ?L. loc b = User}"
    and wl: "set wl = {b \<in> ?L. loc b = Taken}" and ow: "owner_ok (rf_mem s) (rf_owner s) wl"
    and h: "\<And>t b. holds (rf_pc s t) b \<longleftrightarrow> b \<in> ?L \<and> loc b = InFlight t"
    using inv by (auto simp: rf_inv_def)
  have dw: "distinct wl"
  proof (cases "rf_owner s")
    case (Walking l tail n)
    then have "blist (rf_mem s) l wl" using ow by (simp add: owner_ok_def)
    then show ?thesis by (rule linked_distinct)
  qed (use ow in \<open>simp add: owner_ok_def\<close>)
  have df: "distinct fl" "distinct tf" "set fl \<inter> set tf = {}" "set fl \<union> set tf \<subseteq> page_blocks (rf_page s)"
    using ok by (auto simp: page_ok_def linked_distinct)
  have L: "?L = page_blocks (rf_page s) - set fl - set tf" by (simp add: page_live_def)
  have "?L = set wl \<union> rf_live s \<union> {b. \<exists>t. holds (rf_pc s t) b}"
    unfolding wl lv h by (auto, metis place.exhaust)
  then have "page_blocks (rf_page s) = set fl \<union> set tf \<union> set wl \<union> rf_live s \<union> {b. \<exists>t. holds (rf_pc s t) b}"
    using L df(4) by blast
  moreover have "distinct (fl @ tf @ wl)" using df dw wl L by auto
  moreover have "rf_live s \<inter> (set fl \<union> set tf \<union> set wl) = {}" using lv wl L by auto
  moreover have "\<forall>t b. holds (rf_pc s t) b \<longrightarrow> b \<notin> rf_live s \<union> set fl \<union> set tf \<union> set wl"
    unfolding h lv wl L by auto
  moreover have "\<forall>t u b. holds (rf_pc s t) b \<and> holds (rf_pc s u) b \<longrightarrow> t = u" unfolding h by auto
  moreover have "rf_owner s = OwnerIdle \<longrightarrow> wl = []"
    "\<forall>l tail n. rf_owner s = Walking l tail n \<longrightarrow> blist (rf_mem s) l wl \<and> tail \<in> set wl"
    using ow by (auto simp: owner_ok_def)
  moreover have "blist (rf_mem s) (pg_free (rf_page s)) fl" "blist (rf_mem s) (pg_thread_free (rf_page s)) tf"
    "unat (pg_used (rf_page s)) + length fl = unat (pg_reserved (rf_page s))"
    using ok by (simp_all add: page_ok_def)
  ultimately show ?thesis by (intro exI conjI) assumption+
qed

text \<open>One block allocated, then caught between \<open>b->next = head\<close> and the compare-and-swap.\<close>

lemma sample_rf_reach:
  "rf_reach \<lparr>rf_page = sample_page\<lparr>pg_free := 0, pg_used := 1, pg_reserved := 1\<rparr>,
     rf_mem = store64 0x410000 0 (store64 0x410000 0 (\<lambda>_. 0)),
     rf_pc = (\<lambda>_. Idle)(7 := Prepared 0x410000 0), rf_owner = OwnerIdle, rf_live = {}\<rparr>"
proof -
  let ?m = "store64 0x410000 0 (\<lambda>_. 0)"
  have e: "page_extend sample_page (\<lambda>_. 0) =
      Some (sample_page\<lparr>pg_free := 0x410000, pg_reserved := 1\<rparr>, ?m)"
    by (simp add: page_extend_def sample_page_def Let_def)
  have 1: "rf_step (rf_init sample_page (\<lambda>_. 0))
      ((rf_init sample_page (\<lambda>_. 0))\<lparr>rf_page := sample_page\<lparr>pg_free := 0x410000, pg_reserved := 1\<rparr>, rf_mem := ?m\<rparr>)"
    (is "rf_step _ ?s1") by (rule rf_step.owner, rule owner_step.extend) (simp_all add: rf_init_def e, simp add: sample_page_def)
  have "rf_step ?s1 (?s1\<lparr>rf_page := sample_page\<lparr>pg_free := 0, pg_used := 1, pg_reserved := 1\<rparr>,
      rf_live := insert 0x410000 (rf_live ?s1)\<rparr>)" (is "rf_step _ ?s2")
    by (rule rf_step.owner, rule owner_step.pop) (simp_all add: rf_init_def page_pop_def Let_def, simp add: sample_page_def)
  moreover have "rf_step ?s2 (?s2\<lparr>rf_pc := (rf_pc ?s2)(7 := Loaded 0x410000 (pg_thread_free (rf_page ?s2))),
      rf_live := rf_live ?s2 - {0x410000}\<rparr>)" (is "rf_step _ ?s3")
    by (rule rf_step.remote, rule remote_step.load_head) (simp_all add: rf_init_def)
  moreover have "rf_step ?s3 (?s3\<lparr>rf_mem := store64 0x410000 0 (rf_mem ?s3), rf_pc := (rf_pc ?s3)(7 := Prepared 0x410000 0)\<rparr>)"
    (is "rf_step _ ?s4") by (rule rf_step.remote, rule remote_step.link_block) (simp add: sample_page_def)
  ultimately have "rf_step\<^sup>*\<^sup>* (rf_init sample_page (\<lambda>_. 0)) ?s4"
    using 1 by (meson converse_rtranclp_into_rtranclp r_into_rtranclp)
  moreover have "?s4 = \<lparr>rf_page = sample_page\<lparr>pg_free := 0, pg_used := 1, pg_reserved := 1\<rparr>,
     rf_mem = store64 0x410000 0 ?m, rf_pc = (\<lambda>_. Idle)(7 := Prepared 0x410000 0), rf_owner = OwnerIdle, rf_live = {}\<rparr>"
    by (simp add: rf_init_def)
  ultimately show ?thesis using sample_page_unused unfolding rf_reach_def by metis
qed

theorem remote_free_no_block_lost_witness:
  "\<exists>fl tf wl. blist (store64 0x410000 0 (store64 0x410000 0 (\<lambda>_. 0))) 0 fl \<and> distinct (fl @ tf @ wl) \<and> wl = [] \<and>
     0x410000 \<notin> set fl \<union> set tf \<union> set wl"
proof -
  let ?pc = "(\<lambda>_. Idle)(7 :: nat := Prepared 0x410000 0)"
  let ?s = "\<lparr>rf_page = sample_page\<lparr>pg_free := 0, pg_used := 1, pg_reserved := 1\<rparr>,
     rf_mem = store64 0x410000 0 (store64 0x410000 0 (\<lambda>_. 0)), rf_pc = ?pc, rf_owner = OwnerIdle, rf_live = {}\<rparr>"
  from remote_free_no_block_lost [OF sample_rf_reach] obtain fl tf wl where
    "blist (rf_mem ?s) (pg_free (rf_page ?s)) fl" "distinct (fl @ tf @ wl)" "rf_owner ?s = OwnerIdle \<longrightarrow> wl = []"
    "\<forall>t b. holds (rf_pc ?s t) b \<longrightarrow> b \<notin> rf_live ?s \<union> set fl \<union> set tf \<union> set wl"
    by blast
  then have r: "blist (store64 0x410000 0 (store64 0x410000 0 (\<lambda>_. 0))) 0 fl" "distinct (fl @ tf @ wl)"
      "\<forall>t b. holds (?pc t) b \<longrightarrow> b \<notin> {} \<union> set fl \<union> set tf \<union> set wl" "wl = []"
    by (simp_all del: fun_upd_apply)
  have "holds (((\<lambda>_. Idle)(7 :: nat := Prepared 0x410000 0)) 7) 0x410000" by simp
  then have "0x410000 \<notin> {} \<union> set fl \<union> set tf \<union> set wl" using r(3) by blast
  then show ?thesis using r(1,2,4) by blast
qed

text \<open>The freeing thread's compare-and-swap succeeds: the block is on the shared list.\<close>

lemma sample_rf_freed:
  "rf_reach \<lparr>rf_page = sample_page\<lparr>pg_free := 0, pg_used := 1, pg_reserved := 1, pg_thread_free := 0x410000\<rparr>,
     rf_mem = store64 0x410000 0 (store64 0x410000 0 (\<lambda>_. 0)),
     rf_pc = (\<lambda>_. Idle), rf_owner = OwnerIdle, rf_live = {}\<rparr>"
proof -
  let ?s = "\<lparr>rf_page = sample_page\<lparr>pg_free := 0, pg_used := 1, pg_reserved := 1\<rparr>,
     rf_mem = store64 0x410000 0 (store64 0x410000 0 (\<lambda>_. 0)),
     rf_pc = (\<lambda>_. Idle)(7 := Prepared 0x410000 0), rf_owner = OwnerIdle, rf_live = {}\<rparr>"
  have "rf_step ?s (?s\<lparr>rf_page := (rf_page ?s)\<lparr>pg_thread_free := 0x410000\<rparr>, rf_pc := (rf_pc ?s)(7 := Idle)\<rparr>)"
    by (rule rf_step.remote, rule remote_step.cas_success) (simp_all add: sample_page_def)
  from rf_reach_steps [OF sample_rf_reach r_into_rtranclp [of rf_step, OF this]] show ?thesis
    by (simp add: fun_upd_idem)
qed

text \<open>C26: when no thread is inside a free and the owner is not collecting, the page is one the
  sequential operations know: its two lists are well formed and the blocks on neither are those in
  users' hands. The sequential \<open>page_collect\<close> returns, is exactly what the owner's atomic steps
  compute, puts the shared list in front of the old free list with no block lost, and leaves
  \<open>used\<close> at the number of blocks in users' hands.\<close>

theorem remote_free_quiescent:
  assumes "rf_reach s" "\<forall>t. rf_pc s t = Idle" "rf_owner s = OwnerIdle"
  shows "\<exists>fl tf pg m. page_ok (rf_mem s) (rf_page s) fl tf \<and> page_live (rf_page s) fl tf = rf_live s \<and>
    page_collect (rf_page s) (rf_mem s) = Some (pg, m) \<and>
    collect_step\<^sup>*\<^sup>* s (s\<lparr>rf_page := pg, rf_mem := m\<rparr>) \<and>
    page_ok m pg (tf @ fl) [] \<and> page_live pg (tf @ fl) [] = rf_live s \<and> unat (pg_used pg) = card (rf_live s)"
proof -
  obtain fl tf wl loc where inv: "rf_inv s fl tf wl loc" by (rule rf_reach_inv [OF assms(1)])
  let ?L = "page_live (rf_page s) fl tf"
  have ok: "page_ok (rf_mem s) (rf_page s) fl tf" using inv by (simp add: rf_inv_def)
  have "wl = []" using inv assms(3) by (simp add: rf_inv_def owner_ok_def)
  then have "loc b \<noteq> Taken" if "b \<in> ?L" for b using inv that unfolding rf_inv_def by auto
  moreover have "loc b \<noteq> InFlight t" if "b \<in> ?L" for b t
    using inv assms(2) that unfolding rf_inv_def by (metis holds.simps(1))
  ultimately have "loc b = User" if "b \<in> ?L" for b using that by (cases "loc b") auto
  then have live: "rf_live s = ?L" using inv unfolding rf_inv_def by auto
  obtain pg m where c: "page_collect (rf_page s) (rf_mem s) = Some (pg, m)" "page_ok m pg (tf @ fl) []"
    "page_live pg (tf @ fl) [] = ?L"
    by (rule collect_ok [OF ok])
  have "unat (pg_used pg) = card ?L" using page_ok_count(2) [OF c(2)] c(3) by simp
  then show ?thesis using ok c live collect_steps [OF ok assms(3) c(1)]
    by (intro exI [of _ fl] exI [of _ tf] exI [of _ pg] exI [of _ m]) simp
qed

theorem remote_free_quiescent_witness:
  "\<exists>pg m. page_collect (sample_page\<lparr>pg_free := 0, pg_used := 1, pg_reserved := 1, pg_thread_free := 0x410000\<rparr>)
       (store64 0x410000 0 (store64 0x410000 0 (\<lambda>_. 0))) = Some (pg, m) \<and>
     unat (pg_used pg) = 0 \<and> (\<exists>fl. page_ok m pg fl [] \<and> 0x410000 \<in> set fl)"
proof -
  let ?m = "store64 0x410000 0 (store64 0x410000 0 (\<lambda>_. 0))"
  let ?pg = "sample_page\<lparr>pg_free := 0, pg_used := 1, pg_reserved := 1, pg_thread_free := 0x410000\<rparr>"
  let ?s = "\<lparr>rf_page = ?pg, rf_mem = ?m, rf_pc = (\<lambda>_. Idle), rf_owner = OwnerIdle, rf_live = {}\<rparr>"
  have "\<forall>t. rf_pc ?s t = Idle" "rf_owner ?s = OwnerIdle" by simp_all
  from remote_free_quiescent [OF sample_rf_freed this] obtain fl tf pg m where
    "page_ok (rf_mem ?s) (rf_page ?s) fl tf" "page_collect (rf_page ?s) (rf_mem ?s) = Some (pg, m)"
    "page_ok m pg (tf @ fl) []" "unat (pg_used pg) = card (rf_live ?s)" by (elim exE conjE)
  then have r: "page_ok ?m ?pg fl tf" "page_collect ?pg ?m = Some (pg, m)" "page_ok m pg (tf @ fl) []" "unat (pg_used pg) = 0"
    by (simp_all only: rf_state.simps card.empty)
  have "blist ?m (pg_thread_free ?pg) tf" using r(1) unfolding page_ok_def by blast
  moreover have "pg_thread_free ?pg = 0x410000" "(0x410000 :: addr) \<noteq> 0" by simp_all
  ultimately obtain ys where "tf = 0x410000 # ys" using linked_start by metis
  then have "0x410000 \<in> set (tf @ fl)" by simp
  then show ?thesis using r(2-4) by (intro exI conjI)
qed

text \<open>C40: the owner's collection always ends. Alone, it ends within as many of its own steps as
  the page has carved blocks, with the taken list spliced in front and nothing else disturbed. And
  however its steps interleave with those of any number of freeing threads and users, a run in
  which it takes that many steps has reached the end.\<close>

theorem remote_free_collect_ends:
  assumes "rf_reach s" "rf_owner s = Walking l tail n"
  shows "(\<exists>k\<le>unat (pg_reserved (rf_page s)). \<exists>s'. (collect_step ^^ k) s s' \<and> rf_owner s' = OwnerIdle \<and>
      pg_free (rf_page s') = l \<and> rf_pc s' = rf_pc s \<and> rf_live s' = rf_live s) \<and>
    (\<forall>\<sigma> N. \<sigma> 0 = s \<and> (\<forall>i<N. rf_step (\<sigma> i) (\<sigma> (Suc i))) \<and>
        unat (pg_reserved (rf_page s)) \<le> card {i. i < N \<and> collect_step (\<sigma> i) (\<sigma> (Suc i))} \<longrightarrow>
      (\<exists>j\<le>N. rf_owner (\<sigma> j) = OwnerIdle \<and> pg_free (rf_page (\<sigma> j)) = l))"
proof (intro conjI allI impI)
  obtain wl k where w: "walked s l wl k" "blist (rf_mem s) tail (drop k wl)" by (rule rf_reach_walked [OF assms])
  note b = walked_bound [OF w(1)]
  then have "drop k wl \<noteq> []" by simp
  then obtain xs t where x: "drop k wl = xs @ [t]" by (meson rev_exhaust)
  have "length (drop k wl) \<le> unat (pg_reserved (rf_page s))" using b by (simp add: le_diff_conv)
  then have "Suc (length xs) \<le> unat (pg_reserved (rf_page s))" unfolding x by simp
  with walk_ends [OF assms(2) w(2) [unfolded x]]
  show "\<exists>k\<le>unat (pg_reserved (rf_page s)). \<exists>s'. (collect_step ^^ k) s s' \<and> rf_owner s' = OwnerIdle \<and>
      pg_free (rf_page s') = l \<and> rf_pc s' = rf_pc s \<and> rf_live s' = rf_live s"
    by (intro exI [of _ "Suc (length xs)"] conjI) (assumption, rule exI, rule conjI, assumption, simp)
  fix \<sigma> N
  assume \<sigma>: "\<sigma> 0 = s \<and> (\<forall>i<N. rf_step (\<sigma> i) (\<sigma> (Suc i))) \<and>
    unat (pg_reserved (rf_page s)) \<le> card {i. i < N \<and> collect_step (\<sigma> i) (\<sigma> (Suc i))}"
  let ?c = "card {i. i < N \<and> collect_step (\<sigma> i) (\<sigma> (Suc i))}"
  have "length wl \<le> k + ?c" using b \<sigma> by linarith
  then have "\<not> walked (\<sigma> N) l wl (k + ?c)" using walked_bound by (meson not_less)
  then show "\<exists>j\<le>N. rf_owner (\<sigma> j) = OwnerIdle \<and> pg_free (rf_page (\<sigma> j)) = l"
    using walk_progress [of \<sigma> l wl k N] w(1) \<sigma> by blast
qed

text \<open>The owner has just taken the block with its exchange.\<close>

lemma sample_rf_walking:
  "rf_reach \<lparr>rf_page = sample_page\<lparr>pg_free := 0, pg_used := 1, pg_reserved := 1, pg_thread_free := 0\<rparr>,
     rf_mem = store64 0x410000 0 (store64 0x410000 0 (\<lambda>_. 0)),
     rf_pc = (\<lambda>_. Idle), rf_owner = Walking 0x410000 0x410000 1, rf_live = {}\<rparr>"
proof -
  let ?s = "\<lparr>rf_page = sample_page\<lparr>pg_free := 0, pg_used := 1, pg_reserved := 1, pg_thread_free := 0x410000\<rparr>,
     rf_mem = store64 0x410000 0 (store64 0x410000 0 (\<lambda>_. 0)),
     rf_pc = (\<lambda>_. Idle), rf_owner = OwnerIdle, rf_live = {}\<rparr>"
  have "rf_step ?s (?s\<lparr>rf_page := (rf_page ?s)\<lparr>pg_thread_free := 0\<rparr>,
      rf_owner := (if (0x410000 :: addr) = 0 then OwnerIdle else Walking 0x410000 0x410000 1)\<rparr>)"
    by (rule rf_step.collect, rule collect_step.exchange) simp_all
  from rf_reach_steps [OF sample_rf_freed r_into_rtranclp [of rf_step, OF this]] show ?thesis by simp
qed

theorem remote_free_collect_ends_witness:
  "\<exists>k\<le>1. \<exists>s'. (collect_step ^^ k) \<lparr>rf_page = sample_page\<lparr>pg_free := 0, pg_used := 1, pg_reserved := 1, pg_thread_free := 0\<rparr>,
     rf_mem = store64 0x410000 0 (store64 0x410000 0 (\<lambda>_. 0)),
     rf_pc = (\<lambda>_. Idle), rf_owner = Walking 0x410000 0x410000 1, rf_live = {}\<rparr> s' \<and>
     rf_owner s' = OwnerIdle \<and> pg_free (rf_page s') = 0x410000"
proof -
  let ?s = "\<lparr>rf_page = sample_page\<lparr>pg_free := 0, pg_used := 1, pg_reserved := 1, pg_thread_free := 0\<rparr>,
     rf_mem = store64 0x410000 0 (store64 0x410000 0 (\<lambda>_. 0)),
     rf_pc = (\<lambda>_. Idle), rf_owner = Walking 0x410000 0x410000 1, rf_live = {}\<rparr>"
  have o: "rf_owner ?s = Walking 0x410000 0x410000 1" by simp
  have e: "unat (pg_reserved (rf_page ?s)) = 1" by simp
  from conjunct1 [OF remote_free_collect_ends [OF sample_rf_walking o], unfolded e]
  show ?thesis by (elim exE conjE) (intro exI conjI, assumption+)
qed

end
