(* ===== verification/Spec2Isabelle.thy ===== *)
theory Spec2Isabelle
  imports Override_Correct Remote_Free
begin

text \<open>
  Verification of hmalloc, a thread-caching allocator in C++ (src/).

  \<^bold>\<open>The program.\<close> Small requests (up to 16 KiB) are rounded to one of 36 size classes
  (src/src/size_class.h). Memory comes from the OS in 4 MiB segments aligned to their size
  (src/src/os.cpp, src/src/segment.h), cut into 64 pages of 64 KiB; page 0 holds the header. A page
  serves one class. The central heap (src/src/central.cpp) owns the segments, hands pages to
  the per-thread heaps (src/src/heap.h, src/src/heap.cpp), takes back empty pages, keeps the
  pages of exited threads until their blocks are freed, and unmaps segments that are wholly
  free but for one it caches. A thread allocates from the free list of its page; it frees its
  own blocks there and pushes the blocks of other threads on the atomic \<open>thread_free\<close> list of
  their page. Larger requests get a region of their own (src/src/hmalloc.cpp). Every region is
  recorded in a hash set (src/src/region_registry.cpp), which only the malloc replacement
  (src/src/override.cpp) reads, to tell hmalloc's pointers from others.

  \<^bold>\<open>The theories and what they model.\<close>
  \<^item> \<open>Prelude\<close>: shared facts on words, memory cells, options and runs of operations.
    \<open>Constants\<close>: src/src/constants.h.
  \<^item> \<open>Size_Class\<close>: \<open>build_size_classes\<close>, \<open>size_class\<close>, \<open>class_to_size\<close>, \<open>size_class_round\<close>.
    The table lookup is the linear search for the least fitting class.
  \<^item> \<open>OS_Layer\<close>: \<open>os_alloc_aligned\<close>, \<open>os_free\<close>, \<open>os_purge\<close>, \<open>os_stats\<close>. The kernel calls are a
    parameter, a record of functions of the call number and of what is mapped; \<open>kernel_ok\<close> states
    the documented behaviour the code relies on. The locale \<open>region_source\<close> is the contract
    towards the layers above and is interpreted on the layer.
  \<^item> \<open>Region_Registry\<close>: \<open>region_register\<close>, \<open>region_unregister\<close>, \<open>region_owns\<close> with growth and
    tombstones; the locale \<open>ownership\<close> is its contract, a set of bases.
  \<^item> \<open>Segment\<close>: the headers and the recovery of segment and page from a pointer.
  \<^item> \<open>Linked_Lists\<close>: singly and doubly linked lists. \<open>Page_Ops\<close>: the operations on one page
    (\<open>page_collect\<close>, \<open>page_extend\<close>, pop, local and remote free) on byte memory: the link of a
    free block is stored in the block.
  \<^item> \<open>Remote_Free\<close>: \<open>heap_free_remote\<close> (\<open>remote_step\<close>) and \<open>page_collect\<close> (\<open>collect_step\<close>) as atomic
    steps of any number of threads, in any interleaving with the owner's other operations and with
    client writes: no block is lost, the collection ends under every interleaving, and run alone
    its steps compute the sequential \<open>page_collect\<close>.
  \<^item> \<open>Allocator_State\<close>: the whole state. \<open>Central\<close>, \<open>Thread_Heap\<close>, \<open>HMalloc\<close>, \<open>Override\<close>: every
    operation of central.cpp, heap.h and heap.cpp, hmalloc.cpp and override.cpp, as functions on
    that state; \<open>None\<close> is a null or dangling dereference or a loop that does not end.
  \<^item> \<open>Central_Lists\<close>, \<open>Central_Inv\<close>, \<open>Central_Correct\<close>: the invariant of the central heap and that
    its operations return and keep it. A ghost record names the list of segments, the pool of
    each, the abandoned pages and the pages handed out; together they partition all pages. The
    locale \<open>page_source\<close> is the contract towards the heaps.
  \<^item> \<open>Heap_Inv\<close>, \<open>Heap_Correct\<close>, \<open>Heap_Malloc\<close>, \<open>Heap_Free\<close>: the same for the thread heaps, for
    allocation, free and thread exit; the live small blocks are those of the used pages that
    are on no free list. \<open>Large_Correct\<close>: the same for large allocations.
  \<^item> \<open>HM_Correct\<close>: each API call against the set of live blocks; the locale \<open>block_holder\<close> is what
    a client relies on. \<open>HM_Runs\<close>: runs of any calls of any threads. \<open>HM_Stats\<close>: the pages and
    live blocks read off a state, by walking its lists (\<open>heap_pages\<close>, \<open>pool_pages\<close>,
    \<open>abandoned_pages\<close>, \<open>live_blocks\<close>; the set a run tracks is exactly the last one), the counters,
    acquiring and releasing a page and the sweep. \<open>Override_Correct\<close>: which pointers the replacement takes.

  \<^bold>\<open>State.\<close> \<open>State\<close> holds the OS with its byte memory, the registry, the region headers by base
  address, the page descriptors by segment and index, the central heap's fields, the heaps and
  the thread-local heap of each thread. Headers, descriptors and heaps are typed objects apart
  from the bytes; that blocks keep clear of the header before them is stated with its size
  (\<open>live_block_kind\<close>); free-list links, \<open>memset\<close>, \<open>memcpy\<close> and client data are bytes. Integers
  keep their width and wrap around. Calls by different threads interleave as whole calls,
  which the locks of the central heap and the registry and the thread-local fast path give;
  the one lock-free structure is the subject of \<open>Remote_Free\<close>.

  \<^bold>\<open>What is shown.\<close> This theory states the properties that span the components, for every state
  a run can reach (\<open>hm_run\<close>): each call returns, what it returns, and that no live block loses a
  byte; that live blocks are disjoint and mapped; that thread exit loses nothing and abandoned
  pages come back; that the counters are exact. The properties of one component stand in its
  theory. Two preconditions are explicit. \<open>roomy\<close> and \<open>slack\<close>: the registry has one or two empty
  slots left, which holds as long as the OS grants its tables; without it a probe loop need not
  end, as \<open>registry_full_never_returns\<close> shows. \<open>hm_ready\<close>: the thread has a heap or can get one;
  without it the code dereferences null, as \<open>hm_malloc_null_heap\<close> shows. A null result is
  explained by \<open>seg_refused\<close> or \<open>large_refused\<close>: the kernel refuses the region with no more mapped
  than before the call, the call itself having unmapped at most what it swept.

  \<^bold>\<open>Loops and bounds.\<close> No fuel is used. Loops whose end depends on the state are
  \<open>partial_function (option)\<close>, and the lemmas show that they return; counting loops are
  structural or have a termination proof. The constants are those of the code.

  \<^bold>\<open>Not modelled.\<close> The counters of the \<open>HMALLOC_STATS\<close> build, which is off by default; weak memory
  orderings (the protocol is sequentially consistent here); the Mach-O interposition table of
  override.cpp, whose entries have the bodies of the ELF ones; the next allocator, which is a
  parameter. The tests and the benchmark (src/tests, src/bench) exercise and time the allocator
  and are not part of it.
\<close>

section \<open>Allocation and release\<close>

text \<open>C1: in every state a run of API calls can reach, \<open>hm_malloc\<close> returns. A null result means that
  the request was empty or the kernel refused a segment or a region; any other result is a
  16-byte aligned block of at least the requested size, in mapped memory, disjoint from every
  live block. The live blocks keep their sizes and all their bytes.\<close>

theorem hm_malloc_correct:
  assumes "hm_run K st L" "can_call K t sz st"
  shows "\<exists>p st'. hm_malloc K t sz st = Some (p, st') \<and> undisturbed L st st' \<and>
    (if p = 0 then malloc_refused K t sz st else fresh_block 16 sz p L st') \<and> hm_run K st' (with_block p st' L)"
proof -
  obtain p st' L' where 1: "hm_malloc K t sz st = Some (p, st')" "alloc_post K 16 sz st L p st' L'" "p = 0 \<longrightarrow> malloc_refused K t sz st"
    using hm_malloc_post [OF hm_run_inv [OF assms(1)] assms(2)] by blast
  then show ?thesis using alloc_post_client [OF 1(2)] hm_run.malloc [OF assms 1(1)]
    by (intro exI [of _ p] exI [of _ st']) simp
qed

theorem hm_malloc_correct_witness:
  "hm_run steady_kernel (init_state sample_os) {} \<and> can_call steady_kernel 0 24 (init_state sample_os) \<and>
   (\<exists>p st'. hm_malloc steady_kernel 0 24 (init_state sample_os) = Some (p, st') \<and> p \<noteq> 0 \<and> fresh_block 16 24 p {} st')"
  using hm_malloc_correct [OF steady_start steady_can_call, of 24] steady_start steady_can_call steady_not_refused(1)
  by (auto split: if_splits)

text \<open>C2: any thread can free any live block, small or large, whichever thread allocated it: \<open>hm_free\<close>
  returns, and of the blocks the state holds out, as its page lists, block lists and large headers
  have them, exactly that one is taken back. Every other live block keeps its size and bytes, and
  nothing new is mapped.\<close>

theorem hm_free_correct:
  assumes "hm_run K st L" "roomy (st_registry st)" "(p, n) \<in> L"
  shows "\<exists>st'. hm_free K t p st = Some st' \<and> live_blocks st = L \<and> live_blocks st' = L - {(p, n)} \<and>
    undisturbed (L - {(p, n)}) st st' \<and> roomy (st_registry st') \<and>
    (\<forall>x. mapped (st_os st') x \<longrightarrow> mapped (st_os st) x) \<and> hm_run K st' (L - {(p, n)})"
proof -
  obtain st' where 1: "hm_free K t p st = Some st'" "hm_inv K st' (L - {(p, n)})" "same_on (L - {(p, n)}) (st_mem st) (st_mem st')" "reg_frame st st'"
    using hm_free_post [OF hm_run_inv [OF assms(1)] assms(2,3), of t] by blast
  have "undisturbed (L - {(p, n)}) st st'" by (rule undisturbedI [OF 1(2) order_refl 1(3)])
  moreover have "hm_run K st' (L - {(p, n)})" by (rule hm_run.free [OF assms 1(1)])
  ultimately show ?thesis using 1(1,4) assms(2) live_blocks_eq [OF hm_run_inv [OF assms(1)]] live_blocks_eq [OF 1(2)]
    by (auto simp: reg_frame_def no_new_map_def)
qed

theorem hm_free_correct_witness:
  "\<exists>p st st'. hm_malloc steady_kernel 0 24 (init_state sample_os) = Some (p, st) \<and> p \<noteq> 0 \<and>
     live_blocks st = {(p, usable p st)} \<and> hm_free steady_kernel 7 p st = Some st' \<and> live_blocks st' = {}"
proof -
  obtain p st where s: "hm_malloc steady_kernel 0 24 (init_state sample_os) = Some (p, st)" "p \<noteq> 0" "hm_run steady_kernel st {(p, usable p st)}"
    "roomy (st_registry st)" "24 \<le> usable p st" by (rule steady_small)
  from hm_free_correct [OF s(3,4), of p "usable p st" 7] s(1,2) show ?thesis by auto
qed

text \<open>C3: in every reachable state the live blocks are pairwise disjoint; each is a non-empty,
  16-byte aligned piece of mapped memory that does not wrap around, and \<open>hm_usable_size\<close> returns
  its size.\<close>

theorem live_blocks_disjoint:
  assumes "hm_run K st L"
  shows "(\<forall>b \<in> L. \<forall>d \<in> L. b \<noteq> d \<longrightarrow> region_set b \<inter> region_set d = {}) \<and>
    (\<forall>(p, n) \<in> L. p \<noteq> 0 \<and> n \<noteq> 0 \<and> 16 dvd unat p \<and> unat p + unat n < 2 ^ 64 \<and> hm_usable_size p st = Some n \<and>
       (\<forall>x \<in> region_set (p, n). mapped (st_os st) x))"
proof (intro conjI ballI impI)
  note i = hm_run_inv [OF assms]
  show "region_set b \<inter> region_set d = {}" if "b \<in> L" "d \<in> L" "b \<noteq> d" for b d by (rule live_disjoint [OF i that])
  fix b assume b: "b \<in> L"
  obtain p n where pn: "b = (p, n)" by (cases b)
  note f = live_facts [OF i b [unfolded pn]]
  have "\<forall>x \<in> region_set (p, n). mapped (st_os st) x" using live_mapped [OF i b] pn by simp
  then show "case b of (p, n) \<Rightarrow> p \<noteq> 0 \<and> n \<noteq> 0 \<and> 16 dvd unat p \<and> unat p + unat n < 2 ^ 64 \<and> hm_usable_size p st = Some n \<and>
       (\<forall>x \<in> region_set (p, n). mapped (st_os st) x)" using f pn by simp
qed

theorem live_blocks_disjoint_witness:
  "\<exists>p st. hm_malloc steady_kernel 0 24 (init_state sample_os) = Some (p, st) \<and>
     16 dvd unat p \<and> mapped (st_os st) p \<and> (\<exists>n \<ge> 24. hm_usable_size p st = Some n)"
proof -
  obtain p st where s: "hm_malloc steady_kernel 0 24 (init_state sample_os) = Some (p, st)" "p \<noteq> 0" "hm_run steady_kernel st {(p, usable p st)}"
    "roomy (st_registry st)" "24 \<le> usable p st" by (rule steady_small)
  from live_blocks_disjoint [OF s(3)] s(1,5) region_set_nonempty [of "usable p st" p] show ?thesis by auto
qed

text \<open>C4: \<open>hm_realloc\<close> of a live block returns. Shrunk, grown, in place or moved, the result is a block
  of at least the new size whose first bytes, up to the smaller of the two sizes, are those of the
  old block; all other live blocks are untouched. A null result frees the block when the new size
  is zero, and otherwise leaves it live with all its bytes.\<close>

theorem hm_realloc_correct:
  assumes "hm_run K st L" "slack (st_registry st)" "can_call K t sz st" "(p, n) \<in> L"
  shows "\<exists>q st'. hm_realloc K t p sz st = Some (q, st') \<and> undisturbed (L - {(p, n)}) st st' \<and>
    (if q = 0 then malloc_refused K t sz st \<and> (sz \<noteq> 0 \<longrightarrow> undisturbed L st st')
     else fresh_block 16 sz q (L - {(p, n)}) st' \<and> (\<forall>i. i < sz \<longrightarrow> i < n \<longrightarrow> st_mem st' (q + i) = st_mem st (p + i))) \<and>
    hm_run K st' (if q = 0 \<and> sz \<noteq> 0 then L else with_block q st' (L - {(p, n)}))"
proof -
  obtain q st' L' where 1: "hm_realloc K t p sz st = Some (q, st')" "realloc_post K p n sz st L q st' L'" "q = 0 \<longrightarrow> malloc_refused K t sz st"
    using hm_realloc_post [OF hm_run_inv [OF assms(1)] assms(2-4)] by blast
  have "q \<noteq> 0 \<Longrightarrow> \<forall>i. i < sz \<longrightarrow> i < n \<longrightarrow> st_mem st' (q + i) = st_mem st (p + i)" using 1(2) by (auto simp: realloc_post_def)
  moreover have "hm_run K st' (if q = 0 \<and> sz \<noteq> 0 then L else with_block q st' (L - {(p, n)}))"
    by (rule hm_run.realloc [OF assms(1,3,2,4) 1(1)])
  ultimately show ?thesis using 1(1,3) realloc_post_client [OF 1(2)] by (intro exI [of _ q] exI [of _ st']) simp
qed

theorem hm_realloc_correct_witness:
  "\<exists>p st q st'. hm_malloc steady_kernel 0 100000 (init_state sample_os) = Some (p, st) \<and> p \<noteq> 0 \<and>
     hm_realloc steady_kernel 3 p 200000 st = Some (q, st') \<and>
     (\<forall>i < 100000. (q = 0 \<longrightarrow> st_mem st' (p + i) = st_mem st (p + i)) \<and> (q \<noteq> 0 \<longrightarrow> st_mem st' (q + i) = st_mem st (p + i)))"
proof -
  obtain p st where s: "hm_malloc steady_kernel 0 100000 (init_state sample_os) = Some (p, st)" "p \<noteq> 0" "hm_run steady_kernel st {(p, usable p st)}"
    "slack (st_registry st)" "100000 \<le> usable p st" "reg_exact st" by (rule steady_large)
  have c: "can_call steady_kernel 3 200000 st" using slack_roomy [OF s(4)] by (simp add: can_call_def)
  obtain q st' where r: "hm_realloc steady_kernel 3 p 200000 st = Some (q, st')" "q = 0 \<longrightarrow> undisturbed {(p, usable p st)} st st'"
    "q \<noteq> 0 \<longrightarrow> (\<forall>i. i < 200000 \<longrightarrow> i < usable p st \<longrightarrow> st_mem st' (q + i) = st_mem st (p + i))"
    using hm_realloc_correct [OF s(3,4) c, of p "usable p st"] by (auto split: if_splits)
  have "(q = 0 \<longrightarrow> st_mem st' (p + i) = st_mem st (p + i)) \<and> (q \<noteq> 0 \<longrightarrow> st_mem st' (q + i) = st_mem st (p + i))" if "i < 100000" for i
  proof -
    have i: "i < usable p st" "i < 200000" by (rule less_le_trans [OF that s(5)], rule less_trans [OF that]) simp
    then have "p + i \<in> region_set (p, usable p st)" by (simp add: region_set_def in_region_def)
    then show ?thesis using r(2,3) i by (simp add: undisturbed_def)
  qed
  then show ?thesis using s(1,2) r(1) by blast
qed

text \<open>C6: \<open>hm_calloc\<close> returns. When a factor is zero or the product does not fit in 64 bits it returns
  null and changes nothing; otherwise it behaves as an allocation of the exact product, and all
  the bytes asked for are zero.\<close>

theorem hm_calloc_correct:
  assumes "hm_run K st L" "can_call K t (nmemb * sz) st"
  shows "\<exists>p st'. hm_calloc K t nmemb sz st = Some (p, st') \<and> undisturbed L st st' \<and>
    (if nmemb = 0 \<or> sz = 0 \<or> 2 ^ 64 \<le> unat nmemb * unat sz then p = 0 \<and> st' = st
     else if p = 0 then malloc_refused K t (nmemb * sz) st
     else unat (nmemb * sz) = unat nmemb * unat sz \<and> fresh_block 16 (nmemb * sz) p L st' \<and>
       (\<forall>x \<in> region_set (p, nmemb * sz). st_mem st' x = 0))"
proof (cases "nmemb = 0 \<or> sz = 0 \<or> 2 ^ 64 \<le> unat nmemb * unat sz")
  case True
  have "undisturbed L st st" by (rule undisturbedI [OF hm_run_inv [OF assms(1)]]) simp_all
  then show ?thesis using hm_calloc_null [OF True, of K t st] True by (intro exI [of _ 0] exI [of _ st]) simp
next
  case False
  then have nz: "nmemb \<noteq> 0" "sz \<noteq> 0" "unat nmemb * unat sz < 2 ^ 64" by auto
  obtain p st' L' where 1: "hm_calloc K t nmemb sz st = Some (p, st')" "alloc_post K 16 (nmemb * sz) st L p st' L'"
    "p = 0 \<longrightarrow> malloc_refused K t (nmemb * sz) st" "p \<noteq> 0 \<longrightarrow> (\<forall>x \<in> region_set (p, nmemb * sz). st_mem st' x = 0)"
    using hm_calloc_post [OF hm_run_inv [OF assms(1)] assms(2) nz] by blast
  have "unat (nmemb * sz) = unat nmemb * unat sz" using nz(3) by (simp add: unat_word_ariths)
  then show ?thesis using 1(1,3,4) alloc_post_client [OF 1(2)] False by (intro exI [of _ p] exI [of _ st']) simp
qed

theorem hm_calloc_correct_witness:
  "(\<exists>p st'. hm_calloc steady_kernel 0 3 8 (init_state sample_os) = Some (p, st') \<and> p \<noteq> 0 \<and> (\<forall>x \<in> region_set (p, 24). st_mem st' x = 0)) \<and>
   hm_calloc steady_kernel 0 (2 ^ 63) 2 (init_state sample_os) = Some (0, init_state sample_os)"
  using hm_calloc_correct [OF steady_start steady_can_call, of 3 8] hm_calloc_correct [OF steady_start steady_can_call, of "2 ^ 63" 2]
    steady_not_refused(1) by (auto split: if_splits)

text \<open>C7: \<open>hm_aligned_alloc\<close> returns null without any change when the size is zero or the alignment is
  no power of two. Otherwise it returns, and the result is null only for alignments above half a
  segment or when the kernel refused memory; else it is a block with that alignment, whether the
  code served it from a size class or from a region of its own.\<close>

theorem hm_aligned_alloc_correct:
  assumes "hm_run K st L" "can_call K t sz st"
  shows "\<exists>p st'. hm_aligned_alloc K t al sz st = Some (p, st') \<and> undisturbed L st st' \<and>
    (if sz = 0 \<or> \<not> (\<exists>k < 64. al = 2 ^ k) then p = 0 \<and> st' = st
     else if p = 0 then 2 ^ 21 < unat al \<or> seg_refused K (snd (heap_get K t st)) \<or> (\<exists>k < 64. al = 2 ^ k \<and> large_refused K sz (max 4 k) st)
     else fresh_block (unat al) sz p L st')"
proof (cases "sz = 0 \<or> \<not> (\<exists>k < 64. al = 2 ^ k)")
  case True
  have "undisturbed L st st" by (rule undisturbedI [OF hm_run_inv [OF assms(1)]]) simp_all
  then show ?thesis using hm_aligned_null [OF True, of K t st] True by (intro exI [of _ 0] exI [of _ st]) simp
next
  case False
  then obtain k where k: "k < 64" "al = 2 ^ k" and sz: "sz \<noteq> 0" by blast
  have u: "unat al = 2 ^ k" unfolding k(2) by (rule unat_exp_u64 [OF k(1)])
  obtain p st' L' where 1: "hm_aligned_alloc K t al sz st = Some (p, st')" "alloc_post K (2 ^ k) sz st L p st' L'"
    "p = 0 \<longrightarrow> k > 21 \<or> seg_refused K (snd (heap_get K t st)) \<or> large_refused K sz (max 4 k) st"
    using hm_aligned_alloc_post [OF hm_run_inv [OF assms(1)] assms(2) sz k(1)] unfolding k(2) by blast
  have "k > 21 \<Longrightarrow> 2 ^ 21 < unat al" unfolding u by (rule power_strict_increasing) simp_all
  then have "p = 0 \<longrightarrow> 2 ^ 21 < unat al \<or> seg_refused K (snd (heap_get K t st)) \<or> (\<exists>k < 64. al = 2 ^ k \<and> large_refused K sz (max 4 k) st)"
    using 1(3) k by blast
  then show ?thesis using 1(1) alloc_post_client [OF 1(2)] False u by (intro exI [of _ p] exI [of _ st']) simp
qed

theorem hm_aligned_alloc_correct_witness:
  "(\<exists>p st'. hm_aligned_alloc steady_kernel 0 64 24 (init_state sample_os) = Some (p, st') \<and> p \<noteq> 0 \<and> fresh_block 64 24 p {} st') \<and>
   hm_aligned_alloc steady_kernel 0 48 24 (init_state sample_os) = Some (0, init_state sample_os)"
proof -
  have "\<not> is_pow2 48" by (simp add: is_pow2_def)
  then have "\<not> (\<exists>k < 64. (48 :: u64) = 2 ^ k)" by (simp add: is_pow2_iff)
  moreover have "\<not> large_refused steady_kernel 24 (max 4 k) (init_state sample_os)" if "(64 :: u64) = 2 ^ k" "k < 64" for k
  proof -
    have "(2 :: nat) ^ k = 2 ^ 6" using arg_cong [OF that(1), of unat] unat_exp_u64 [OF that(2)] by simp
    then have "k = 6" by (rule power_inject_exp [THEN iffD1, rotated]) simp
    then show ?thesis using steady_not_refused(3) by simp
  qed
  moreover have "\<exists>k < 64. (64 :: u64) = 2 ^ k" by (rule exI [of _ 6]) simp
  then have e: "((24 :: u64) = 0 \<or> \<not> (\<exists>k < 64. (64 :: u64) = 2 ^ k)) = False" by simp
  obtain p st' where "hm_aligned_alloc steady_kernel 0 64 24 (init_state sample_os) = Some (p, st')"
    "if p = 0 then 2 ^ 21 < unat (64 :: u64) \<or> seg_refused steady_kernel (snd (heap_get steady_kernel 0 (init_state sample_os))) \<or>
       (\<exists>k < 64. (64 :: u64) = 2 ^ k \<and> large_refused steady_kernel 24 (max 4 k) (init_state sample_os))
     else fresh_block (unat (64 :: u64)) 24 p {} st'"
    using hm_aligned_alloc_correct [OF steady_start steady_can_call, where sz = 24 and al = 64] unfolding e if_False by blast
  moreover have "\<not> seg_refused steady_kernel (snd (heap_get steady_kernel 0 (init_state sample_os)))"
    using steady_not_refused(1) by (simp add: malloc_refused_def)
  ultimately show ?thesis
    using hm_aligned_alloc_correct [OF steady_start steady_can_call, where sz = 24 and al = 48] by (auto split: if_splits)
qed

text \<open>C8: when a thread exits its heap goes away, and every block it or any other thread allocated
  stays live with its size and bytes: the exit returns, and each of them can still be freed by any
  thread.\<close>

theorem thread_exit_keeps_blocks:
  assumes "hm_run K st L" "roomy (st_registry st)"
  shows "\<exists>st'. thread_exit K t st = Some st' \<and> undisturbed L st st' \<and> st_t_heap st' = (st_t_heap st)(t := NullHeap) \<and>
    (\<forall>(p, n) \<in> L. \<forall>u. \<exists>st''. hm_free K u p st' = Some st'' \<and> undisturbed (L - {(p, n)}) st st'')"
proof -
  obtain st' where 1: "thread_exit K t st = Some st'" "hm_inv K st' L" "same_on L (st_mem st) (st_mem st')" "reg_frame st st'"
    "st_t_heap st' = (st_t_heap st)(t := NullHeap)"
    using thread_exit_post [OF hm_run_inv [OF assms(1)] assms(2), of t] by blast
  have r: "roomy (st_registry st')" using 1(4) assms(2) by (simp add: reg_frame_def)
  have "\<exists>st''. hm_free K u p st' = Some st'' \<and> undisturbed (L - {(p, n)}) st st''" if b: "(p, n) \<in> L" for p n u
  proof -
    obtain st'' where 2: "hm_free K u p st' = Some st''" "hm_inv K st'' (L - {(p, n)})" "same_on (L - {(p, n)}) (st_mem st') (st_mem st'')"
      using hm_free_post [OF 1(2) r b, of u] by blast
    have "same_on (L - {(p, n)}) (st_mem st) (st_mem st')" by (rule same_on_subset [OF 1(3)]) blast
    then have "undisturbed (L - {(p, n)}) st st''" by (intro undisturbedI [OF 2(2) order_refl] same_on_trans [OF _ 2(3)])
    then show ?thesis using 2(1) by blast
  qed
  then show ?thesis using 1(1,5) undisturbedI [OF 1(2) order_refl 1(3)] by blast
qed

theorem thread_exit_keeps_blocks_witness:
  "\<exists>p st st' st''. hm_malloc steady_kernel 0 24 (init_state sample_os) = Some (p, st) \<and> p \<noteq> 0 \<and>
     thread_exit steady_kernel 0 st = Some st' \<and> hm_free steady_kernel 5 p st' = Some st''"
proof -
  obtain p st where s: "hm_malloc steady_kernel 0 24 (init_state sample_os) = Some (p, st)" "p \<noteq> 0" "hm_run steady_kernel st {(p, usable p st)}"
    "roomy (st_registry st)" "24 \<le> usable p st" by (rule steady_small)
  from thread_exit_keeps_blocks [OF s(3,4), of 0] s(1,2) show ?thesis by simp blast
qed

text \<open>C9: in every reachable state all live blocks can be freed one after the other, in any order and
  by any threads; every call returns, and at the end no large allocation is left.\<close>

theorem free_everything:
  assumes "hm_run K st L" "roomy (st_registry st)" "distinct (map snd ops)" "set (map snd ops) = fst ` L"
  shows "\<exists>st'. run_ops (\<lambda>(t, p). hm_free K t p) ops st = Some st' \<and> (\<forall>a. get_large a st' = None) \<and>
    st_large_count st' = 0 \<and> st_large_bytes st' = 0"
proof -
  obtain st' where 1: "run_ops (\<lambda>(t, p). hm_free K t p) ops st = Some st'" "hm_inv K st' {}"
    using hm.release_all [OF hm_run_inv [OF assms(1)] assms(2-4)] by blast
  obtain g hl where i: "large_ok st'" "large_live st' = {}" using hm_invE [OF 1(2)] by blast
  have "get_large a st' = None" for a using large_liveI [of a st'] i(2) by (cases "get_large a st'") auto
  then show ?thesis using 1(1) i(1) by (simp add: large_ok_def large_dom_def)
qed

theorem free_everything_witness:
  "\<exists>p st st'. hm_malloc steady_kernel 0 100000 (init_state sample_os) = Some (p, st) \<and> p \<noteq> 0 \<and>
     hm_free steady_kernel 4 p st = Some st' \<and> st_large_count st' = 0"
proof -
  obtain p st where s: "hm_malloc steady_kernel 0 100000 (init_state sample_os) = Some (p, st)" "p \<noteq> 0" "hm_run steady_kernel st {(p, usable p st)}"
    "slack (st_registry st)" "100000 \<le> usable p st" "reg_exact st" by (rule steady_large)
  from free_everything [OF s(3) slack_roomy [OF s(4)], of "[(4, p)]"] s(1,2) show ?thesis by (auto split: bind_splits)
qed

text \<open>C15: freeing a large block gives its whole region back to the OS: afterwards exactly the bytes of
  that region, header included, are no longer mapped, and \<open>bytes_mapped\<close> has gone down by its
  size.\<close>

theorem free_large_unmaps:
  assumes "hm_run K st L" "roomy (st_registry st)" "get_large a st = Some h"
  shows "\<exists>st'. hm_free K t (a + lh_offset h) st = Some st' \<and>
    (\<forall>x. mapped (st_os st') x \<longleftrightarrow> mapped (st_os st) x \<and> x \<notin> region_set (a, lh_mmap_size h)) \<and>
    bytes_mapped (os_stats (st_os st')) = bytes_mapped (os_stats (st_os st)) - lh_mmap_size h"
proof -
  obtain g hl where i: "heap_inv K st g hl" "large_ok st" by (rule hm_invE [OF hm_run_inv [OF assms(1)]])
  note lb = large_block_facts [OF i assms(3)]
  obtain st' where f: "free_large K (a + lh_offset h) st = Some st'" using free_large_ok [OF i assms(2,3)] by blast
  then have o: "st_os st' = os_free K a (lh_mmap_size h) (st_os st)"
    using lb(5) assms(3) by (auto simp: free_large_def Let_def split: bind_splits)
  have k: "(a + lh_offset h, lh_mmap_size h - lh_offset h) \<in> large_live st" using large_liveI [OF assms(3)] by (simp add: large_block_def)
  have "hm_free K t (a + lh_offset h) st = Some st'" using f large_live_facts(1,5) [OF i k] by (simp add: hm_free_def)
  then show ?thesis using large_os_free [OF i(1) assms(3)] o by (auto simp: os_stats_def)
qed

theorem free_large_unmaps_witness:
  "\<exists>p st a st'. hm_malloc steady_kernel 0 100000 (init_state sample_os) = Some (p, st) \<and> p \<noteq> 0 \<and>
     hm_free steady_kernel 2 p st = Some st' \<and> \<not> mapped (st_os st') a \<and> mapped (st_os st) a"
proof -
  obtain p st where s: "hm_malloc steady_kernel 0 100000 (init_state sample_os) = Some (p, st)" "p \<noteq> 0" "hm_run steady_kernel st {(p, usable p st)}"
    "slack (st_registry st)" "100000 \<le> usable p st" "reg_exact st" by (rule steady_large)
  obtain a h where h: "get_large a st = Some h" "segment_aligned a" "lh_mmap_size h = 102400" by (rule steady_large_header [OF s(1,2)])
  obtain g hl where i: "heap_inv steady_kernel st g hl" "large_ok st" "{(p, usable p st)} = small_live st g \<union> large_live st"
    by (rule hm_invE [OF hm_run_inv [OF s(3)]])
  have "large_block a h \<in> {(p, usable p st)}" using large_liveI [OF h(1)] i(3) by blast
  then have p: "a + lh_offset h = p" by (simp add: large_block_def)
  have m: "mapped (st_os st) p" by (rule live_mapped [OF hm_run_inv [OF s(3)], of "(p, usable p st)"]) (use s(5) in \<open>auto intro: region_set_nonempty\<close>)
  have "p \<in> region_set (large_block a h)" using large_block_facts(8) [OF i(1,2) h(1)] p by (auto simp: large_block_def intro: region_set_nonempty)
  then have "p \<in> region_set (a, lh_mmap_size h)" using large_block_facts(7) [OF i(1,2) h(1)] by blast
  then show ?thesis using free_large_unmaps [OF s(3) slack_roomy [OF s(4)] h(1), of 2] p m s(1,2) by auto
qed

text \<open>C20: every live block is tagged by the region it lies in: either by a segment, and then the page
  recovered from the address has the block's size as its block size and lists the address among
  its blocks; or by a large header whose offset and size give the block, which starts past the
  header's bytes. So \<open>hm_free\<close>,
  \<open>hm_usable_size\<close> and \<open>hm_realloc\<close> read the structure the block was allocated from.\<close>

theorem live_block_kind:
  assumes "hm_run K st L" "(p, n) \<in> L"
  shows "(kind_of p st = Some Small \<and> (\<exists>x. get_page (page_of (segment_of p) p) st = Some x \<and>
        n = ucast (pg_block_size x) \<and> p \<in> page_blocks x \<and> page_geometry x)) \<or>
    (kind_of p st = Some Large \<and> (\<exists>h. get_large (region_base p) st = Some h \<and>
        p = region_base p + lh_offset h \<and> n = lh_mmap_size h - lh_offset h \<and> SIZEOF_LARGE_HEADER \<le> lh_offset h))"
proof -
  obtain g hl where i: "heap_inv K st g hl" "large_ok st" "L = small_live st g \<union> large_live st" by (rule hm_invE [OF hm_run_inv [OF assms(1)]])
  then consider "(p, n) \<in> small_live st g" | "(p, n) \<in> large_live st" using assms(2) by blast
  then show ?thesis
  proof cases
    case 1
    then obtain q where q: "q \<in> used_pages g" "(p, n) \<in> pblocks st q" by (auto simp: small_live_used)
    obtain x fl tf where "get_page q st = Some x" "page_ok (st_mem st) x fl tf" "p \<in> page_live x fl tf" "n = ucast (pg_block_size x)"
      using q(2) by (auto simp: pblocks_def)
    then show ?thesis using block_page(1,3) [OF heap_inv_facts(6) [OF i(1)] q] by (auto simp: page_ok_def page_live_def)
  next
    case 2
    then obtain a h where h: "get_large a st = Some h" "p = a + lh_offset h" "n = lh_mmap_size h - lh_offset h"
      by (auto simp: large_live_def large_block_def)
    have "large_header_ok a h" using i(2) h(1) by (simp add: large_ok_def)
    then have "SIZEOF_LARGE_HEADER \<le> lh_offset h" by (simp add: large_header_ok_def SIZEOF_LARGE_HEADER_def word_le_nat_alt)
    then show ?thesis using large_block_facts(5,6) [OF i(1,2) h(1)] h by simp
  qed
qed

theorem live_block_kind_witness:
  "\<exists>p st. hm_malloc steady_kernel 0 24 (init_state sample_os) = Some (p, st) \<and> p \<noteq> 0 \<and> (kind_of p st = Some Small \<or> kind_of p st = Some Large)"
proof -
  obtain p st where s: "hm_malloc steady_kernel 0 24 (init_state sample_os) = Some (p, st)" "p \<noteq> 0" "hm_run steady_kernel st {(p, usable p st)}"
    "roomy (st_registry st)" "24 \<le> usable p st" by (rule steady_small)
  from live_block_kind [OF s(3), of p "usable p st"] s(1,2) show ?thesis by auto
qed

text \<open>C24: a small request on a thread without a heap, when the kernel refuses the page for one, has no
  result: the code reads \<open>h->pages[c]\<close> through the null heap before any check.\<close>

theorem hm_malloc_null_heap:
  assumes "sz \<noteq> 0" "sz \<le> SMALL_SIZE_MAX" "\<not> hm_ready K t st"
  shows "hm_malloc K t sz st = None"
  using heap_malloc_null_heap [of K t st sz] assms by (simp add: hm_malloc_def hm_ready_def)

theorem hm_malloc_null_heap_witness:
  "kernel_ok (sample_kernel\<lparr>k_mmap := \<lambda>i m n. None\<rparr>) \<and>
   hm_malloc (sample_kernel\<lparr>k_mmap := \<lambda>i m n. None\<rparr>) 0 24 (init_state sample_os) = None"
proof -
  let ?K = "sample_kernel\<lparr>k_mmap := \<lambda>i m n. None\<rparr>"
  have k: "kernel_ok ?K" using sample_kernel_ok
    by (simp add: kernel_ok_def pagesize_ok_def mmap_ok_def munmap_ok_def madvise_ok_def cached_page_size_def)
  obtain a os where e: "os_alloc_aligned ?K (heap_bytes ?K) (os_page_size ?K) sample_os = (a, os)" by fastforce
  have "a = 0" using os_alloc_null_iff [OF k e] by simp
  then have "\<not> hm_ready ?K 0 (init_state sample_os)" using e by (simp add: hm_ready_def heap_get_def heap_create_def init_state_def Let_def)
  then show ?thesis using hm_malloc_null_heap [of 24 ?K 0 "init_state sample_os"] k by simp
qed

section \<open>What the counters mean\<close>

text \<open>C10: in every reachable state \<open>hm_stats\<close> returns and its counters are exact: the number of
  segments, of pages on the heaps' lists and on the free lists, of large allocations and the bytes
  in them; \<open>bytes_reserved\<close> is the sum of the segments, the pages holding heaps, the large regions
  and the registry's table, so nothing is leaked or counted twice; the three call counts are the
  sums of the heaps' own counters, and the peak is the one the OS layer keeps.\<close>

theorem hm_stats_exact:
  assumes "hm_run K st L"
  shows "\<exists>s. hm_stats st = Some s \<and> unat (segments_mapped s) = card (seg_set st) \<and>
    unat (pages_in_use s) = card (heap_pages st) \<and> unat (pages_free s) = card (pool_pages st) \<and>
    unat (large_allocations s) = card (large_dom st) \<and> unat (large_bytes s) = (\<Sum>a \<in> large_dom st. large_size st a) \<and>
    unat (bytes_reserved s) = 2 ^ 22 * unat (segments_mapped s) + unat (heap_bytes K) * card (dom (st_heaps st)) +
      unat (large_bytes s) + table_bytes K st \<and>
    peak_bytes_reserved s = peak_mapped (g_stats (st_os st)) \<and> malloc_count s = heap_total hp_n_malloc st \<and>
    fast_path_count s = heap_total hp_n_fast st \<and> slow_path_count s = heap_total hp_n_slow st"
proof -
  obtain g hl where i: "heap_inv K st g hl" "large_ok st" by (rule hm_invE [OF hm_run_inv [OF assms]])
  show ?thesis using heap_global_counts_eq [OF i(1)] num_segments(1) [OF i(1)] page_cards(1,2) [OF i(1)]
      large_counters [OF i] reserved_bytes [OF i(1)]
    by (simp add: hm_stats_def os_stats_def central_stats_def Let_def)
qed

theorem hm_stats_exact_witness:
  "\<exists>p st s. hm_malloc steady_kernel 0 100000 (init_state sample_os) = Some (p, st) \<and> p \<noteq> 0 \<and> hm_stats st = Some s \<and>
     unat (large_allocations s) = card (large_dom st) \<and> unat (pages_free s) = card (pool_pages st)"
proof -
  obtain p st where s: "hm_malloc steady_kernel 0 100000 (init_state sample_os) = Some (p, st)" "p \<noteq> 0" "hm_run steady_kernel st {(p, usable p st)}"
    "slack (st_registry st)" "100000 \<le> usable p st" "reg_exact st" by (rule steady_large)
  from hm_stats_exact [OF s(3)] s(1,2) show ?thesis by blast
qed

text \<open>C11: in every reachable state no page is lost: each of the 63 usable pages of each segment is on
  exactly one of a list of a heap, the free list of a segment and the list of abandoned pages, and
  \<open>pages_in_use\<close>, \<open>pages_free\<close> and the abandoned count are the numbers of pages on them; the free
  count is the sum of what the segments count.\<close>

theorem page_conservation:
  assumes "hm_run K st L"
  shows "seg_pages (seg_set st) = heap_pages st \<union> pool_pages st \<union> abandoned_pages st \<and>
    heap_pages st \<inter> pool_pages st = {} \<and> heap_pages st \<inter> abandoned_pages st = {} \<and> pool_pages st \<inter> abandoned_pages st = {} \<and>
    unat (cs_pages_in_use (st_central st)) = card (heap_pages st) \<and>
    unat (cs_free_page_count (st_central st)) = card (pool_pages st) \<and>
    unat (cs_abandoned_count (st_central st)) = card (abandoned_pages st) \<and>
    63 * card (seg_set st) = unat (cs_pages_in_use (st_central st)) + unat (cs_free_page_count (st_central st)) +
      unat (cs_abandoned_count (st_central st)) \<and>
    unat (stat_free_pages (central_stats st)) = (\<Sum>s \<in> seg_set st. seg_free st s) \<and>
    unat (stat_segments (central_stats st)) = card (seg_set st)"
proof -
  obtain g hl where i: "heap_inv K st g hl" by (rule hm_invE [OF hm_run_inv [OF assms]])
  show ?thesis using page_counters [OF i] page_cards [OF i] page_partition [OF i] num_segments(1) [OF i]
    by (simp add: central_stats_def Let_def)
qed

theorem page_conservation_witness:
  "\<exists>p st. hm_malloc steady_kernel 0 24 (init_state sample_os) = Some (p, st) \<and> p \<noteq> 0 \<and>
     seg_pages (seg_set st) = heap_pages st \<union> pool_pages st \<union> abandoned_pages st \<and>
     unat (stat_segments (central_stats st)) = card (seg_set st)"
proof -
  obtain p st where s: "hm_malloc steady_kernel 0 24 (init_state sample_os) = Some (p, st)" "p \<noteq> 0" "hm_run steady_kernel st {(p, usable p st)}"
    "roomy (st_registry st)" "24 \<le> usable p st" by (rule steady_small)
  from page_conservation [OF s(3)] s(1,2) show ?thesis by blast
qed

text \<open>C21: in every reachable state at most one segment is kept with all its 63 pages free; any other
  such segment has been returned to the OS. The counter of free segments says which case it is.\<close>

theorem segment_cache_bound:
  assumes "hm_run K st L"
  shows "card {s \<in> seg_set st. seg_free st s = 63} \<le> unat SEGMENT_CACHE \<and>
    unat (cs_free_segments (st_central st)) = card {s \<in> seg_set st. seg_free st s = 63}"
proof -
  obtain g hl where i: "heap_inv K st g hl" by (rule hm_invE [OF hm_run_inv [OF assms]])
  show ?thesis using free_segments [OF i] by (simp add: SEGMENT_CACHE_def)
qed

theorem segment_cache_bound_witness:
  "\<exists>p st. hm_malloc steady_kernel 0 24 (init_state sample_os) = Some (p, st) \<and> p \<noteq> 0 \<and> cs_free_segments (st_central st) \<le> 1"
proof -
  obtain p st where s: "hm_malloc steady_kernel 0 24 (init_state sample_os) = Some (p, st)" "p \<noteq> 0" "hm_run steady_kernel st {(p, usable p st)}"
    "roomy (st_registry st)" "24 \<le> usable p st" by (rule steady_small)
  from segment_cache_bound [OF s(3)] s(1,2) show ?thesis by (auto simp: SEGMENT_CACHE_def word_le_nat_alt)
qed

text \<open>C13: in every reachable state \<open>central_acquire_page\<close> returns. It fails only when the kernel refused
  a segment; otherwise it hands out an unused page set up for the class and the owner, whose area
  holds no byte of a live block. No live byte changes, though the call may first sweep the
  abandoned pages or map a segment.\<close>

theorem central_acquire_page_fresh:
  assumes "hm_run K st L" "roomy (st_registry st)" "unat c < 36"
  shows "\<exists>pg st'. central_acquire_page K owner c (class_sizes ! unat c) st = Some (pg, st') \<and>
    (\<forall>b \<in> L. \<forall>x \<in> region_set b. st_mem st' x = st_mem st x) \<and>
    (if pg = NullPage then seg_refused K st
     else \<exists>x. get_page pg st' = Some x \<and> page_unused x \<and> pg_owner x = owner \<and> pg_size_class x = c \<and>
       pg_block_size x = class_sizes ! unat c \<and> (\<forall>b \<in> L. \<forall>a \<in> region_set b. \<not> in_region (pg_area x) PAGE_SIZE a))"
  using acquire_post [OF hm_run_inv [OF assms(1)] assms(2,3), of owner] unfolding same_on_def by blast

theorem central_acquire_page_fresh_witness:
  "\<exists>p st pg st'. hm_malloc steady_kernel 0 24 (init_state sample_os) = Some (p, st) \<and> p \<noteq> 0 \<and>
     central_acquire_page steady_kernel (HeapAt 0x1000) 5 (class_sizes ! 5) st = Some (pg, st') \<and> st_mem st' p = st_mem st p"
proof -
  obtain p st where s: "hm_malloc steady_kernel 0 24 (init_state sample_os) = Some (p, st)" "p \<noteq> 0" "hm_run steady_kernel st {(p, usable p st)}"
    "roomy (st_registry st)" "24 \<le> usable p st" by (rule steady_small)
  have "p \<in> region_set (p, usable p st)" by (rule region_set_nonempty) (use s(5) in auto)
  then show ?thesis using central_acquire_page_fresh [OF s(3,4), of 5 "HeapAt 0x1000"] s(1,2) by auto
qed

text \<open>C14: a page acquired from the central heap in a reachable state was on no heap's list, and
  released again it is back on the free list of its segment, or the segment was returned to the OS
  with it. The release returns, the pages on the heaps' lists and the count of pages in use are
  those from before, every page is again on one of the three kinds of lists, and no live block has
  gone or lost a byte.\<close>

theorem page_acquire_release:
  assumes "hm_run K st L" "roomy (st_registry st)" "unat c < 36"
    "central_acquire_page K owner c (class_sizes ! unat c) st = Some (pg, st')" "pg \<noteq> NullPage" "roomy (st_registry st')"
  shows "\<exists>st''. central_release_page K pg st' = Some st'' \<and> roomy (st_registry st'') \<and>
    pg \<notin> heap_pages st \<and> given_back st'' pg \<and> heap_pages st'' = heap_pages st \<and>
    seg_pages (seg_set st'') = heap_pages st'' \<union> pool_pages st'' \<union> abandoned_pages st'' \<and>
    cs_pages_in_use (st_central st'') = cs_pages_in_use (st_central st) \<and>
    live_blocks st'' = L \<and> undisturbed L st st''"
proof -
  note i = hm_run_inv [OF assms(1)]
  obtain st'' where 1: "central_release_page K pg st' = Some st''" "hm_inv K st'' L"
    "same_on L (st_mem st) (st_mem st'')" "pg \<notin> heap_pages st" "heap_pages st'' = heap_pages st" "given_back st'' pg"
    using acquire_release_post [OF i assms(2-6)] by blast
  obtain g hl where g: "heap_inv K st g hl" by (rule hm_invE [OF i])
  obtain g2 hl2 where g2: "heap_inv K st'' g2 hl2" by (rule hm_invE [OF 1(2)])
  have h: "central_holds K (regs K st) (class_sizes ! unat c) st (cg_out g)"
    using heap_inv_facts(1,2) [OF g] class_size_class [OF assms(3)] unfolding central_holds_def by blast
  have 2: "central_holds K (regs K st) (class_sizes ! unat c) st'' (cg_out g)" "roomy (st_registry st'')"
    using pages.acquire_release [OF h assms(2,4-6)] 1(1) by auto
  have "cs_pages_in_use (st_central st'') = cs_pages_in_use (st_central st)"
    using central_holds_count [OF h] central_holds_count [OF 2(1)] by (simp add: word_unat_eq_iff)
  then show ?thesis using 1 2(2) page_partition(1) [OF g2] live_blocks_eq [OF 1(2)] undisturbedI [OF 1(2) order_refl 1(3)]
    by (intro exI [of _ st'']) simp
qed

theorem page_acquire_release_witness:
  "\<exists>pg st' st''. central_acquire_page steady_kernel (HeapAt 0x1000) 5 (class_sizes ! 5) (init_state sample_os) = Some (pg, st') \<and>
     pg \<noteq> NullPage \<and> central_release_page steady_kernel pg st' = Some st'' \<and> given_back st'' pg \<and>
     cs_pages_in_use (st_central st'') = 0"
proof -
  let ?s = "init_state sample_os"
  have r: "roomy (st_registry ?s)" "slack (st_registry ?s)" by (simp_all add: roomy_def slack_def init_state_def init_registry_def)
  obtain g hl where i: "heap_inv steady_kernel ?s g hl" by (rule hm_invE [OF hm_run_inv [OF steady_start]])
  note f = heap_inv_facts [OF i]
  obtain pg st' where 1: "central_acquire_page steady_kernel (HeapAt 0x1000) 5 (class_sizes ! unat (5 :: u32)) ?s = Some (pg, st')"
    "pg = NullPage \<longrightarrow> seg_refused steady_kernel ?s" "registry_step ?s st'"
    using central_acquire_page_ok [OF f(1) r(1) f(2) class_size_class [of "unat (5 :: u32)"], of "HeapAt 0x1000" 5] by (auto split: if_splits)
  have pg: "pg \<noteq> NullPage" using 1(2) steady_segment by blast
  have r': "roomy (st_registry st')" using 1(3) r(2) by (simp add: registry_step_def)
  from page_acquire_release [OF steady_start r(1) _ 1(1) pg r'] 1(1) pg show ?thesis
    by (auto simp: init_state_def init_central_def)
qed

text \<open>C12: in every reachable state the sweep of the abandoned pages returns and reclaims exactly the
  pages none of whose blocks is live: the pages that hold a live block are those that stay on the
  list, and each of the others is on the free list of its segment, or its segment was returned to
  the OS. No live block is disturbed and the pages of the heaps are not touched. So memory abandoned
  by exited threads comes back once its blocks are freed.\<close>

theorem sweep_reclaims:
  assumes "hm_run K st L" "roomy (st_registry st)"
  shows "\<exists>st'. sweep_abandoned K st = Some st' \<and> undisturbed L st st' \<and> live_blocks st' = L \<and>
    heap_pages st' = heap_pages st \<and> abandoned_pages st' = held_pages st L \<and> held_pages st L \<subseteq> abandoned_pages st \<and>
    (\<forall>q \<in> abandoned_pages st - held_pages st L. given_back st' q) \<and>
    unat (cs_abandoned_count (st_central st')) = card (held_pages st L) \<and>
    cs_pages_in_use (st_central st') = cs_pages_in_use (st_central st)"
proof -
  note i = hm_run_inv [OF assms(1)]
  obtain st' where 1: "sweep_abandoned K st = Some st'" "hm_inv K st' L" "same_on L (st_mem st) (st_mem st')"
    "heap_pages st' = heap_pages st" "abandoned_pages st' = held_pages st L" "held_pages st L \<subseteq> abandoned_pages st"
    "\<forall>q \<in> abandoned_pages st - held_pages st L. given_back st' q"
    using sweep_post [OF i assms(2)] by blast
  obtain g hl where g: "heap_inv K st g hl" by (rule hm_invE [OF i])
  obtain g1 hl1 where g1: "heap_inv K st' g1 hl1" by (rule hm_invE [OF 1(2)])
  have "cs_pages_in_use (st_central st') = cs_pages_in_use (st_central st)"
    using page_cards(1) [OF g] page_cards(1) [OF g1] 1(4) by (simp add: word_unat_eq_iff)
  moreover have "unat (cs_abandoned_count (st_central st')) = card (held_pages st L)" using page_cards(3) [OF g1] 1(5) by simp
  ultimately show ?thesis using 1 live_blocks_eq [OF 1(2)] undisturbedI [OF 1(2) order_refl 1(3)]
    by (intro exI [of _ st']) simp
qed

theorem sweep_reclaims_witness:
  "\<exists>p st st1 st2. hm_malloc steady_kernel 0 24 (init_state sample_os) = Some (p, st) \<and> p \<noteq> 0 \<and>
     thread_exit steady_kernel 0 st = Some st1 \<and> sweep_abandoned steady_kernel st1 = Some st2 \<and>
     unat (cs_abandoned_count (st_central st2)) = card (held_pages st1 {(p, usable p st)})"
proof -
  obtain p st where s: "hm_malloc steady_kernel 0 24 (init_state sample_os) = Some (p, st)" "p \<noteq> 0" "hm_run steady_kernel st {(p, usable p st)}"
    "roomy (st_registry st)" "24 \<le> usable p st" by (rule steady_small)
  obtain st1 where 1: "thread_exit steady_kernel 0 st = Some st1" "reg_frame st st1"
    using thread_exit_post [OF hm_run_inv [OF s(3)] s(4), of 0] by blast
  have r: "roomy (st_registry st1)" using 1(2) s(4) by (simp add: reg_frame_def)
  from sweep_reclaims [OF hm_run.exit [OF s(3,4) 1(1)] r] s(1,2) 1(1) show ?thesis by blast
qed

section \<open>The malloc replacement\<close>

text \<open>C22: when the registry lists every region, the replacement sends every live block to hmalloc's own
  free, realloc and usable size. A pointer whose window holds none of hmalloc's regions goes to the
  next allocator's function instead; where there is none, free does nothing, realloc returns null
  and the usable size is 0. A null pointer never reaches either.\<close>

theorem override_dispatch:
  assumes "hm_run K st L" "roomy (st_registry st)" "reg_exact st"
  shows "(\<forall>(p, n) \<in> L. checked_free K R t p st = hm_free K t p st \<and> checked_realloc K R t p sz st = hm_realloc K t p sz st \<and>
      checked_usable R p st = Some n) \<and>
    (\<forall>p. region_base p \<noteq> 0 \<longrightarrow> st_regions st (region_base p) = None \<longrightarrow>
      checked_free K R t p st = Some (case real_free R of None \<Rightarrow> st | Some rf \<Rightarrow> st\<lparr>st_os := rf p (st_os st)\<rparr>) \<and>
      checked_realloc K R t p sz st = Some (case real_realloc R of None \<Rightarrow> (0, st)
        | Some rr \<Rightarrow> (fst (rr p sz (st_os st)), st\<lparr>st_os := snd (rr p sz (st_os st))\<rparr>)) \<and>
      checked_usable R p st = Some (case real_usable R of None \<Rightarrow> 0 | Some ru \<Rightarrow> ru p (st_os st))) \<and>
    checked_free K R t 0 st = Some st \<and> checked_realloc K R t 0 sz st = hm_malloc K t sz st \<and> checked_usable R 0 st = Some 0"
proof (intro conjI ballI allI impI)
  note i = hm_run_inv [OF assms(1)]
  fix b assume b: "b \<in> L"
  obtain p n where pn: "b = (p, n)" by (cases b)
  note f = live_facts [OF i b [unfolded pn]] and o = ours_live [OF i assms(2,3) b [unfolded pn]]
  show "case b of (p, n) \<Rightarrow> checked_free K R t p st = hm_free K t p st \<and> checked_realloc K R t p sz st = hm_realloc K t p sz st \<and>
      checked_usable R p st = Some n"
    using f(1,5) o pn by (simp add: checked_free_def checked_realloc_def checked_usable_def)
next
  fix p assume p: "region_base p \<noteq> 0" "st_regions st (region_base p) = None"
  have o: "ours p st = Some False"
    using ours_spec [OF hm_run_inv [OF assms(1)] assms(2) p(1)] p(2) assms(3) by (auto simp: reg_exact_def)
  have z: "p \<noteq> 0" using p(1) by (auto simp: region_base_def)
  show "checked_free K R t p st = Some (case real_free R of None \<Rightarrow> st | Some rf \<Rightarrow> st\<lparr>st_os := rf p (st_os st)\<rparr>)"
    "checked_usable R p st = Some (case real_usable R of None \<Rightarrow> 0 | Some ru \<Rightarrow> ru p (st_os st))"
    using o z by (simp_all add: checked_free_def checked_usable_def)
  show "checked_realloc K R t p sz st = Some (case real_realloc R of None \<Rightarrow> (0, st)
      | Some rr \<Rightarrow> (fst (rr p sz (st_os st)), st\<lparr>st_os := snd (rr p sz (st_os st))\<rparr>))"
    using o z by (simp add: checked_realloc_def split: option.splits prod.splits)
qed (simp_all add: checked_free_def checked_realloc_def checked_usable_def)

theorem override_dispatch_witness:
  "(\<exists>p st. hm_malloc steady_kernel 0 100000 (init_state sample_os) = Some (p, st) \<and> p \<noteq> 0 \<and>
     checked_usable \<lparr>real_free = None, real_realloc = None, real_usable = None\<rparr> p st = Some (usable p st)) \<and>
   checked_realloc steady_kernel \<lparr>real_free = None, real_realloc = Some (\<lambda>p n os. (p + 16, os)), real_usable = Some (\<lambda>p os. 24)\<rparr>
     0 0x7f0000001000 48 (init_state sample_os) = Some (0x7f0000001010, init_state sample_os) \<and>
   checked_usable \<lparr>real_free = None, real_realloc = Some (\<lambda>p n os. (p + 16, os)), real_usable = Some (\<lambda>p os. 24)\<rparr>
     0x7f0000001000 (init_state sample_os) = Some 24"
proof -
  let ?R = "\<lparr>real_free = None, real_realloc = Some (\<lambda>p n os. (p + 16, os)), real_usable = Some (\<lambda>p os. 24)\<rparr>"
  obtain p st where s: "hm_malloc steady_kernel 0 100000 (init_state sample_os) = Some (p, st)" "p \<noteq> 0" "hm_run steady_kernel st {(p, usable p st)}"
    "slack (st_registry st)" "100000 \<le> usable p st" "reg_exact st" by (rule steady_large)
  have "checked_usable \<lparr>real_free = None, real_realloc = None, real_usable = None\<rparr> p st = Some (usable p st)"
    using override_dispatch [OF s(3) slack_roomy [OF s(4)] s(6), of "\<lparr>real_free = None, real_realloc = None, real_usable = None\<rparr>"] by auto
  moreover have i: "roomy (st_registry (init_state sample_os))" "reg_exact (init_state sample_os)"
    "region_base 0x7f0000001000 \<noteq> 0" "st_regions (init_state sample_os) (region_base 0x7f0000001000) = None"
    by (simp_all add: roomy_def reg_exact_def init_state_def init_registry_def reg_keys_def region_base_def)
  note d = override_dispatch [OF steady_start i(1,2), where R = ?R and t = 0 and sz = 48, THEN conjunct2, THEN conjunct1, rule_format, OF i(3,4)]
  have "checked_realloc steady_kernel ?R 0 0x7f0000001000 48 (init_state sample_os) = Some (0x7f0000001010, init_state sample_os)"
    "checked_usable ?R 0x7f0000001000 (init_state sample_os) = Some 24" using d by simp_all
  ultimately show ?thesis using s(1,2) by blast
qed

text \<open>C23: the test looks at the 4 MiB window of a pointer only. A large region shorter than its window
  leaves the rest of the window to other allocators, and a pointer of theirs there counts as
  hmalloc's: freeing it unmaps the large region, with the live block in it.\<close>

theorem override_window:
  assumes "hm_run K st L" "roomy (st_registry st)" "reg_exact st" "get_large a st = Some h" "region_base x = a" "x \<notin> region_set (a, lh_mmap_size h)"
  shows "ours x st = Some True \<and> (\<forall>(p, n) \<in> L. x \<noteq> p) \<and>
    checked_free K R t x st = free_large K (a + lh_offset h) st \<and> (a + lh_offset h, lh_mmap_size h - lh_offset h) \<in> L"
proof -
  note i = hm_run_inv [OF assms(1)]
  note w = ours_window [OF i assms(2-5)]
  obtain g hl where hi: "heap_inv K st g hl" "large_ok st" "L = small_live st g \<union> large_live st" by (rule hm_invE [OF i])
  have l: "(a + lh_offset h, lh_mmap_size h - lh_offset h) \<in> L" using large_liveI [OF assms(4)] hi(3) by (simp add: large_block_def)
  have "x \<noteq> p" if b: "(p, n) \<in> L" for p n
  proof
    assume "x = p"
    then have "(x, n) \<in> L" using b by simp
    then consider "(x, n) \<in> small_live st g" | "(x, n) \<in> large_live st" using hi(3) by blast
    then show False
    proof cases
      case 1
      then show False using small_block_facts(5) [OF hi(1)] w(2) by fastforce
    next
      case 2
      obtain c j where c: "(x, n) = large_block c j" "get_large c st = Some j" "(c, lh_mmap_size j) \<in> regs K st"
        "region_set (x, n) \<subseteq> region_set (c, lh_mmap_size j)" "(c, lh_mmap_size j) \<in> large_regs st" by (rule large_live_region [OF hi(1,2) 2])
      have "c = a" using large_block_facts(5) [OF hi(1,2) c(2)] c(1) assms(5) by (simp add: large_block_def)
      then show False using c(2,4) assms(4,6) region_set_nonempty [of n x] large_live_facts(2) [OF hi(1,2) 2] by auto
    qed
  qed
  then show ?thesis using w l by (auto simp: checked_free_def)
qed

theorem override_window_witness:
  "\<exists>p st x. hm_malloc steady_kernel 0 100000 (init_state sample_os) = Some (p, st) \<and> p \<noteq> 0 \<and> x \<noteq> p \<and> ours x st = Some True"
proof -
  obtain p st where s: "hm_malloc steady_kernel 0 100000 (init_state sample_os) = Some (p, st)" "p \<noteq> 0" "hm_run steady_kernel st {(p, usable p st)}"
    "slack (st_registry st)" "100000 \<le> usable p st" "reg_exact st" by (rule steady_large)
  obtain a h where h: "get_large a st = Some h" "segment_aligned a" "lh_mmap_size h = 102400" by (rule steady_large_header [OF s(1,2)])
  have b: "region_base (a + 200000) = a" by (rule region_base_add [OF h(2)]) simp
  moreover have "a + 200000 \<notin> region_set (a, lh_mmap_size h)" using h(3) by (simp add: region_set_def in_region_def)
  ultimately show ?thesis
    using override_window [OF s(3) slack_roomy [OF s(4)] s(6) h(1), of "a + 200000"] s(1,2) by auto
qed

text \<open>C29: \<open>posix_memalign\<close> returns \<open>EINVAL\<close> and changes nothing exactly for a null result pointer or an
  alignment that is below 8 or no power of two. Otherwise it returns 0 and stores a block with
  that alignment, of at least one byte even for size zero, or \<open>ENOMEM\<close>, and then the kernel
  refused memory or the alignment is above half a segment.\<close>

theorem posix_memalign_correct:
  assumes "hm_run K st L" "can_call K t (if sz \<noteq> 0 then sz else 1) st"
  shows "\<exists>rc st'. do_posix_memalign K t out al sz st = Some (rc, st') \<and>
    (if out = 0 \<or> al < 8 \<or> \<not> (\<exists>k < 64. al = 2 ^ k) then rc = EINVAL \<and> st' = st
     else rc = ENOMEM \<and> undisturbed L st st' \<and> (2 ^ 21 < unat al \<or> seg_refused K (snd (heap_get K t st)) \<or>
         (\<exists>k < 64. al = 2 ^ k \<and> large_refused K (if sz \<noteq> 0 then sz else 1) (max 4 k) st)) \<or>
       rc = 0 \<and> load64 (st_mem st') out \<noteq> 0 \<and> fresh_block (unat al) (if sz \<noteq> 0 then sz else 1) (load64 (st_mem st') out) L st')"
proof (cases "out = 0 \<or> al < 8 \<or> \<not> (\<exists>k < 64. al = 2 ^ k)")
  case True
  then have "do_posix_memalign K t out al sz st = Some (EINVAL, st)"
    unfolding is_pow2_iff [symmetric] by (auto simp: do_posix_memalign_def is_pow2_def)
  then show ?thesis using True by simp
next
  case False
  then obtain k where k: "k < 64" "al = 2 ^ k" by blast
  let ?n = "if sz \<noteq> 0 then sz else 1"
  have a: "al \<noteq> 0" "al AND (al - 1) = 0" "\<not> al < 8" "out \<noteq> 0" using False is_pow2_iff [of al] by (auto simp: is_pow2_def)
  have "?n \<noteq> 0" by simp
  then obtain p st' L' where 1: "hm_aligned_alloc K t al ?n st = Some (p, st')" "alloc_post K (2 ^ k) ?n st L p st' L'"
    "p = 0 \<longrightarrow> k > 21 \<or> seg_refused K (snd (heap_get K t st)) \<or> large_refused K ?n (max 4 k) st"
    using hm_aligned_alloc_post [OF hm_run_inv [OF assms(1)] assms(2) _ k(1)] unfolding k(2) by blast
  have d: "do_posix_memalign K t out al sz st = Some (if p = 0 then (ENOMEM, st') else (0, upd_mem (store64 out p (st_mem st')) st'))"
    unfolding do_posix_memalign_def 1(1) using a by simp
  have u: "unat al = 2 ^ k" unfolding k(2) by (rule unat_exp_u64 [OF k(1)])
  show ?thesis
  proof (cases "p = 0")
    case True
    have "k > 21 \<Longrightarrow> 2 ^ 21 < unat al" unfolding u by (rule power_strict_increasing) simp_all
    then have "2 ^ 21 < unat al \<or> seg_refused K (snd (heap_get K t st)) \<or> (\<exists>k < 64. al = 2 ^ k \<and> large_refused K ?n (max 4 k) st)"
      using 1(3) True k by blast
    then show ?thesis using d alloc_post_client(1) [OF 1(2)] False True by simp
  next
    case p: False
    then show ?thesis using d alloc_post_client(2) [OF 1(2) p] False u by simp
  qed
qed

theorem posix_memalign_correct_witness:
  "(\<exists>rc st'. do_posix_memalign steady_kernel 0 0x1000 64 0 (init_state sample_os) = Some (rc, st') \<and> (rc = 0 \<or> rc = ENOMEM)) \<and>
   do_posix_memalign steady_kernel 0 0 64 24 (init_state sample_os) = Some (EINVAL, init_state sample_os)"
proof -
  have c: "can_call steady_kernel 0 (if n \<noteq> 0 then n else 1) (init_state sample_os)" for n by (rule steady_can_call)
  have "\<exists>k < 64. (64 :: u64) = 2 ^ k" by (rule exI [of _ 6]) simp
  then have e: "((0x1000 :: u64) = 0 \<or> (64 :: u64) < 8 \<or> \<not> (\<exists>k < 64. (64 :: u64) = 2 ^ k)) = False" by simp
  have "\<exists>rc st'. do_posix_memalign steady_kernel 0 0x1000 64 0 (init_state sample_os) = Some (rc, st') \<and> (rc = 0 \<or> rc = ENOMEM)"
    using posix_memalign_correct [OF steady_start c, where out = "0x1000" and al = 64] unfolding e if_False by blast
  then show ?thesis using posix_memalign_correct [OF steady_start c [of 24], where out = 0 and al = 64] by simp
qed

text \<open>C30: \<open>valloc\<close> of a non-empty size returns a block aligned to the kernel's page size, or null after
  a refusal or for a page size above half a segment.\<close>

theorem valloc_page_aligned:
  assumes "hm_run K st L" "can_call K t sz st" "sz \<noteq> 0"
  shows "\<exists>p st'. do_valloc K t sz st = Some (p, st') \<and> undisturbed L st st' \<and>
    (if p = 0 then 2 ^ 21 < unat (os_page_size K) \<or> seg_refused K (snd (heap_get K t st)) \<or> (\<exists>k < 64. os_page_size K = 2 ^ k \<and> large_refused K sz (max 4 k) st)
     else fresh_block (unat (os_page_size K)) sz p L st')"
proof -
  obtain g hl where i: "heap_inv K st g hl" by (rule hm_invE [OF hm_run_inv [OF assms(1)]])
  have "pagesize_ok K" using os_holds_kernel [OF world_regs(1) [OF i]] by (simp add: kernel_ok_def)
  then obtain k where "12 \<le> k" "k \<le> 22" "cached_page_size K = 2 ^ k" "unat (cached_page_size K) = 2 ^ k" by (rule page_size_power)
  then have k: "k < 64" "os_page_size K = 2 ^ k" and u: "unat (os_page_size K) = 2 ^ k" by (simp_all add: os_page_size_def)
  have v: "do_valloc K t sz st = hm_aligned_alloc K t (2 ^ k) sz st"
    using k(2) by (simp add: do_valloc_def os_page_size_def cached_page_size_def Let_def)
  obtain p st' L' where 1: "do_valloc K t sz st = Some (p, st')" "alloc_post K (2 ^ k) sz st L p st' L'"
    "p = 0 \<longrightarrow> k > 21 \<or> seg_refused K (snd (heap_get K t st)) \<or> large_refused K sz (max 4 k) st"
    using hm_aligned_alloc_post [OF hm_run_inv [OF assms(1)] assms(2,3) k(1)] unfolding v by blast
  have "k > 21 \<Longrightarrow> 2 ^ 21 < unat (os_page_size K)" unfolding u by (rule power_strict_increasing) simp_all
  then have "p = 0 \<longrightarrow> 2 ^ 21 < unat (os_page_size K) \<or> seg_refused K (snd (heap_get K t st)) \<or> (\<exists>k < 64. os_page_size K = 2 ^ k \<and> large_refused K sz (max 4 k) st)"
    using 1(3) k by blast
  then show ?thesis using 1(1) alloc_post_client [OF 1(2)] u by (intro exI [of _ p] exI [of _ st']) simp
qed

theorem valloc_page_aligned_witness:
  "\<exists>p st'. do_valloc steady_kernel 0 24 (init_state sample_os) = Some (p, st') \<and> (p \<noteq> 0 \<longrightarrow> 4096 dvd unat p)"
proof -
  have "(24 :: u64) \<noteq> 0" by simp
  from valloc_page_aligned [OF steady_start steady_can_call this] show ?thesis
    by (auto simp: fresh_block_def os_page_size_def steady_page_size split: if_splits)
qed

text \<open>C31: \<open>operator new\<close> never returns null: it throws exactly when the kernel refused memory, never
  because of a zero size, and otherwise returns a 16-byte aligned block of at least one byte.\<close>

theorem operator_new_correct:
  assumes "hm_run K st L" "can_call K t (if s \<noteq> 0 then s else 1) st"
  shows "\<exists>r st'. operator_new K t s st = Some (r, st') \<and> undisturbed L st st' \<and>
    (case r of Inl _ \<Rightarrow> malloc_refused K t (if s \<noteq> 0 then s else 1) st
     | Inr p \<Rightarrow> p \<noteq> 0 \<and> fresh_block 16 (if s \<noteq> 0 then s else 1) p L st')"
proof -
  let ?n = "if s \<noteq> 0 then s else 1"
  obtain p st' L' where 1: "hm_malloc K t ?n st = Some (p, st')" "alloc_post K 16 ?n st L p st' L'" "p = 0 \<longrightarrow> malloc_refused K t ?n st"
    using hm_malloc_post [OF hm_run_inv [OF assms(1)] assms(2)] by blast
  have "operator_new K t s st = Some (if p = 0 then Inl () else Inr p, st')" unfolding operator_new_def 1(1) by (simp add: throwing_def)
  then show ?thesis using 1(3) alloc_post_client [OF 1(2)] by (intro exI [of _ "if p = 0 then Inl () else Inr p"] exI [of _ st']) simp
qed

theorem operator_new_correct_witness:
  "\<exists>p st'. operator_new steady_kernel 0 24 (init_state sample_os) = Some (Inr p, st') \<and> fresh_block 16 24 p {} st'"
proof -
  have n: "(if (24 :: u64) \<noteq> 0 then 24 else 1) = (24 :: u64)" by simp
  have c: "can_call steady_kernel 0 (if (24 :: u64) \<noteq> 0 then 24 else 1) (init_state sample_os)" by (rule steady_can_call)
  obtain r st' where "operator_new steady_kernel 0 24 (init_state sample_os) = Some (r, st')"
    "case r of Inl _ \<Rightarrow> malloc_refused steady_kernel 0 24 (init_state sample_os) | Inr p \<Rightarrow> p \<noteq> 0 \<and> fresh_block 16 24 p {} st'"
    using operator_new_correct [OF steady_start c] unfolding n by blast
  then show ?thesis using steady_not_refused(1) by (cases r) auto
qed

end
